(* ===== verification/Temu_Prelude.thy ===== *)
theory Temu_Prelude
  imports Main "HOL-Library.Word" "HOL-Library.Monad_Syntax"
begin

text \<open>
  What every component shares: the names of the C integer types, memory reads that can fail,
  generic facts on lists, options and words, and the collections of simplification rules.

  A C expression whose evaluation is undefined or kills the process (a read outside an object, a
  null dereference, an uninitialised read, a failed assert) is the value \<open>None\<close> of an
  \<open>option\<close> result, so "the operation returns" is an ordinary statement of the logic.
  The host is LP64: \<open>int\<close> is 32 bits, \<open>long\<close>, \<open>size_t\<close> and pointers 64.
\<close>

unbundle bit_operations_syntax

named_theorems clib_simps \<open>evaluation rules for the C library layer\<close>
named_theorems byte_simps \<open>rewriting between byte lists and the words they encode\<close>
named_theorems frame_simps \<open>fields an operation leaves unchanged\<close>

type_synonym byte = "8 word"
type_synonym u16 = "16 word"
type_synonym u32 = "32 word"
type_synonym u64 = "64 word"
type_synonym c_int = "32 word"
type_synonym buffer = "8 word list"

text \<open>Reading one element of a C array: undefined outside the object.\<close>

definition rd :: "'a list \<Rightarrow> nat \<Rightarrow> 'a option" where
  "rd xs i = (if i < length xs then Some (xs ! i) else None)"

text \<open>Reading a block of \<open>n\<close> elements from offset \<open>i\<close>.\<close>

definition rd_block :: "'a list \<Rightarrow> nat \<Rightarrow> nat \<Rightarrow> 'a list option" where
  "rd_block xs i n = (if i + n \<le> length xs then Some (take n (drop i xs)) else None)"

text \<open>Overwriting a block (\<open>memcpy\<close> into an object): undefined when it does not fit.\<close>

definition wr_block :: "'a list \<Rightarrow> nat \<Rightarrow> 'a list \<Rightarrow> 'a list option" where
  "wr_block xs i ys =
     (if i + length ys \<le> length xs
      then Some (take i xs @ ys @ drop (i + length ys) xs) else None)"

lemma rd_Some_iff [simp]: "rd xs i = Some x \<longleftrightarrow> i < length xs \<and> x = xs ! i"
  by (auto simp: rd_def)

lemma rd_None_iff [simp]: "rd xs i = None \<longleftrightarrow> length xs \<le> i"
  by (simp add: rd_def not_less)

lemma rd_in_range [simp]: "i < length xs \<Longrightarrow> rd xs i = Some (xs ! i)"
  by simp

lemma rd_block_length: "rd_block xs i n = Some ys \<Longrightarrow> length ys = n"
  by (auto simp: rd_block_def split: if_splits)

lemma wr_block_length: "wr_block xs i ys = Some zs \<Longrightarrow> length zs = length xs"
  by (auto simp: wr_block_def split: if_splits)

lemma wr_block_nth:
  "wr_block xs i ys = Some zs \<Longrightarrow> k < length xs \<Longrightarrow>
   zs ! k = (if i \<le> k \<and> k < i + length ys then ys ! (k - i) else xs ! k)"
  by (auto simp: wr_block_def nth_append min_def split: if_splits)

lemma rd_block_wr_block:
  "wr_block xs i ys = Some zs \<Longrightarrow> rd_block zs i (length ys) = Some ys"
  by (auto simp: wr_block_def rd_block_def split: if_splits)

text \<open>Splitting a text at the first occurrence of a separator.\<close>

lemma append_sep_inj:
  assumes "c \<notin> set xs" "c \<notin> set ys"
  shows "xs @ c # r = ys @ c # r' \<longleftrightarrow> xs = ys \<and> r = r'"
proof
  assume eq: "xs @ c # r = ys @ c # r'"
  have "takeWhile (\<lambda>x. x \<noteq> c) (xs @ c # r) = xs" using assms(1) by (auto simp: takeWhile_tail)
  moreover have "takeWhile (\<lambda>x. x \<noteq> c) (ys @ c # r') = ys"
    using assms(2) by (auto simp: takeWhile_tail)
  ultimately have "xs = ys" using eq by metis
  with eq show "xs = ys \<and> r = r'" by simp
qed simp

lemma all_less_add: "(\<forall>i < m + n. P i) \<longleftrightarrow> (\<forall>i < m. P i) \<and> (\<forall>i < n. P (m + i :: nat))"
  by (induction n) (auto simp: All_less_Suc)

lemma map_upt_add: "map f [0..<m + n] = map f [0..<m] @ map (\<lambda>i. f (m + i)) [0..<n]"
  by (induction n) simp_all

lemma foldl_mult_add:
  fixes b :: nat
  shows "foldl (\<lambda>a c. b * a + f c) k xs = b ^ length xs * k + foldl (\<lambda>a c. b * a + f c) 0 xs"
proof (induction xs arbitrary: k)
  case Nil
  then show ?case by simp
next
  case (Cons x xs)
  show ?case
    using Cons.IH [of "b * k + f x"] Cons.IH [of "f x"] by (simp add: algebra_simps)
qed

lemma unat_less_pow: "unat (a :: 'a :: len word) < 2 ^ LENGTH('a)"
  by (fact unsigned_less)

lemma ucast_up_inj:
  fixes a b :: "'a :: len word"
  assumes "LENGTH('a) \<le> LENGTH('b :: len)"
  shows "(ucast a :: 'b word) = ucast b \<longleftrightarrow> a = b"
proof
  assume "(ucast a :: 'b word) = ucast b"
  then have "unat (ucast a :: 'b word) = unat (ucast b :: 'b word)" by simp
  then have "unat a = unat b" using assms
    by (simp add: unsigned_ucast_eq take_bit_nat_eq_self less_le_trans [OF unat_less_pow])
  then show "a = b" by (simp only: word_unat_eq_iff)
qed simp

lemma ucast_scast_32_64 [simp]: "(ucast (scast (w :: 32 word) :: 64 word) :: 32 word) = w"
proof (rule bit_word_eqI)
  fix n assume "n < LENGTH(32)"
  then have "n < 31 \<or> n = 31" by auto
  then show "bit (ucast (scast w :: 64 word) :: 32 word) n = bit w n"
    by (auto simp: bit_unsigned_iff bit_signed_iff)
qed

text \<open>A word read as signed is the word read as unsigned below half of its range.\<close>

lemma sint_small:
  assumes "unat (w :: 'a :: len word) < 2 ^ (LENGTH('a) - 1)"
  shows "sint w = int (unat w)"
proof -
  have "uint w = int (unat w)" by simp
  then have "uint w < 2 ^ (LENGTH('a) - 1)"
    using assms by (metis of_nat_less_iff of_nat_numeral of_nat_power)
  then show ?thesis by (simp add: sint_uint signed_take_bit_int_eq_self order_trans [of _ 0])
qed

lemma sle_zero_unat:
  assumes "0 \<le>s (p :: 'a :: len word)"
  shows "unat p < 2 ^ (LENGTH('a) - 1)"
proof -
  have nb: "\<not> bit p (LENGTH('a) - 1)"
    using assms by (simp add: word_sle_eq bit_last_iff not_le not_less)
  have "take_bit (LENGTH('a) - 1) p = p"
  proof (rule bit_word_eqI)
    fix n assume "n < LENGTH('a)"
    then have "n = LENGTH('a) - 1 \<or> n < LENGTH('a) - 1" by arith
    then show "bit (take_bit (LENGTH('a) - 1) p) n = bit p n"
      using nb by (auto simp: bit_simps)
  qed
  then have "unat p = take_bit (LENGTH('a) - 1) (unat p)" by (metis unsigned_take_bit_eq)
  then show ?thesis by (metis take_bit_nat_less_exp)
qed

lemma bit_unat_ge: "bit (w :: 'a :: len word) n \<Longrightarrow> 2 ^ n \<le> unat w"
proof (rule ccontr)
  assume b: "bit w n" and "\<not> 2 ^ n \<le> unat w"
  then have "unat w div 2 ^ n = 0" by simp
  moreover have "odd (unat w div 2 ^ n)" using b by (simp add: bit_unsigned_iff bit_iff_odd [symmetric])
  ultimately show False by simp
qed

lemma unat_exp: "k < LENGTH('a :: len) \<Longrightarrow> unat (2 ^ k :: 'a word) = 2 ^ k"
proof -
  assume "k < LENGTH('a)"
  then have "(2 :: nat) ^ k < 2 ^ LENGTH('a)" by simp
  then have "unat (word_of_nat (2 ^ k) :: 'a word) = 2 ^ k" by (simp only: unsigned_of_nat take_bit_nat_eq_self of_nat_id)
  then show ?thesis by simp
qed

lemma word_top_bit:
  fixes v :: "'a :: len word"
  assumes "v \<noteq> 0"
  shows "\<exists>k < LENGTH('a). bit v k \<and> (\<forall>j > k. \<not> bit v j) \<and> 2 ^ k \<le> unat v \<and> unat v < 2 ^ Suc k"
proof -
  let ?B = "{j. bit v j}"
  have fin: "finite ?B" by (rule finite_subset [of _ "{..<LENGTH('a)}"]) (auto dest: bit_imp_le_length)
  have ne: "?B \<noteq> {}" using assms by (auto simp: bit_eq_iff)
  define k where "k = Max ?B"
  have k: "bit v k" "\<forall>j > k. \<not> bit v j"
    using Max_in [OF fin ne] Max_ge [OF fin] unfolding k_def by (simp_all, fastforce dest: leD)
  have "take_bit (Suc k) v = v"
  proof (rule bit_word_eqI)
    fix j
    show "bit (take_bit (Suc k) v) j = bit v j" using k(2) by (cases "k < j") (auto simp: bit_take_bit_iff)
  qed
  then have "unat v = take_bit (Suc k) (unat v)" by (metis unsigned_take_bit_eq)
  then have "unat v < 2 ^ Suc k" by (metis take_bit_nat_less_exp)
  with k bit_unat_ge [OF k(1)] show ?thesis by (auto dest: bit_imp_le_length)
qed

lemma takeWhile_rev_upt:
  "k < n \<Longrightarrow> P k \<Longrightarrow> \<forall>j > k. \<not> P j \<Longrightarrow> length (takeWhile (\<lambda>i. \<not> P i) (rev [0..<n])) = n - 1 - k"
proof -
  assume a: "k < n" "P k" "\<forall>j > k. \<not> P j"
  have "[0..<n] = [0..<k] @ k # [Suc k..<n]"
    using a(1) by (metis less_imp_le_nat upt_add_eq_append upt_conv_Cons zero_le le_add_diff_inverse)
  then have "rev [0..<n] = rev [Suc k..<n] @ k # rev [0..<k]" by simp
  moreover have "takeWhile (\<lambda>i. \<not> P i) (rev [Suc k..<n] @ k # rev [0..<k]) =
      rev [Suc k..<n] @ takeWhile (\<lambda>i. \<not> P i) (k # rev [0..<k])"
    using a(3) by (intro takeWhile_append2) auto
  ultimately show ?thesis using a(2) by (simp only: ) simp
qed

lemma unat_pos_iff: "0 < unat (w :: 'a :: len word) \<longleftrightarrow> w \<noteq> 0"
  by (metis gr_zeroI less_irrefl unsigned_eq_0_iff)

lemma scast_word_of_nat: "unat len < 2 ^ 31 \<Longrightarrow> scast (len :: c_int) = (word_of_nat (unat len) :: u64)"
proof -
  assume "unat len < 2 ^ 31"
  then have "sint len = int (unat len)" by (intro sint_small) simp
  then show ?thesis by (simp only: scast_eq of_int_of_nat_eq)
qed

lemma unat_scast_small: "unat len < 2 ^ 31 \<Longrightarrow> unat (scast (len :: c_int) :: u64) = unat len"
proof -
  assume "unat len < 2 ^ 31"
  moreover have "unat len < 2 ^ LENGTH(64)" using unat_less_pow [of len] by simp
  ultimately show ?thesis by (simp only: scast_word_of_nat unsigned_of_nat take_bit_nat_eq_self of_nat_id)
qed

lemma sless_zero_iff: "unat len < 2 ^ 31 \<Longrightarrow> 0 <s (len :: c_int) \<longleftrightarrow> 0 < unat len"
  using sint_small [of len] by (simp add: word_sless_alt del: of_nat_unat)

end
