(* ===== verification/C_Library.thy ===== *)
theory C_Library
  imports Temu_Prelude
begin

text \<open>
  The parts of the C library the modelled code calls: the integer conversions of \<open>printf\<close>,
  \<open>atoi\<close>, \<open>fgets\<close> into a fixed buffer, \<open>strcpy\<close> into a fixed array, and the
  in-memory (little endian) layout of integers that \<open>fwrite\<close> and \<open>ldq_p\<close> see.
  The lemmas are the round trips the components rest on: decimal text against numbers, and
  little endian bytes against words.
\<close>

subsection \<open>Decimal and hexadecimal text\<close>

definition digit_char :: "nat \<Rightarrow> char" where
  "digit_char d = char_of (48 + d)"

text \<open>The conversion \<open>%u\<close> (and \<open>%d\<close> of a non-negative value).\<close>

fun dec :: "nat \<Rightarrow> string" where
  "dec n = (if n < 10 then [digit_char n] else dec (n div 10) @ [digit_char (n mod 10)])"

declare dec.simps [simp del]

text \<open>The conversion \<open>%d\<close>.\<close>

definition sdec :: "int \<Rightarrow> string" where
  "sdec i = (if i < 0 then CHR ''-'' # dec (nat (- i)) else dec (nat i))"

definition hex_char :: "nat \<Rightarrow> char" where
  "hex_char d = (if d < 10 then char_of (48 + d) else char_of (87 + d))"

text \<open>The conversion \<open>%02x\<close> of one byte.\<close>

definition hex2 :: "byte \<Rightarrow> string" where
  "hex2 b = [hex_char (unat b div 16), hex_char (unat b mod 16)]"

definition is_digit :: "char \<Rightarrow> bool" where
  "is_digit c \<longleftrightarrow> 48 \<le> (of_char c :: nat) \<and> (of_char c :: nat) \<le> 57"

text \<open>\<open>isspace\<close> in the C locale: tab, newline, vertical tab, form feed, return, space.\<close>

definition is_space :: "char \<Rightarrow> bool" where
  "is_space c \<longleftrightarrow> (of_char c :: nat) = 32 \<or> (9 \<le> (of_char c :: nat) \<and> (of_char c :: nat) \<le> 13)"

definition undec :: "string \<Rightarrow> nat" where
  "undec s = foldl (\<lambda>a c. 10 * a + (of_char c - 48)) 0 s"

text \<open>
  \<open>strtol (s, NULL, 10)\<close>: blanks, an optional sign, the longest run of digits; the value
  saturates at the range of \<open>long\<close>. \<open>atoi\<close> is its conversion to \<open>int\<close>.
\<close>

definition strtol10 :: "string \<Rightarrow> int" where
  "strtol10 s =
     (let t = dropWhile is_space s;
          (neg, u) = (case t of
             [] \<Rightarrow> (False, [])
           | c # cs \<Rightarrow> if c = CHR ''-'' then (True, cs)
                      else if c = CHR ''+'' then (False, cs) else (False, t));
          v = int (undec (takeWhile is_digit u))
      in if neg then max (- (2 ^ 63)) (- v) else min (2 ^ 63 - 1) v)"

definition atoi :: "string \<Rightarrow> c_int" where
  "atoi s = word_of_int (strtol10 s)"

text \<open>
  \<open>fgets (buf, n, fp)\<close> on the remaining contents of a stream: at most \<open>n - 1\<close>
  characters, up to and including a newline; at end of file the buffer keeps what it held, which
  for an uninitialised array is the value \<open>None\<close>.
\<close>

fun fgets_aux :: "nat \<Rightarrow> string \<Rightarrow> string" where
  "fgets_aux 0 s = []"
| "fgets_aux (Suc k) [] = []"
| "fgets_aux (Suc k) (c # cs) = (if c = char_of (10 :: nat) then [c] else c # fgets_aux k cs)"

definition fgets_uninit :: "nat \<Rightarrow> string \<Rightarrow> string option" where
  "fgets_uninit n s = (if s = [] then None else Some (fgets_aux (n - 1) s))"

text \<open>\<open>strcpy\<close> into an array of \<open>n\<close> characters: undefined when the text and its
  terminator do not fit.\<close>

definition strcpy_into :: "nat \<Rightarrow> string \<Rightarrow> string option" where
  "strcpy_into n s = (if length s < n then Some s else None)"

subsection \<open>Little endian integers in memory\<close>

fun le_bytes :: "nat \<Rightarrow> nat \<Rightarrow> buffer" where
  "le_bytes 0 v = []"
| "le_bytes (Suc k) v = word_of_nat v # le_bytes k (v div 256)"

fun le_value :: "buffer \<Rightarrow> nat" where
  "le_value [] = 0"
| "le_value (b # bs) = unat b + 256 * le_value bs"

definition bytes_of_u32 :: "u32 \<Rightarrow> buffer" where
  "bytes_of_u32 w = le_bytes 4 (unat w)"

definition bytes_of_u64 :: "u64 \<Rightarrow> buffer" where
  "bytes_of_u64 w = le_bytes 8 (unat w)"

definition u32_of_bytes :: "buffer \<Rightarrow> u32" where
  "u32_of_bytes bs = word_of_nat (le_value bs)"

definition u64_of_bytes :: "buffer \<Rightarrow> u64" where
  "u64_of_bytes bs = word_of_nat (le_value bs)"

subsection \<open>Facts on decimal text\<close>

lemma of_char_digit: "d < 10 \<Longrightarrow> (of_char (digit_char d) :: nat) = 48 + d"
  by (simp add: digit_char_def of_char_of)

lemma is_digit_digit_char [simp]: "d < 10 \<Longrightarrow> is_digit (digit_char d)"
  by (simp add: is_digit_def of_char_digit)

lemma dec_digits: "\<forall>c \<in> set (dec n). is_digit c"
proof (induction n rule: dec.induct)
  case (1 n)
  then show ?case by (subst dec.simps) auto
qed

lemma dec_nonempty [simp]: "dec n \<noteq> []"
  by (subst dec.simps) simp

lemma undec_snoc: "undec (s @ [c]) = 10 * undec s + (of_char c - 48)"
  by (simp add: undec_def)

lemma undec_dec [simp]: "undec (dec n) = n"
proof (induction n rule: dec.induct)
  case (1 n)
  show ?case
  proof (cases "n < 10")
    case True
    then show ?thesis by (subst dec.simps) (simp add: undec_def of_char_digit)
  next
    case False
    then have "undec (dec n) = 10 * (n div 10) + n mod 10"
      using 1 by (subst dec.simps) (simp add: undec_snoc of_char_digit)
    then show ?thesis by simp
  qed
qed

lemma dec_inj [simp]: "dec m = dec n \<longleftrightarrow> m = n"
  by (metis undec_dec)

lemma not_digit_notin_dec: "\<not> is_digit c \<Longrightarrow> c \<notin> set (dec n)"
  using dec_digits by blast

lemma digit_not_space: "is_digit c \<Longrightarrow> \<not> is_space c"
  by (auto simp: is_digit_def is_space_def)

lemma takeWhile_dec [simp]: "takeWhile is_digit (dec n) = dec n"
  using dec_digits by (simp add: takeWhile_eq_all_conv)

lemma dec_hd: obtains c cs where "dec n = c # cs" "is_digit c"
  using dec_digits [of n] by (cases "dec n") auto

lemma strtol10_dec: "strtol10 (dec n) = min (2 ^ 63 - 1) (int n)"
proof -
  obtain c cs where d: "dec n = c # cs" "is_digit c" by (rule dec_hd)
  then have "dropWhile is_space (dec n) = dec n" by (simp add: digit_not_space)
  moreover have "c \<noteq> CHR ''-''" "c \<noteq> CHR ''+''" using d(2) by (auto simp: is_digit_def)
  moreover have "takeWhile is_digit (c # cs) = dec n" using d(1) takeWhile_dec [of n] by simp
  moreover have "undec (c # cs) = n" using d(1) undec_dec [of n] by simp
  ultimately show ?thesis using d(1) by (simp add: strtol10_def)
qed

lemma strtol10_neg_dec: "strtol10 (CHR ''-'' # dec n) = max (- (2 ^ 63)) (- int n)"
  by (simp add: strtol10_def is_space_def)

text \<open>Reading back what \<open>%d\<close> printed: \<open>atoi\<close> inverts it on the range of \<open>int\<close>.\<close>

lemma atoi_sdec:
  assumes "- (2 ^ 31) \<le> i" "i < 2 ^ 31"
  shows "atoi (sdec i) = word_of_int i"
  using assms by (simp add: atoi_def sdec_def strtol10_dec strtol10_neg_dec)

subsection \<open>Facts on little endian bytes\<close>

lemma length_le_bytes [simp]: "length (le_bytes k v) = k"
  by (induction k arbitrary: v) auto

lemma le_bytes_numeral [clib_simps]:
  "le_bytes (numeral k) v = word_of_nat v # le_bytes (pred_numeral k) (v div 256)"
  by (subst numeral_eq_Suc) (rule le_bytes.simps(2))

lemma le_value_le_bytes: "le_value (le_bytes k v) = v mod 256 ^ k"
proof (induction k arbitrary: v)
  case 0
  then show ?case by simp
next
  case (Suc k)
  then show ?case by (simp add: unsigned_of_nat take_bit_eq_mod mod_mult2_eq)
qed

lemma length_bytes_of [simp]: "length (bytes_of_u32 w) = 4" "length (bytes_of_u64 d) = 8"
  by (simp_all add: bytes_of_u32_def bytes_of_u64_def)

lemma u32_roundtrip [byte_simps]: "u32_of_bytes (bytes_of_u32 w) = w"
  using unat_less_pow [of w] by (simp add: u32_of_bytes_def bytes_of_u32_def le_value_le_bytes)

lemma u64_roundtrip [byte_simps]: "u64_of_bytes (bytes_of_u64 w) = w"
  using unat_less_pow [of w] by (simp add: u64_of_bytes_def bytes_of_u64_def le_value_le_bytes)

lemma le_bytes_le_value: "le_bytes (length bs) (le_value bs) = bs"
proof (induction bs)
  case (Cons b bs)
  have "unat b < 256" using unat_less_pow [of b] by simp
  moreover have "(word_of_nat (unat b + 256 * le_value bs) :: byte) = b"
  proof -
    have "(256 :: byte) = 0" by simp
    then have "(256 :: byte) * word_of_nat (le_value bs) = 0" by (simp only: mult_zero_left)
    then show ?thesis by simp
  qed
  ultimately show ?case using Cons by simp
qed simp

end
