(* ===== verification/Plugin_State.thy ===== *)
theory Plugin_State
  imports C_Library
begin

text \<open>
  The globals of \<open>plugins/main.c\<close> as one record, the host services its functions call
  (time, \<open>popen\<close>, whether the log file opens) as the record \<open>host_env\<close>, and the two
  functions that set the plugin up: \<open>create_logfile\<close> and \<open>init_plugin\<close>.

  The linked list of traced files lives in an explicit heap: an address maps to a cell that is
  either allocated and not yet written, or holds a node. \<open>malloc\<close> returns the next unused
  address and, like \<open>fopen\<close> of the append-mode logs, is taken to succeed. The texts the plugin
  prints and the files it appends to are fields of the state.
\<close>

datatype 'a cell = Uninit | Init 'a

record nodes =
  data :: c_int
  fname :: string
  next_node :: "nat option"

type_synonym node_heap = "nat \<Rightarrow> nodes cell option"

record plugin_state =
  PDU_bytes :: c_int
  target_s_port :: c_int
  target_d_port :: c_int
  target_s_ip :: string
  target_d_ip :: string
  target_protocol_number :: c_int
  enable_print_packet :: bool
  enable_log :: bool
  enable_pcap_log :: bool
  enable_traceblk :: bool
  enable_print_blkio :: bool
  first_file :: bool
  file_count :: c_int
  sector_number :: u64
  target_file_name :: string
  list_head :: "nat option"
  heap :: node_heap
  heap_brk :: nat
  stdout :: string
  packet_log :: string
  pcap_file :: buffer
  io_log :: string

record host_env =
  popen_out :: "string \<Rightarrow> string option"
  asctime_now :: string
  tv_sec :: u64
  tv_usec :: u64
  plugin_log_opens :: bool

abbreviation nl :: string where
  "nl \<equiv> [CHR 0x0A]"

abbreviation crlf :: string where
  "crlf \<equiv> [CHR 0x0D, CHR 0x0A]"

definition NOT_SET :: string where
  "NOT_SET = ''NOT_SET''"

text \<open>The initial values of the globals (lines 14 to 33 and 44).\<close>

definition plugin_globals :: plugin_state where
  "plugin_globals = \<lparr>
     PDU_bytes = 128,
     target_s_port = - 1, target_d_port = - 1,
     target_s_ip = NOT_SET, target_d_ip = NOT_SET,
     target_protocol_number = - 1,
     enable_print_packet = False, enable_log = False, enable_pcap_log = False,
     enable_traceblk = False, enable_print_blkio = False,
     first_file = True, file_count = 0, sector_number = 0,
     target_file_name = NOT_SET,
     list_head = None, heap = (\<lambda>_. None), heap_brk = 0,
     stdout = [], packet_log = [], pcap_file = [], io_log = []\<rparr>"

definition print_out :: "string \<Rightarrow> plugin_state \<Rightarrow> plugin_state" where
  "print_out t s = s\<lparr>stdout := stdout s @ t\<rparr>"

definition malloc_node :: "plugin_state \<Rightarrow> nat \<times> plugin_state" where
  "malloc_node s =
     (heap_brk s, s\<lparr>heap := (heap s)(heap_brk s \<mapsto> Uninit), heap_brk := Suc (heap_brk s)\<rparr>)"

text \<open>The global header: three \<open>long\<close>s written as the host stores them.\<close>

definition create_logfile :: "plugin_state \<Rightarrow> plugin_state" where
  "create_logfile s =
     s\<lparr>pcap_file := bytes_of_u64 0x00040002a1b2c3d4 @ bytes_of_u64 0 @
                    bytes_of_u64 0x000000010000ffff\<rparr>"

text \<open>\<open>init_plugin\<close>: the interface it returns is fixed, so its result is whether it is
  non-null, with the new globals.\<close>

definition init_plugin :: "host_env \<Rightarrow> plugin_state \<Rightarrow> bool \<times> plugin_state" where
  "init_plugin env s =
     (if \<not> plugin_log_opens env then (False, s)
      else
        let s1 = create_logfile s
        in (case list_head s1 of
              None \<Rightarrow> (let (p, s2) = malloc_node s1 in (True, s2\<lparr>list_head := Some p\<rparr>))
            | Some _ \<Rightarrow> (True, s1)))"

end
