(* ===== verification/Plugin_Files.thy ===== *)
theory Plugin_Files
  imports Plugin_State
begin

text \<open>
  The traced files of \<open>plugins/main.c\<close>: looking a file's first sector up
  (\<open>get_sectornum\<close>), the linked list of files and sectors (\<open>saveFile\<close>,
  \<open>insertNode\<close>, \<open>print_lists\<close>, \<open>freeList\<close>), and the block I/O hook that
  logs the accesses to a traced sector (\<open>get_blockio\<close>, \<open>print_blockio\<close>).

  The loops follow pointers, so they are \<open>partial_function\<close>s into \<open>option\<close>:
  \<open>None\<close> is a loop that does not end or a read of a cell that holds no node. The second half
  relates the pointer structure to the list of \<open>(name, sector)\<close> pairs it stands for.
\<close>

subsection \<open>Operations\<close>

definition get_sectornum :: "host_env \<Rightarrow> string \<Rightarrow> plugin_state \<Rightarrow> plugin_state option" where
  "get_sectornum env filename s = do {
     out \<leftarrow> popen_out env (''bash ../../fname2sector_singl.sh '' @ filename);
     buf \<leftarrow> fgets_uninit 30 out;
     sector \<leftarrow>
       (if atoi buf = - 1000
        then do {
          out2 \<leftarrow> popen_out env (''../../fname2sector_res ../../../win7_test.img '' @ filename);
          buff \<leftarrow> fgets_uninit 30 out2;
          Some (atoi buff)
        }
        else Some (atoi buf));
     let sn = (scast sector :: u64);
     Some (print_out (''get sector num:'' @ dec (unat sn) @ nl) (s\<lparr>sector_number := sn\<rparr>))
   }"

definition io_direction :: "c_int \<Rightarrow> string" where
  "io_direction dir = (if dir = 1 then ''IO Write'' @ nl else if dir = 0 then ''IO Read'' @ nl else [])"

definition print_blockio ::
  "host_env \<Rightarrow> u64 \<Rightarrow> u64 \<Rightarrow> u64 \<Rightarrow> c_int \<Rightarrow> string \<Rightarrow> plugin_state \<Rightarrow> plugin_state" where
  "print_blockio env sector_num base len dir fn s =
     (let hd_text = nl @ ''[io time]'' @ asctime_now env @ nl @ ''filename: '' @ fn @ nl @
                    ''sector number: '' @ dec (unat sector_num) @ nl;
          tl_text = nl @ ''IO buffer: '' @ nl @ ''  base: '' @ dec (unat base) @ nl @
                    ''  length: '' @ dec (unat len) @ nl @ io_direction dir
      in s\<lparr>stdout := stdout s @ hd_text @ tl_text,
           io_log := io_log s @ hd_text @ ''Process: notepad.exe'' @ tl_text @
                     ''====================================='' @ nl\<rparr>)"

definition log_blkio ::
  "host_env \<Rightarrow> u64 \<Rightarrow> u64 \<Rightarrow> u64 \<Rightarrow> c_int \<Rightarrow> string \<Rightarrow> plugin_state \<Rightarrow> plugin_state" where
  "log_blkio env sector_num base len dir fn s = print_blockio env sector_num base len dir fn s"

partial_function (option) get_blockio_loop ::
  "host_env \<Rightarrow> u64 \<Rightarrow> u64 \<Rightarrow> u64 \<Rightarrow> c_int \<Rightarrow> nat option \<Rightarrow> plugin_state \<Rightarrow> plugin_state option" where
  "get_blockio_loop env sector_num base len dir tmp s =
     (case tmp of
        None \<Rightarrow> Some s
      | Some a \<Rightarrow>
          if sector_num = 0 then Some s
          else (case heap s a of
                  Some (Init n) \<Rightarrow>
                    get_blockio_loop env sector_num base len dir (next_node n)
                      (if sector_num = scast (data n)
                       then log_blkio env sector_num base len dir (fname n) s else s)
                | _ \<Rightarrow> None))"

definition get_blockio ::
  "host_env \<Rightarrow> u64 \<Rightarrow> u64 \<Rightarrow> u64 \<Rightarrow> c_int \<Rightarrow> plugin_state \<Rightarrow> plugin_state option" where
  "get_blockio env sector_num base len dir s =
     get_blockio_loop env sector_num base len dir (list_head s) s"

definition do_blk_write :: "host_env \<Rightarrow> u64 \<Rightarrow> u64 \<Rightarrow> u64 \<Rightarrow> plugin_state \<Rightarrow> plugin_state option" where
  "do_blk_write env sector_num base len s = get_blockio env sector_num base len 1 s"

definition do_blk_read :: "host_env \<Rightarrow> u64 \<Rightarrow> u64 \<Rightarrow> u64 \<Rightarrow> plugin_state \<Rightarrow> plugin_state option" where
  "do_blk_read env sector_num base len s = get_blockio env sector_num base len 0 s"

definition insertNode :: "nat \<Rightarrow> string \<Rightarrow> c_int \<Rightarrow> plugin_state \<Rightarrow> plugin_state option" where
  "insertNode node fn d s =
     (let (p, s1) = malloc_node s in
      do {
        fn' \<leftarrow> strcpy_into 50 fn;
        (case heap s1 node of
           Some (Init n) \<Rightarrow>
             Some (s1\<lparr>heap := (heap s1)(p \<mapsto> Init \<lparr>data = d, fname = fn', next_node = next_node n\<rparr>,
                                        node \<mapsto> Init (n\<lparr>next_node := Some p\<rparr>))\<rparr>)
         | _ \<Rightarrow> None)
      })"

partial_function (option) print_lists_loop :: "node_heap \<Rightarrow> nat option \<Rightarrow> string \<Rightarrow> string option" where
  "print_lists_loop h n out =
     (case n of
        None \<Rightarrow> Some out
      | Some a \<Rightarrow>
          (case h a of
             Some (Init x) \<Rightarrow>
               print_lists_loop h (next_node x)
                 (out @ fname x @ '': '' @ sdec (sint (data x)) @ nl)
           | _ \<Rightarrow> None))"

definition print_lists :: "plugin_state \<Rightarrow> plugin_state option" where
  "print_lists s = map_option (\<lambda>t. print_out t s) (print_lists_loop (heap s) (list_head s) [])"

partial_function (option) freeList :: "node_heap \<Rightarrow> nat option \<Rightarrow> node_heap option" where
  "freeList h head =
     (case head of
        None \<Rightarrow> Some h
      | Some a \<Rightarrow>
          (case h a of
             Some (Init x) \<Rightarrow> freeList (h(a := None)) (next_node x)
           | _ \<Rightarrow> None))"

definition saveFile :: "host_env \<Rightarrow> string \<Rightarrow> plugin_state \<Rightarrow> plugin_state option" where
  "saveFile env fn s0 = do {
     s \<leftarrow> get_sectornum env fn s0;
     let sector = (ucast (sector_number s) :: c_int);
     (if first_file s
      then (if sector \<noteq> 0
            then do {
              fn' \<leftarrow> strcpy_into 50 fn;
              p \<leftarrow> list_head s;
              Some (s\<lparr>heap := (heap s)(p \<mapsto> Init \<lparr>data = sector, fname = fn', next_node = None\<rparr>),
                      first_file := False\<rparr>)
            }
            else Some s)
      else do {
        p \<leftarrow> list_head s;
        s' \<leftarrow> insertNode p fn sector s;
        Some (s'\<lparr>file_count := file_count s' + 1\<rparr>)
      })
   }"

subsection \<open>What the linked list stands for\<close>

text \<open>
  \<open>list_rep h p as ts\<close>: following \<open>next\<close> from \<open>p\<close> visits the addresses
  \<open>as\<close> and ends at the null pointer, and the nodes there hold the pairs \<open>ts\<close>.
\<close>

fun list_rep :: "node_heap \<Rightarrow> nat option \<Rightarrow> nat list \<Rightarrow> (string \<times> c_int) list \<Rightarrow> bool" where
  "list_rep h p [] ts \<longleftrightarrow> p = None \<and> ts = []"
| "list_rep h p (a # as) ts \<longleftrightarrow>
     (\<exists>n ts'. p = Some a \<and> h a = Some (Init n) \<and> ts = (fname n, data n) # ts' \<and>
              list_rep h (next_node n) as ts')"

lemma list_rep_None [simp]: "list_rep h None as ts \<longleftrightarrow> as = [] \<and> ts = []"
  by (cases as) auto

lemma list_rep_unique:
  "list_rep h p as ts \<Longrightarrow> list_rep h p bs us \<Longrightarrow> as = bs \<and> ts = us"
proof (induction as arbitrary: p ts bs us)
  case Nil
  then show ?case by simp
next
  case (Cons a as)
  from Cons.prems show ?case by (cases bs) (auto dest: Cons.IH)
qed

lemma list_rep_suffix:
  "list_rep h p (xs @ a # ys) ts \<Longrightarrow> list_rep h (Some a) (a # ys) (drop (length xs) ts)"
  by (induction xs arbitrary: p ts) auto

text \<open>A list that ends never visits an address twice.\<close>

lemma list_rep_distinct: "list_rep h p as ts \<Longrightarrow> distinct as"
proof (induction as arbitrary: p ts)
  case Nil
  then show ?case by simp
next
  case (Cons a as)
  then have "distinct as" by auto
  moreover have "a \<notin> set as"
  proof
    assume "a \<in> set as"
    then obtain xs ys where as: "as = xs @ a # ys" by (meson split_list)
    have "p = Some a" using Cons.prems by auto
    with Cons.prems as have l1: "list_rep h (Some a) ((a # xs) @ a # ys) ts" by simp
    then obtain us where "list_rep h (Some a) (a # ys) us" using list_rep_suffix by blast
    with l1 have "(a # xs) @ a # ys = a # ys" using list_rep_unique by blast
    then show False by simp
  qed
  ultimately show ?case by simp
qed

lemma list_rep_frame:
  "list_rep h p as ts \<Longrightarrow> (\<And>a. a \<in> set as \<Longrightarrow> h' a = h a) \<Longrightarrow> list_rep h' p as ts"
  by (induction as arbitrary: p ts) auto

lemma list_rep_alloc:
  "list_rep h p as ts \<Longrightarrow> a \<in> set as \<Longrightarrow> h a \<noteq> None"
  by (induction as arbitrary: p ts) auto

text \<open>Inserting a node behind the head, as a fact on heaps.\<close>

lemma list_rep_insert:
  assumes rep: "list_rep h (Some a) (a # as) (t # ts)"
    and n: "h a = Some (Init n)"
    and fresh: "h q = None"
  shows "list_rep (h(q \<mapsto> Init \<lparr>data = d, fname = f, next_node = next_node n\<rparr>,
                     a \<mapsto> Init (n\<lparr>next_node := Some q\<rparr>)))
           (Some a) (a # q # as) (t # (f, d) # ts)"
proof -
  let ?h = "h(q \<mapsto> Init \<lparr>data = d, fname = f, next_node = next_node n\<rparr>,
              a \<mapsto> Init (n\<lparr>next_node := Some q\<rparr>))"
  have tail: "list_rep h (next_node n) as ts" using rep n by auto
  have "a \<notin> set as" using list_rep_distinct [OF rep] by simp
  moreover have "q \<notin> set as" using list_rep_alloc [OF tail] fresh by blast
  ultimately have "list_rep ?h (next_node n) as ts"
    using tail by (auto intro: list_rep_frame)
  moreover have "q \<noteq> a" using n fresh by auto
  ultimately show ?thesis using rep n by auto
qed

subsection \<open>The invariant of the file list\<close>

definition file_table :: "plugin_state \<Rightarrow> (string \<times> c_int) list \<Rightarrow> bool" where
  "file_table s ts \<longleftrightarrow> \<not> first_file s \<and> list_head s \<noteq> None \<and>
     (\<exists>as. list_rep (heap s) (list_head s) as ts)"

definition files_inv :: "plugin_state \<Rightarrow> bool" where
  "files_inv s \<longleftrightarrow>
     (\<forall>a. heap_brk s \<le> a \<longrightarrow> heap s a = None) \<and>
     (case list_head s of
        None \<Rightarrow> first_file s
      | Some p \<Rightarrow> if first_file s then heap s p = Some Uninit else \<exists>ts. file_table s ts)"

lemma file_table_nonempty: "file_table s ts \<Longrightarrow> ts \<noteq> []"
proof
  assume "file_table s ts" and "ts = []"
  then obtain as where "list_rep (heap s) (list_head s) as []" "list_head s \<noteq> None"
    by (auto simp: file_table_def)
  then show False by (cases as) auto
qed

lemma files_inv_globals [simp]: "files_inv plugin_globals"
  by (simp add: files_inv_def plugin_globals_def)

lemma file_table_frame:
  "heap s' = heap s \<Longrightarrow> list_head s' = list_head s \<Longrightarrow>
   first_file s' = first_file s \<Longrightarrow> file_table s' = file_table s"
  by (rule ext) (simp add: file_table_def)

lemma files_inv_frame:
  "heap s' = heap s \<Longrightarrow> heap_brk s' = heap_brk s \<Longrightarrow> list_head s' = list_head s \<Longrightarrow>
   first_file s' = first_file s \<Longrightarrow> files_inv s' = files_inv s"
  using file_table_frame [of s' s] by (simp add: files_inv_def split: option.split)

lemma print_out_frame [simp, frame_simps]:
  "heap (print_out t s) = heap s" "heap_brk (print_out t s) = heap_brk s"
  "list_head (print_out t s) = list_head s" "first_file (print_out t s) = first_file s"
  "pcap_file (print_out t s) = pcap_file s" "sector_number (print_out t s) = sector_number s"
  "PDU_bytes (print_out t s) = PDU_bytes s" "file_count (print_out t s) = file_count s"
  by (simp_all add: print_out_def)

lemma log_blkio_frame [simp, frame_simps]:
  "heap (log_blkio env sn b l d f s) = heap s" "heap_brk (log_blkio env sn b l d f s) = heap_brk s"
  "list_head (log_blkio env sn b l d f s) = list_head s"
  "first_file (log_blkio env sn b l d f s) = first_file s"
  "pcap_file (log_blkio env sn b l d f s) = pcap_file s"
  by (simp_all add: log_blkio_def print_blockio_def Let_def)

lemma get_sectornum_frame:
  "get_sectornum env f s = Some s' \<Longrightarrow>
   heap s' = heap s \<and> heap_brk s' = heap_brk s \<and> list_head s' = list_head s \<and>
   first_file s' = first_file s \<and> pcap_file s' = pcap_file s \<and> PDU_bytes s' = PDU_bytes s"
  by (auto simp: get_sectornum_def Let_def split: bind_splits if_splits)

subsection \<open>The operations against the list of files\<close>

text \<open>The reference behaviour of the block hook: one log entry per traced file whose sector is
  the accessed one, in list order.\<close>

definition log_matching ::
  "host_env \<Rightarrow> u64 \<Rightarrow> u64 \<Rightarrow> u64 \<Rightarrow> c_int \<Rightarrow> (string \<times> c_int) list \<Rightarrow> plugin_state \<Rightarrow> plugin_state" where
  "log_matching env sn b l dir ts s =
     fold (\<lambda>(f, d). log_blkio env sn b l dir f) (filter (\<lambda>(f, d). scast d = sn) ts) s"

lemma get_blockio_loop_rep:
  assumes "list_rep (heap s) p as ts" "sn \<noteq> 0"
  shows "get_blockio_loop env sn b l dir p s = Some (log_matching env sn b l dir ts s)"
  using assms
proof (induction as arbitrary: p ts s)
  case Nil
  then show ?case by (simp add: get_blockio_loop.simps log_matching_def)
next
  case (Cons a as)
  from Cons.prems obtain n ts' where
    n: "p = Some a" "heap s a = Some (Init n)" "ts = (fname n, data n) # ts'"
    and rest: "list_rep (heap s) (next_node n) as ts'" by auto
  let ?s = "if sn = scast (data n) then log_blkio env sn b l dir (fname n) s else s"
  have "list_rep (heap ?s) (next_node n) as ts'" using rest by simp
  then have "get_blockio_loop env sn b l dir (next_node n) ?s =
      Some (log_matching env sn b l dir ts' ?s)"
    using Cons.IH Cons.prems(2) by blast
  then show ?case using n Cons.prems(2)
    by (subst get_blockio_loop.simps) (auto simp: log_matching_def)
qed

lemma log_matching_frame [frame_simps]:
  "heap (log_matching env sn b l d ts s) = heap s"
  "heap_brk (log_matching env sn b l d ts s) = heap_brk s"
  "list_head (log_matching env sn b l d ts s) = list_head s"
  "first_file (log_matching env sn b l d ts s) = first_file s"
  "pcap_file (log_matching env sn b l d ts s) = pcap_file s"
  by (induction ts arbitrary: s) (auto simp: log_matching_def)

lemma get_blockio_table:
  assumes "file_table s ts"
  shows "get_blockio env sn b l dir s =
         Some (if sn = 0 then s else log_matching env sn b l dir ts s)"
proof -
  obtain as p where "list_rep (heap s) (list_head s) as ts" "list_head s = Some p"
    using assms by (auto simp: file_table_def)
  then show ?thesis
    by (auto simp: get_blockio_def get_blockio_loop_rep)
       (simp add: get_blockio_loop.simps)
qed

lemma get_blockio_Some_frame:
  assumes "get_blockio env sn b l dir s = Some s'" "files_inv s"
  shows "heap s' = heap s \<and> heap_brk s' = heap_brk s \<and> list_head s' = list_head s \<and>
         first_file s' = first_file s \<and> pcap_file s' = pcap_file s"
proof (cases "list_head s")
  case None
  with assms(1) show ?thesis by (simp add: get_blockio_def get_blockio_loop.simps)
next
  case (Some p)
  show ?thesis
  proof (cases "first_file s")
    case True
    with Some assms show ?thesis
      by (auto simp: get_blockio_def files_inv_def get_blockio_loop.simps split: if_splits)
  next
    case False
    with Some assms(2) obtain ts where "file_table s ts" by (auto simp: files_inv_def)
    with assms(1) show ?thesis
      by (auto simp: get_blockio_table log_matching_frame split: if_splits)
  qed
qed

lemma print_lists_loop_rep:
  "list_rep h p as ts \<Longrightarrow>
   print_lists_loop h p out = Some (out @ concat (map (\<lambda>(f, d). f @ '': '' @ sdec (sint d) @ nl) ts))"
proof (induction as arbitrary: p ts out)
  case Nil
  then show ?case by (simp add: print_lists_loop.simps)
next
  case (Cons a as)
  then show ?case by (subst print_lists_loop.simps) auto
qed

lemma freeList_rep:
  "list_rep h p as ts \<Longrightarrow> \<exists>h'. freeList h p = Some h' \<and> (\<forall>a \<in> set as. h' a = None) \<and>
     (\<forall>a. a \<notin> set as \<longrightarrow> h' a = h a)"
proof (induction as arbitrary: p ts h)
  case Nil
  then show ?case by (simp add: freeList.simps)
next
  case (Cons a as)
  from Cons.prems obtain n ts' where n: "p = Some a" "h a = Some (Init n)"
    and rest: "list_rep h (next_node n) as ts'" by auto
  have "a \<notin> set as" using list_rep_distinct [OF Cons.prems] by simp
  then have "list_rep (h(a := None)) (next_node n) as ts'"
    using rest by (auto intro: list_rep_frame)
  from Cons.IH [OF this] obtain h' where h': "freeList (h(a := None)) (next_node n) = Some h'"
    "\<forall>b \<in> set as. h' b = None" "\<forall>b. b \<notin> set as \<longrightarrow> h' b = (h(a := None)) b"
    by blast
  have "freeList h p = Some h'" using n h'(1) by (subst freeList.simps) simp
  moreover have "h' a = None" using h'(3) \<open>a \<notin> set as\<close> by simp
  ultimately show ?case using h'(2,3) by auto
qed

lemma insertNode_table:
  assumes inv: "files_inv s" and tab: "file_table s (t # ts)"
    and head: "list_head s = Some p" and len: "length f < 50"
  shows "\<exists>s'. insertNode p f d s = Some s' \<and> file_table s' (t # (f, d) # ts) \<and> files_inv s' \<and>
     pcap_file s' = pcap_file s \<and> PDU_bytes s' = PDU_bytes s"
proof -
  obtain as where rep: "list_rep (heap s) (Some p) as (t # ts)"
    using tab head by (auto simp: file_table_def)
  then obtain as' where as: "as = p # as'" by (cases as) auto
  with rep obtain n where n: "heap s p = Some (Init n)" by auto
  have fresh: "heap s (heap_brk s) = None" using inv by (simp add: files_inv_def)
  then have neq: "heap_brk s \<noteq> p" using n by auto
  let ?q = "heap_brk s"
  let ?h = "(heap s)(?q \<mapsto> Init \<lparr>data = d, fname = f, next_node = next_node n\<rparr>,
                     p \<mapsto> Init (n\<lparr>next_node := Some ?q\<rparr>))"
  let ?s = "s\<lparr>heap := ?h, heap_brk := Suc ?q\<rparr>"
  have ins: "insertNode p f d s = Some ?s"
    using n neq len by (simp add: insertNode_def malloc_node_def strcpy_into_def Let_def)
  have "list_rep ?h (Some p) (p # ?q # as') (t # (f, d) # ts)"
    using list_rep_insert [of "heap s" p as' t ts n ?q d f] rep as n fresh by simp
  then have tab': "file_table ?s (t # (f, d) # ts)"
    using tab head by (auto simp: file_table_def simp del: list_rep.simps)
  have "p < ?q" using inv n by (auto simp: files_inv_def not_le [symmetric])
  moreover have "\<not> first_file s" using tab by (simp add: file_table_def)
  ultimately have "files_inv ?s"
    using inv tab' head by (auto simp: files_inv_def)
  with ins tab' show ?thesis by auto
qed

text \<open>
  What \<open>saveFile\<close> promises: with the first file not yet saved, a sector other than 0 makes
  the one-element table and sector 0 leaves it unset; afterwards every file, found or not, goes
  behind the head.
\<close>

definition save_spec :: "string \<Rightarrow> c_int \<Rightarrow> (string \<times> c_int) list option \<Rightarrow> (string \<times> c_int) list option" where
  "save_spec f sector tab =
     (case tab of
        None \<Rightarrow> if sector \<noteq> 0 then Some [(f, sector)] else None
      | Some ts \<Rightarrow> Some (hd ts # (f, sector) # tl ts))"

text \<open>The table a state stands for: unset before the first file, a list of pairs after it.\<close>

definition table_of :: "plugin_state \<Rightarrow> (string \<times> c_int) list option \<Rightarrow> bool" where
  "table_of s tab \<longleftrightarrow> (case tab of None \<Rightarrow> first_file s | Some ts \<Rightarrow> file_table s ts)"

lemma get_sectornum_sector:
  "get_sectornum env f s = Some s' \<Longrightarrow> (scast (ucast (sector_number s') :: c_int) :: u64) = sector_number s'"
  by (auto simp: get_sectornum_def Let_def split: bind_splits if_splits)

lemma saveFile_refines:
  assumes inv: "files_inv s" and head: "list_head s \<noteq> None" and tab: "table_of s tab"
    and look: "get_sectornum env f s = Some s1" and len: "length f < 50"
  shows "\<exists>s'. saveFile env f s = Some s' \<and> files_inv s' \<and> list_head s' = list_head s \<and>
     table_of s' (save_spec f (ucast (sector_number s1)) tab)"
proof -
  note fr = get_sectornum_frame [OF look]
  obtain p where p: "list_head s = Some p" using head by auto
  have inv1: "files_inv s1" using files_inv_frame [of s1 s] fr inv by simp
  show ?thesis
  proof (cases "first_file s")
    case True
    then have cell: "heap s1 p = Some Uninit" and tabN: "tab = None"
      using inv p tab fr by (auto simp: files_inv_def table_of_def file_table_def split: option.splits)
    let ?sec = "ucast (sector_number s1) :: c_int"
    let ?s = "s1\<lparr>heap := (heap s1)(p \<mapsto> Init \<lparr>data = ?sec, fname = f, next_node = None\<rparr>), first_file := False\<rparr>"
    have "list_rep (heap ?s) (Some p) [p] [(f, ?sec)]" by simp
    then have ft: "file_table ?s [(f, ?sec)]"
      using p fr by (auto simp: file_table_def simp del: list_rep.simps)
    then have "files_inv ?s"
      using inv1 cell p fr by (auto simp: files_inv_def)
    with ft show ?thesis using True tabN p fr inv1 look len
      by (auto simp: saveFile_def Let_def save_spec_def table_of_def strcpy_into_def)
  next
    case False
    then obtain ts where ts: "tab = Some ts" "file_table s ts"
      using tab by (auto simp: table_of_def split: option.splits)
    then obtain t ts' where t: "ts = t # ts'" using file_table_nonempty by (cases ts) auto
    have "file_table s1 (t # ts')" using ts t file_table_frame [of s1 s] fr by simp
    from insertNode_table [OF inv1 this _ len, of p "ucast (sector_number s1)"] p fr
    obtain s2 where s2: "insertNode p f (ucast (sector_number s1)) s1 = Some s2"
      "file_table s2 (t # (f, ucast (sector_number s1)) # ts')" "files_inv s2" by auto
    have lh: "list_head s2 = list_head s1"
      using s2(1) by (auto simp: insertNode_def malloc_node_def Let_def split: bind_splits option.splits cell.splits)
    let ?s = "s2\<lparr>file_count := file_count s2 + 1\<rparr>"
    have "file_table ?s = file_table s2" "files_inv ?s = files_inv s2"
      by (rule file_table_frame files_inv_frame; simp)+
    with s2 show ?thesis using False p fr look lh ts t
      by (auto simp: saveFile_def Let_def save_spec_def table_of_def)
  qed
qed

lemma saveFile_len: "saveFile env f s = Some s' \<Longrightarrow> files_inv s \<Longrightarrow> first_file s' \<or> length f < 50"
  by (auto simp: saveFile_def insertNode_def malloc_node_def strcpy_into_def Let_def
      split: bind_splits if_splits)

lemma init_plugin_files:
  assumes "init_plugin env s = (True, s')" "files_inv s"
  shows "files_inv s' \<and> list_head s' \<noteq> None"
proof (cases "list_head s")
  case None
  with assms show ?thesis
    by (auto simp: init_plugin_def create_logfile_def malloc_node_def Let_def files_inv_def
        split: if_splits)
next
  case (Some p)
  with assms have "s' = create_logfile s"
    by (auto simp: init_plugin_def create_logfile_def Let_def split: if_splits)
  then show ?thesis using Some assms(2) files_inv_frame [of s' s] by (simp add: create_logfile_def)
qed

end
