(* ===== verification/Plugin_Packets.thy ===== *)
theory Plugin_Packets
  imports Plugin_Files
begin

text \<open>
  The network side of \<open>plugins/main.c\<close>: the packet filter \<open>get_packet\<close> and the three
  sinks behind it (\<open>print_packet\<close>, \<open>log_packet_readable\<close>, \<open>log_packet_pcap\<close>).
  A packet is the object the hook's pointer refers to, a byte list, with the \<open>size\<close> the caller
  passes; reading past the object is \<open>None\<close>.

  The second half gives the filter its meaning on header fields (dotted decimal text is injective,
  so comparing texts compares addresses) and shows that the capture file always parses back to the
  records that were logged.
\<close>

subsection \<open>Operations\<close>

definition dotted :: "byte \<Rightarrow> byte \<Rightarrow> byte \<Rightarrow> byte \<Rightarrow> string" where
  "dotted a b c d = dec (unat a) @ CHR ''.'' # dec (unat b) @ CHR ''.'' # dec (unat c) @ CHR ''.'' # dec (unat d)"

definition ip_at :: "buffer \<Rightarrow> nat \<Rightarrow> string option" where
  "ip_at buf i = do {
     a \<leftarrow> rd buf i; b \<leftarrow> rd buf (i + 1); c \<leftarrow> rd buf (i + 2); d \<leftarrow> rd buf (i + 3);
     Some (dotted a b c d)
   }"

text \<open>\<open>256 * ( *(buf + i)) + *(buf + i + 1)\<close> in \<open>int\<close>.\<close>

definition port_at :: "buffer \<Rightarrow> nat \<Rightarrow> c_int option" where
  "port_at buf i = do { h \<leftarrow> rd buf i; l \<leftarrow> rd buf (i + 1); Some (256 * ucast h + ucast l) }"

definition address_lines :: "buffer \<Rightarrow> string option" where
  "address_lines buf = do {
     sip \<leftarrow> ip_at buf 26; sp \<leftarrow> port_at buf 34; dip \<leftarrow> ip_at buf 30; dp \<leftarrow> port_at buf 36;
     Some (''Source IP:'' @ sip @ nl @ ''Source Port:'' @ sdec (sint sp) @ nl @
           ''Destination IP:'' @ dip @ nl @ ''Destination Port:'' @ sdec (sint dp) @ nl)
   }"

text \<open>The loop over \<open>int i < size\<close>: \<open>i\<close> overflows when \<open>size\<close> exceeds \<open>INT_MAX\<close>.\<close>

definition payload_bytes :: "buffer \<Rightarrow> u64 \<Rightarrow> buffer option" where
  "payload_bytes buf sz = (if unat sz < 2 ^ 31 then rd_block buf 0 (unat sz) else None)"

definition hex_pairs :: "buffer \<Rightarrow> string" where
  "hex_pairs bs =
     concat (map (\<lambda>(i, b). (if i mod 2 = 0 then '' '' else []) @ hex2 b) (List.enumerate 0 bs))"

definition log_packet_pcap :: "host_env \<Rightarrow> buffer \<Rightarrow> u64 \<Rightarrow> plugin_state \<Rightarrow> plugin_state option" where
  "log_packet_pcap env buf sz s =
     (let (Caplen, len) =
            (if sz \<le> scast (PDU_bytes s) then (ucast sz, ucast sz)
             else (PDU_bytes s, ucast sz)) :: c_int \<times> c_int
      in do {
        content \<leftarrow> rd_block buf 0 (nat (sint Caplen));
        Some (s\<lparr>pcap_file := pcap_file s @ bytes_of_u32 (ucast (tv_sec env)) @
                 bytes_of_u32 (ucast (tv_usec env)) @ bytes_of_u32 Caplen @ bytes_of_u32 len @
                 content\<rparr>)
      })"

definition log_packet_readable :: "host_env \<Rightarrow> buffer \<Rightarrow> u64 \<Rightarrow> plugin_state \<Rightarrow> plugin_state option" where
  "log_packet_readable env buf sz s = do {
     addr \<leftarrow> address_lines buf;
     proto \<leftarrow> rd buf 23;
     pdu \<leftarrow> payload_bytes buf sz;
     Some (s\<lparr>packet_log := packet_log s @ ''[packet received]'' @ asctime_now env @ nl @ addr @
       (if proto = 6 then ''Protocol: 6(tcp)'' @ nl
        else if proto = 17 then ''Protocol: 17(udp)'' @ nl
        else if proto = 1 then ''Protocol: 128(icmp)'' @ nl
        else ''Protocol number:'' @ dec (unat proto) @ nl) @
       ''pdu: '' @ hex_pairs pdu @ ''     -end'' @ crlf @
       ''---------------------------------------'' @ crlf\<rparr>)
   }"

definition print_packet :: "host_env \<Rightarrow> buffer \<Rightarrow> u64 \<Rightarrow> plugin_state \<Rightarrow> plugin_state option" where
  "print_packet env buf sz s = do {
     addr \<leftarrow> address_lines buf;
     proto \<leftarrow> rd buf 23;
     pdu \<leftarrow> payload_bytes buf sz;
     Some (print_out (''[packet received]'' @ asctime_now env @ nl @ addr @
       (if proto = 6 then ''Protocol: tcp'' @ nl
        else if proto = 17 then ''Protocol: udp'' @ nl
        else if proto = 1 then ''Protocol: icmp'' @ nl
        else ''Protocol number:'' @ dec (unat proto) @ nl) @
       ''pdu: '' @ concat (map (\<lambda>b. hex2 b @ '' '') pdu) @
       nl @ ''---------------------------------------'' @ nl) s)
   }"

definition get_logged :: "host_env \<Rightarrow> buffer \<Rightarrow> u64 \<Rightarrow> plugin_state \<Rightarrow> plugin_state option" where
  "get_logged env buf sz s = do {
     s1 \<leftarrow> (if enable_print_packet s then print_packet env buf sz s else Some s);
     s2 \<leftarrow> (if enable_log s1 then log_packet_readable env buf sz s1 else Some s1);
     (if enable_pcap_log s2 then log_packet_pcap env buf sz s2 else Some s2)
   }"

definition get_packet :: "host_env \<Rightarrow> buffer \<Rightarrow> u64 \<Rightarrow> c_int \<Rightarrow> plugin_state \<Rightarrow> plugin_state option" where
  "get_packet env buf sz mode s =
     (if \<not> enable_print_packet s \<and> \<not> enable_log s \<and> \<not> enable_pcap_log s then Some s
      else do {
        s_port \<leftarrow> port_at buf 34;
        d_port \<leftarrow> port_at buf 36;
        s_ip \<leftarrow> ip_at buf 26;
        d_ip \<leftarrow> ip_at buf 30;
        protocol \<leftarrow> rd buf 23;
        let protocol_number = (ucast protocol :: c_int);
        (if ((target_s_port s \<noteq> - 1 \<and> target_s_port s \<noteq> s_port) \<or>
             (target_d_port s \<noteq> - 1 \<and> target_d_port s \<noteq> d_port)) \<or>
            ((target_s_ip s \<noteq> NOT_SET \<and> target_s_ip s \<noteq> s_ip) \<or>
             (target_d_ip s \<noteq> NOT_SET \<and> target_d_ip s \<noteq> d_ip)) \<or>
            (target_protocol_number s \<noteq> - 1 \<and> protocol_number \<noteq> target_protocol_number s)
         then Some s
         else get_logged env buf sz s)
      })"

definition do_nic_receive :: "host_env \<Rightarrow> buffer \<Rightarrow> u64 \<Rightarrow> plugin_state \<Rightarrow> plugin_state option" where
  "do_nic_receive env buf sz s = get_packet env buf sz 0 s"

definition do_nic_send :: "host_env \<Rightarrow> buffer \<Rightarrow> u64 \<Rightarrow> plugin_state \<Rightarrow> plugin_state option" where
  "do_nic_send env buf sz s = get_packet env buf sz 1 s"

subsection \<open>The header fields the filter compares\<close>

lemma dotted_inj: "dotted a b c d = dotted a' b' c' d' \<longleftrightarrow> a = a' \<and> b = b' \<and> c = c' \<and> d = d'"
proof -
  have "CHR ''.'' \<notin> set (dec n)" for n by (simp add: not_digit_notin_dec is_digit_def)
  then show ?thesis by (simp add: dotted_def append_sep_inj word_unat_eq_iff)
qed

lemma dotted_not_NOT_SET [simp]: "dotted a b c d \<noteq> NOT_SET" "NOT_SET \<noteq> dotted a b c d"
proof -
  obtain x xs where x: "dec (unat a) = x # xs" "is_digit x" by (rule dec_hd)
  have "hd (dotted a b c d) = x" by (simp add: dotted_def x(1))
  moreover have "\<not> is_digit (hd NOT_SET)" by (simp add: NOT_SET_def is_digit_def)
  ultimately show "dotted a b c d \<noteq> NOT_SET" "NOT_SET \<noteq> dotted a b c d" using x(2) by auto
qed

record header =
  src_ip :: "byte \<times> byte \<times> byte \<times> byte"
  dst_ip :: "byte \<times> byte \<times> byte \<times> byte"
  src_port :: u16
  dst_port :: u16
  proto :: byte

definition quad :: "buffer \<Rightarrow> nat \<Rightarrow> byte \<times> byte \<times> byte \<times> byte" where
  "quad buf i = (buf ! i, buf ! (i + 1), buf ! (i + 2), buf ! (i + 3))"

definition be16 :: "buffer \<Rightarrow> nat \<Rightarrow> u16" where
  "be16 buf i = push_bit 8 (ucast (buf ! i)) OR ucast (buf ! (i + 1))"

definition header_of :: "buffer \<Rightarrow> header" where
  "header_of buf = \<lparr>src_ip = quad buf 26, dst_ip = quad buf 30, src_port = be16 buf 34,
     dst_port = be16 buf 36, proto = buf ! 23\<rparr>"

text \<open>A filter: each field is unset or the value a packet must have.\<close>

record filter_spec =
  want_sport :: "u16 option"
  want_dport :: "u16 option"
  want_sip :: "(byte \<times> byte \<times> byte \<times> byte) option"
  want_dip :: "(byte \<times> byte \<times> byte \<times> byte) option"
  want_proto :: "byte option"

definition wants :: "'a option \<Rightarrow> 'a \<Rightarrow> bool" where
  "wants w v \<longleftrightarrow> (case w of None \<Rightarrow> True | Some x \<Rightarrow> x = v)"

definition accepts :: "filter_spec \<Rightarrow> header \<Rightarrow> bool" where
  "accepts f h \<longleftrightarrow> wants (want_sport f) (src_port h) \<and> wants (want_dport f) (dst_port h) \<and>
     wants (want_sip f) (src_ip h) \<and> wants (want_dip f) (dst_ip h) \<and> wants (want_proto f) (proto h)"

definition port_repr :: "u16 option \<Rightarrow> c_int" where
  "port_repr w = (case w of None \<Rightarrow> - 1 | Some p \<Rightarrow> ucast p)"

definition proto_repr :: "byte option \<Rightarrow> c_int" where
  "proto_repr w = (case w of None \<Rightarrow> - 1 | Some p \<Rightarrow> ucast p)"

definition ip_repr :: "(byte \<times> byte \<times> byte \<times> byte) option \<Rightarrow> string" where
  "ip_repr w = (case w of None \<Rightarrow> NOT_SET | Some (a, b, c, d) \<Rightarrow> dotted a b c d)"

text \<open>The globals hold the filter.\<close>

definition filter_rel :: "plugin_state \<Rightarrow> filter_spec \<Rightarrow> bool" where
  "filter_rel s f \<longleftrightarrow>
     target_s_port s = port_repr (want_sport f) \<and> target_d_port s = port_repr (want_dport f) \<and>
     target_s_ip s = ip_repr (want_sip f) \<and> target_d_ip s = ip_repr (want_dip f) \<and>
     target_protocol_number s = proto_repr (want_proto f)"

lemma port_word:
  fixes h l :: byte
  shows "(256 * ucast h + ucast l :: c_int) = ucast (push_bit 8 (ucast h) OR ucast l :: u16)"
proof (rule bit_word_eqI)
  have dis: "(push_bit 8 (ucast h :: c_int)) AND ucast l = 0"
    by (rule bit_word_eqI) (auto simp: bit_simps dest!: bit_imp_le_length)
  have "(256 :: c_int) * ucast h = push_bit 8 (ucast h)" by (simp add: push_bit_eq_mult)
  then have eq: "(256 * ucast h + ucast l :: c_int) = push_bit 8 (ucast h) OR ucast l"
    using dis by (simp add: disjunctive_add_eq_or)
  fix n assume "n < LENGTH(32)"
  show "bit (256 * ucast h + ucast l :: c_int) n = bit (ucast (push_bit 8 (ucast h) OR ucast l :: u16) :: c_int) n"
    unfolding eq by (auto simp: bit_simps dest: bit_imp_le_length)
qed

lemma port_at_be16: "i + 1 < length buf \<Longrightarrow> port_at buf i = Some (ucast (be16 buf i))"
  by (simp add: port_at_def be16_def port_word)

lemma ip_at_quad:
  "i + 3 < length buf \<Longrightarrow>
   ip_at buf i = Some (case quad buf i of (a, b, c, d) \<Rightarrow> dotted a b c d)"
  by (simp add: ip_at_def quad_def)

lemma ucast_neq_minus_one: "(ucast (p :: u16) :: c_int) \<noteq> - 1" "(ucast (q :: byte) :: c_int) \<noteq> - 1"
proof -
  have "bit (- 1 :: c_int) 20" by simp
  moreover have "\<not> bit (ucast p :: c_int) 20" "\<not> bit (ucast q :: c_int) 20"
    by (auto simp: bit_simps dest: bit_imp_le_length)
  ultimately show "(ucast p :: c_int) \<noteq> - 1" "(ucast q :: c_int) \<noteq> - 1" by metis+
qed

lemma wants_port: "port_repr w = - 1 \<or> port_repr w = ucast v \<longleftrightarrow> wants w v"
  by (auto simp: port_repr_def wants_def ucast_neq_minus_one ucast_up_inj split: option.split)

lemma wants_proto: "proto_repr w = - 1 \<or> ucast v = proto_repr w \<longleftrightarrow> wants w v"
  by (auto simp: proto_repr_def wants_def ucast_neq_minus_one ucast_up_inj split: option.split)

lemma wants_ip:
  "ip_repr w = NOT_SET \<or> ip_repr w = (case v of (a, b, c, d) \<Rightarrow> dotted a b c d) \<longleftrightarrow> wants w v"
  by (auto simp: ip_repr_def wants_def dotted_inj split: option.split prod.split)

text \<open>The filter of the code decides exactly \<open>accepts\<close>.\<close>

lemma get_packet_accepts:
  assumes "filter_rel s f" "38 \<le> length buf"
  shows "get_packet env buf sz mode s =
     (if (enable_print_packet s \<or> enable_log s \<or> enable_pcap_log s) \<and> accepts f (header_of buf)
      then get_logged env buf sz s else Some s)"
proof -
  have "port_at buf 34 = Some (ucast (be16 buf 34))" "port_at buf 36 = Some (ucast (be16 buf 36))"
    "ip_at buf 26 = Some (case quad buf 26 of (a, b, c, d) \<Rightarrow> dotted a b c d)"
    "ip_at buf 30 = Some (case quad buf 30 of (a, b, c, d) \<Rightarrow> dotted a b c d)"
    "rd buf 23 = Some (buf ! 23)"
    using assms(2) by (simp_all add: port_at_be16 ip_at_quad)
  moreover have "accepts f (header_of buf) \<longleftrightarrow>
     (target_s_port s = - 1 \<or> target_s_port s = ucast (be16 buf 34)) \<and>
     (target_d_port s = - 1 \<or> target_d_port s = ucast (be16 buf 36)) \<and>
     (target_s_ip s = NOT_SET \<or> target_s_ip s = (case quad buf 26 of (a, b, c, d) \<Rightarrow> dotted a b c d)) \<and>
     (target_d_ip s = NOT_SET \<or> target_d_ip s = (case quad buf 30 of (a, b, c, d) \<Rightarrow> dotted a b c d)) \<and>
     (target_protocol_number s = - 1 \<or> ucast (buf ! 23) = target_protocol_number s)"
    using assms(1) by (simp add: filter_rel_def accepts_def header_of_def wants_port wants_proto wants_ip)
  ultimately show ?thesis by (simp add: get_packet_def)
qed

subsection \<open>The capture file\<close>

text \<open>The reader's view of the file \<open>packet_log.pcap\<close>: a 24 byte global header, then records
  of a 16 byte header and \<open>incl_len\<close> bytes.\<close>

record pcap_rec =
  ts_sec :: u32
  ts_usec :: u32
  incl_len :: u32
  orig_len :: u32
  payload :: buffer

definition pcap_magic :: buffer where
  "pcap_magic = [0xd4, 0xc3, 0xb2, 0xa1, 2, 0, 4, 0, 0, 0, 0, 0, 0, 0, 0, 0, 0xff, 0xff, 0, 0, 1, 0, 0, 0]"

definition pcap_encode :: "pcap_rec \<Rightarrow> buffer" where
  "pcap_encode r = bytes_of_u32 (ts_sec r) @ bytes_of_u32 (ts_usec r) @ bytes_of_u32 (incl_len r) @
     bytes_of_u32 (orig_len r) @ payload r"

definition pcap_rec_ok :: "pcap_rec \<Rightarrow> bool" where
  "pcap_rec_ok r \<longleftrightarrow> unat (incl_len r) = length (payload r)"

fun parse_records :: "buffer \<Rightarrow> pcap_rec list option" where
  "parse_records bs =
     (if bs = [] then Some []
      else if length bs < 16 then None
      else let n = unat (u32_of_bytes (take 4 (drop 8 bs)))
           in if length bs < 16 + n then None
              else map_option
                ((#) \<lparr>ts_sec = u32_of_bytes (take 4 bs), ts_usec = u32_of_bytes (take 4 (drop 4 bs)),
                      incl_len = u32_of_bytes (take 4 (drop 8 bs)),
                      orig_len = u32_of_bytes (take 4 (drop 12 bs)), payload = take n (drop 16 bs)\<rparr>)
                (parse_records (drop (16 + n) bs)))"

declare parse_records.simps [simp del]

definition parse_pcap :: "buffer \<Rightarrow> pcap_rec list option" where
  "parse_pcap file = (if take 24 file = pcap_magic then parse_records (drop 24 file) else None)"

lemma parse_records_Nil [simp]: "parse_records [] = Some []"
  by (simp add: parse_records.simps)

lemma pcap_rec_eta:
  "\<lparr>ts_sec = ts_sec r, ts_usec = ts_usec r, incl_len = incl_len r, orig_len = orig_len r,
    payload = payload r\<rparr> = (r :: pcap_rec)"
  by simp

lemma parse_records_encode:
  assumes "pcap_rec_ok r"
  shows "parse_records (pcap_encode r @ bs) = map_option ((#) r) (parse_records bs)"
proof -
  let ?xs = "pcap_encode r @ bs"
  have l: "length (pcap_encode r) = 16 + length (payload r)" by (simp add: pcap_encode_def)
  have t: "take 4 ?xs = bytes_of_u32 (ts_sec r)" "take 4 (drop 4 ?xs) = bytes_of_u32 (ts_usec r)"
    "take 4 (drop 8 ?xs) = bytes_of_u32 (incl_len r)" "take 4 (drop 12 ?xs) = bytes_of_u32 (orig_len r)"
    "take (length (payload r)) (drop 16 ?xs) = payload r"
    "drop (16 + length (payload r)) ?xs = bs"
    by (simp_all add: pcap_encode_def)
  have "?xs \<noteq> []" "\<not> length ?xs < 16" using l by auto
  then show ?thesis
    using assms l t unfolding pcap_rec_ok_def
    by (subst parse_records.simps) (simp add: u32_roundtrip Let_def pcap_rec_eta)
qed

lemma parse_records_append:
  "parse_records xs = Some rs \<Longrightarrow> parse_records (xs @ ys) = map_option ((@) rs) (parse_records ys)"
proof (induction xs arbitrary: rs rule: parse_records.induct)
  case (1 xs)
  show ?case
  proof (cases "xs = []")
    case True
    with 1(2) have "rs = []" by simp
    with True show ?thesis by (cases "parse_records ys") simp_all
  next
    case False
    define n where "n = unat (u32_of_bytes (take 4 (drop 8 xs)))"
    have len: "16 + n \<le> length xs"
      using 1(2) False by (subst (asm) parse_records.simps) (auto simp: Let_def n_def split: if_splits)
    then obtain rs' where rs': "parse_records (drop (16 + n) xs) = Some rs'"
      and rs: "rs = \<lparr>ts_sec = u32_of_bytes (take 4 xs), ts_usec = u32_of_bytes (take 4 (drop 4 xs)),
                      incl_len = u32_of_bytes (take 4 (drop 8 xs)),
                      orig_len = u32_of_bytes (take 4 (drop 12 xs)), payload = take n (drop 16 xs)\<rparr> # rs'"
      using 1(2) False by (subst (asm) parse_records.simps) (auto simp: Let_def n_def split: if_splits)
    have IH: "parse_records (drop (16 + n) xs @ ys) = map_option ((@) rs') (parse_records ys)"
      using 1(1) False len rs' by (simp add: n_def)
    have pre: "take 4 (xs @ ys) = take 4 xs" "take 4 (drop 4 (xs @ ys)) = take 4 (drop 4 xs)"
      "take 4 (drop 8 (xs @ ys)) = take 4 (drop 8 xs)" "take 4 (drop 12 (xs @ ys)) = take 4 (drop 12 xs)"
      "take n (drop 16 (xs @ ys)) = take n (drop 16 xs)" "drop (16 + n) (xs @ ys) = drop (16 + n) xs @ ys"
      using len by simp_all
    show ?thesis
      using IH False len rs
      by (cases "parse_records ys"; subst parse_records.simps)
         (simp_all add: pre Let_def n_def [symmetric] option.map_comp comp_def del: take_append drop_append)
  qed
qed

lemma parse_pcap_append:
  assumes "parse_pcap file = Some rs" "pcap_rec_ok r"
  shows "parse_pcap (file @ pcap_encode r) = Some (rs @ [r])"
proof -
  have t: "take 24 file = pcap_magic" and p: "parse_records (drop 24 file) = Some rs"
    using assms(1) by (auto simp: parse_pcap_def split: if_splits)
  have "length (take 24 file) = 24" unfolding t by (simp add: pcap_magic_def)
  then have "24 \<le> length file" by simp
  moreover have "parse_records (drop 24 file @ pcap_encode r) = Some (rs @ [r])"
    using parse_records_append [OF p] parse_records_encode [OF assms(2), of "[]"] by simp
  ultimately show ?thesis using t by (simp add: parse_pcap_def)
qed

lemma create_logfile_pcap: "parse_pcap (pcap_file (create_logfile s)) = Some []"
  by (simp add: create_logfile_def parse_pcap_def pcap_magic_def bytes_of_u64_def le_bytes_numeral)

text \<open>The record one packet makes: all of it, or its first \<open>PDU_bytes\<close> bytes.\<close>

definition snap_len :: "c_int \<Rightarrow> nat \<Rightarrow> nat" where
  "snap_len pdu n = (if 0 \<le>s pdu then min n (unat pdu) else n)"

definition capture_rec :: "host_env \<Rightarrow> c_int \<Rightarrow> buffer \<Rightarrow> nat \<Rightarrow> pcap_rec" where
  "capture_rec env pdu buf n =
     \<lparr>ts_sec = ucast (tv_sec env), ts_usec = ucast (tv_usec env),
      incl_len = word_of_nat (snap_len pdu n), orig_len = word_of_nat n,
      payload = take (snap_len pdu n) buf\<rparr>"

lemma unat_ucast_small:
  assumes "unat (w :: u64) < 2 ^ 31"
  shows "unat (ucast w :: c_int) = unat w" "sint (ucast w :: c_int) = int (unat w)"
proof -
  show u: "unat (ucast w :: c_int) = unat w"
    using assms by (simp add: unsigned_ucast_eq take_bit_nat_eq_self)
  then show "sint (ucast w :: c_int) = int (unat w)"
    using assms by (simp add: sint_small)
qed

lemma scast_nonneg:
  assumes "0 \<le>s (p :: c_int)"
  shows "unat (scast p :: u64) = unat p"
proof -
  have "sint p = int (unat p)" using sle_zero_unat [OF assms] by (simp add: sint_small)
  then have "(scast p :: u64) = word_of_nat (unat p)" by (simp add: scast_eq)
  moreover have "unat p < 2 ^ 64" using unat_less_pow [of p] by simp
  ultimately show ?thesis by (simp add: unsigned_ucast_eq take_bit_nat_eq_self)
qed

lemma scast_neg_large:
  assumes "\<not> 0 \<le>s (p :: c_int)"
  shows "2 ^ 31 \<le> unat (scast p :: u64)"
proof -
  have "sint p < 0" using assms by (simp add: word_sle_eq)
  then have "bit p 31" using bit_last_iff [of p] by simp
  then have "bit (scast p :: u64) 31" by (simp add: bit_signed_iff)
  then show ?thesis by (rule bit_unat_ge)
qed

lemma log_packet_pcap_rec:
  assumes "unat sz < 2 ^ 31" "unat sz \<le> length buf"
  shows "log_packet_pcap env buf sz s =
     Some (s\<lparr>pcap_file := pcap_file s @ pcap_encode (capture_rec env (PDU_bytes s) buf (unat sz))\<rparr>)"
    and "pcap_rec_ok (capture_rec env (PDU_bytes s) buf (unat sz))"
proof -
  let ?p = "PDU_bytes s"
  have w: "word_of_nat (unat sz) = (ucast sz :: u32)" by simp
  have p: "0 \<le>s ?p \<Longrightarrow> nat (sint ?p) = unat ?p"
    using sle_zero_unat [of ?p] by (simp add: sint_small)
  have le: "sz \<le> scast ?p \<longleftrightarrow> snap_len ?p (unat sz) = unat sz"
    using assms(1) scast_nonneg [of ?p] scast_neg_large [of ?p]
    by (auto simp: snap_len_def word_le_nat_alt)
  show "log_packet_pcap env buf sz s =
     Some (s\<lparr>pcap_file := pcap_file s @ pcap_encode (capture_rec env ?p buf (unat sz))\<rparr>)"
  proof (cases "sz \<le> scast ?p")
    case True
    then show ?thesis using le assms w
      by (simp add: log_packet_pcap_def unat_ucast_small rd_block_def capture_rec_def pcap_encode_def)
  next
    case False
    then have "0 \<le>s ?p" "snap_len ?p (unat sz) = unat ?p" "unat ?p \<le> unat sz"
      using le by (auto simp: snap_len_def split: if_splits)
    then show ?thesis using False assms w p
      by (simp add: log_packet_pcap_def rd_block_def capture_rec_def pcap_encode_def)
  qed
  have "snap_len ?p (unat sz) \<le> unat sz" by (simp add: snap_len_def)
  then show "pcap_rec_ok (capture_rec env ?p buf (unat sz))"
    using assms by (simp add: pcap_rec_ok_def capture_rec_def unsigned_of_nat take_bit_nat_eq_self)
qed

text \<open>The sinks write their own output and nothing else.\<close>

lemma print_packet_Some:
  "print_packet env buf sz s = Some s' \<Longrightarrow> \<exists>t. s' = print_out t s"
  by (auto simp: print_packet_def split: bind_splits)

lemma log_packet_readable_Some:
  "log_packet_readable env buf sz s = Some s' \<Longrightarrow> \<exists>t. s' = s\<lparr>packet_log := t\<rparr>"
  by (auto simp: log_packet_readable_def split: bind_splits)

lemma log_packet_pcap_Some:
  "log_packet_pcap env buf sz s = Some s' \<Longrightarrow> \<exists>t. s' = s\<lparr>pcap_file := t\<rparr>"
  by (auto simp: log_packet_pcap_def Let_def split: bind_splits prod.splits)

lemma address_lines_total: "38 \<le> length buf \<Longrightarrow> \<exists>t. address_lines buf = Some t"
  by (simp add: address_lines_def ip_at_def port_at_def)

lemma sinks_total:
  assumes "38 \<le> length buf" "unat sz < 2 ^ 31" "unat sz \<le> length buf"
  shows "\<exists>s'. print_packet env buf sz s = Some s'" "\<exists>s'. log_packet_readable env buf sz s = Some s'"
  using assms address_lines_total [OF assms(1)]
  by (auto simp: print_packet_def log_packet_readable_def payload_bytes_def rd_block_def)

lemma get_logged_effect:
  assumes "38 \<le> length buf" "unat sz < 2 ^ 31" "unat sz \<le> length buf"
  shows "\<exists>out log. get_logged env buf sz s =
    Some (s\<lparr>stdout := out, packet_log := log,
            pcap_file := (if enable_pcap_log s
              then pcap_file s @ pcap_encode (capture_rec env (PDU_bytes s) buf (unat sz))
              else pcap_file s)\<rparr>)"
proof -
  obtain t where t: "(if enable_print_packet s then print_packet env buf sz s else Some s) =
      Some (s\<lparr>stdout := t\<rparr>)"
    using sinks_total(1) [OF assms, of env s] print_packet_Some [of env buf sz s]
    by (cases "enable_print_packet s") (fastforce simp: print_out_def intro: that [of "stdout s"] that)+
  let ?s1 = "s\<lparr>stdout := t\<rparr>"
  obtain u where u: "(if enable_log ?s1 then log_packet_readable env buf sz ?s1 else Some ?s1) =
      Some (?s1\<lparr>packet_log := u\<rparr>)"
    using sinks_total(2) [OF assms, of env ?s1] log_packet_readable_Some [of env buf sz ?s1]
    by (cases "enable_log ?s1") (fastforce intro: that [of "packet_log s"] that)+
  show ?thesis
    using t u log_packet_pcap_rec(1) [OF assms(2,3), of env "?s1\<lparr>packet_log := u\<rparr>"]
    by (auto simp: get_logged_def)
qed

end
