(* ===== verification/Plugin_Config.thy ===== *)
theory Plugin_Config
  imports Plugin_Packets
begin

text \<open>
  The monitor side of \<open>plugins/main.c\<close>: \<open>set_plugin\<close>, \<open>reset_plugin\<close> and
  \<open>toggle_plugin\<close> dispatch on the property's name, in the order of the code. The lemmas relate
  the commands to the packet filter: setting a field from its text, and resetting it, is an update
  of the filter that \<open>get_packet\<close> applies.
\<close>

subsection \<open>Operations\<close>

definition protocol_line :: "c_int \<Rightarrow> string" where
  "protocol_line n =
     (if n = 6 then ''Protocol: 6(tcp)'' @ nl
      else if n = 17 then ''Protocol: 17(udp)'' @ nl
      else if n = 1 then ''Protocol: 128(icmp)'' @ nl
      else ''Protocol number:'' @ sdec (sint n) @ nl)"

definition set_plugin :: "host_env \<Rightarrow> string \<Rightarrow> string \<Rightarrow> plugin_state \<Rightarrow> plugin_state option" where
  "set_plugin env property val s =
     (if property = ''target_s_port'' then
        Some (print_out (''setting target source port: '' @ sdec (sint (atoi val)) @ nl)
                (s\<lparr>target_s_port := atoi val\<rparr>))
      else if property = ''target_d_port'' then
        Some (print_out (''setting target destination port: '' @ sdec (sint (atoi val)) @ nl)
                (s\<lparr>target_d_port := atoi val\<rparr>))
      else if property = ''target_s_ip'' then
        Some (print_out (''setting target source ip: '' @ val @ nl) (s\<lparr>target_s_ip := val\<rparr>))
      else if property = ''target_d_ip'' then
        Some (print_out (''setting target destination ip: '' @ val @ nl) (s\<lparr>target_d_ip := val\<rparr>))
      else if property = ''PDU_bytes'' then
        Some (print_out (''setting PDU bytes: '' @ sdec (sint (atoi val)) @ nl)
                (s\<lparr>PDU_bytes := atoi val\<rparr>))
      else if property = ''target_protocol_number'' then
        Some (print_out (''setting target protocol number: '' @ sdec (sint (atoi val)) @ nl @
                         protocol_line (atoi val))
                (s\<lparr>target_protocol_number := atoi val\<rparr>))
      else if property = ''target_file_name'' then
        saveFile env val
          (print_out (''setting target file name: '' @ val @ nl) (s\<lparr>target_file_name := val\<rparr>))
      else if property = ''file_list'' then
        print_lists (print_out (''Print current file list: '' @ nl) s)
      else Some s)"

definition reset_plugin :: "string \<Rightarrow> plugin_state \<Rightarrow> plugin_state" where
  "reset_plugin property s =
     (if property = ''target_s_port'' then
        print_out (''resetting target source port'' @ nl) s\<lparr>target_s_port := - 1\<rparr>
      else if property = ''target_d_port'' then
        print_out (''resetting target destination port'' @ nl) s\<lparr>target_d_port := - 1\<rparr>
      else if property = ''target_s_ip'' then
        print_out (''resetting target source ip'' @ nl) s\<lparr>target_s_ip := NOT_SET\<rparr>
      else if property = ''target_d_ip'' then
        print_out (''resetting target destination ip'' @ nl) s\<lparr>target_d_ip := NOT_SET\<rparr>
      else if property = ''PDU_bytes'' then
        print_out (''resetting PDU bytes (128)'' @ nl) s\<lparr>PDU_bytes := 128\<rparr>
      else if property = ''target_protocol_number'' then
        print_out (''resetting target protocol number'' @ nl) s\<lparr>target_protocol_number := - 1\<rparr>
      else s)"

definition flag_text :: "bool \<Rightarrow> string" where
  "flag_text b = (if b then ''1'' else ''0'')"

definition toggle_plugin :: "string \<Rightarrow> plugin_state \<Rightarrow> plugin_state" where
  "toggle_plugin property s =
     (if property = ''enable_print_packet'' then
        (let b = \<not> enable_print_packet s in
         print_out (''toggle enable_print_packet: '' @ flag_text b @ nl) (s\<lparr>enable_print_packet := b\<rparr>))
      else if property = ''enable_log'' then
        (let b = \<not> enable_log s in
         print_out (''toggle enable_log: '' @ flag_text b @ nl) (s\<lparr>enable_log := b\<rparr>))
      else if property = ''enable_pcap_log'' then
        (let b = \<not> enable_pcap_log s in
         print_out (''toggle enable_pcap_log: '' @ flag_text b @ nl) (s\<lparr>enable_pcap_log := b\<rparr>))
      else if property = ''enable_traceblk'' then
        (let b = \<not> enable_traceblk s in
         print_out ('' enable_traceblk: '' @ flag_text b @ nl) (s\<lparr>enable_traceblk := b\<rparr>))
      else if property = ''enable_print_blkio'' then
        print_out (''enable_print_blkio'' @ nl) (s\<lparr>enable_print_blkio := \<not> enable_print_blkio s\<rparr>)
      else s)"

subsection \<open>The commands as updates of the filter\<close>

datatype filter_cmd =
  SetSPort u16 | SetDPort u16 | SetSIp "byte \<times> byte \<times> byte \<times> byte" |
  SetDIp "byte \<times> byte \<times> byte \<times> byte" | SetProto byte |
  ResetSPort | ResetDPort | ResetSIp | ResetDIp | ResetProto

fun apply_cmd :: "filter_cmd \<Rightarrow> filter_spec \<Rightarrow> filter_spec" where
  "apply_cmd (SetSPort p) f = f\<lparr>want_sport := Some p\<rparr>"
| "apply_cmd (SetDPort p) f = f\<lparr>want_dport := Some p\<rparr>"
| "apply_cmd (SetSIp a) f = f\<lparr>want_sip := Some a\<rparr>"
| "apply_cmd (SetDIp a) f = f\<lparr>want_dip := Some a\<rparr>"
| "apply_cmd (SetProto b) f = f\<lparr>want_proto := Some b\<rparr>"
| "apply_cmd ResetSPort f = f\<lparr>want_sport := None\<rparr>"
| "apply_cmd ResetDPort f = f\<lparr>want_dport := None\<rparr>"
| "apply_cmd ResetSIp f = f\<lparr>want_sip := None\<rparr>"
| "apply_cmd ResetDIp f = f\<lparr>want_dip := None\<rparr>"
| "apply_cmd ResetProto f = f\<lparr>want_proto := None\<rparr>"

text \<open>The monitor command that gives a field its text.\<close>

fun run_cmd :: "host_env \<Rightarrow> filter_cmd \<Rightarrow> plugin_state \<Rightarrow> plugin_state option" where
  "run_cmd env (SetSPort p) s = set_plugin env ''target_s_port'' (dec (unat p)) s"
| "run_cmd env (SetDPort p) s = set_plugin env ''target_d_port'' (dec (unat p)) s"
| "run_cmd env (SetSIp a) s = set_plugin env ''target_s_ip'' (case a of (a, b, c, d) \<Rightarrow> dotted a b c d) s"
| "run_cmd env (SetDIp a) s = set_plugin env ''target_d_ip'' (case a of (a, b, c, d) \<Rightarrow> dotted a b c d) s"
| "run_cmd env (SetProto b) s = set_plugin env ''target_protocol_number'' (dec (unat b)) s"
| "run_cmd env ResetSPort s = Some (reset_plugin ''target_s_port'' s)"
| "run_cmd env ResetDPort s = Some (reset_plugin ''target_d_port'' s)"
| "run_cmd env ResetSIp s = Some (reset_plugin ''target_s_ip'' s)"
| "run_cmd env ResetDIp s = Some (reset_plugin ''target_d_ip'' s)"
| "run_cmd env ResetProto s = Some (reset_plugin ''target_protocol_number'' s)"

fun run_cmds :: "host_env \<Rightarrow> filter_cmd list \<Rightarrow> plugin_state \<Rightarrow> plugin_state option" where
  "run_cmds env [] s = Some s"
| "run_cmds env (c # cs) s = Option.bind (run_cmd env c s) (run_cmds env cs)"

lemma atoi_dec_small: "n < 2 ^ 31 \<Longrightarrow> atoi (dec n) = word_of_nat n"
  using atoi_sdec [of "int n"] by (simp add: sdec_def)

lemma atoi_port: "atoi (dec (unat (p :: u16))) = ucast p"
  using unat_less_pow [of p] by (simp add: atoi_dec_small)

lemma atoi_proto: "atoi (dec (unat (b :: byte))) = ucast b"
  using unat_less_pow [of b] by (simp add: atoi_dec_small)

lemma print_out_filter [simp]: "filter_rel (print_out t s) f = filter_rel s f"
  by (simp add: filter_rel_def print_out_def)

lemma run_cmd_filter:
  assumes "filter_rel s f"
  shows "\<exists>s'. run_cmd env c s = Some s' \<and> filter_rel s' (apply_cmd c f)"
  using assms
  by (cases c)
     (auto simp: set_plugin_def reset_plugin_def atoi_port atoi_proto filter_rel_def port_repr_def
       proto_repr_def ip_repr_def print_out_def)

lemma run_cmds_filter:
  "filter_rel s f \<Longrightarrow> \<exists>s'. run_cmds env cs s = Some s' \<and> filter_rel s' (fold apply_cmd cs f)"
proof (induction cs arbitrary: s f)
  case Nil
  then show ?case by simp
next
  case (Cons c cs)
  obtain s1 where "run_cmd env c s = Some s1" "filter_rel s1 (apply_cmd c f)"
    using run_cmd_filter [OF Cons.prems] by blast
  with Cons.IH [of s1] show ?case by simp
qed

definition no_filter :: filter_spec where
  "no_filter = \<lparr>want_sport = None, want_dport = None, want_sip = None, want_dip = None, want_proto = None\<rparr>"

lemma globals_no_filter: "filter_rel plugin_globals no_filter"
  by (simp add: filter_rel_def plugin_globals_def no_filter_def port_repr_def proto_repr_def ip_repr_def)

end
