(* ===== verification/Plugin_Interface.thy ===== *)
theory Plugin_Interface
  imports Plugin_Config
begin

text \<open>
  The interface between the emulator and a plugin, and the loader.

  \<open>plugin.h\<close> declares a struct of function pointers; here it is a record of functions on the
  plugin's state, and the call sites of the emulator (the DMA helpers, the network card, the monitor
  commands) go through \<open>dispatch\<close>, which dereferences the global pointer \<open>plugin\<close> and so is
  \<open>None\<close> when no plugin is loaded. The locale \<open>plugin_contract\<close> states what the
  emulator relies on; \<open>plugins/main.c\<close>'s interface is shown to meet it. \<open>plugin.c\<close>'s
  loader is modelled with the dynamic linker as a parameter.
\<close>

subsection \<open>The interface and its call sites\<close>

record ('env, 's) plugin_interface_t =
  reset_plugin_op :: "string \<Rightarrow> 's \<Rightarrow> 's"
  set_plugin_op :: "'env \<Rightarrow> string \<Rightarrow> string \<Rightarrow> 's \<Rightarrow> 's option"
  toggle_plugin_op :: "string \<Rightarrow> 's \<Rightarrow> 's"
  nic_recv_op :: "'env \<Rightarrow> buffer \<Rightarrow> u64 \<Rightarrow> 's \<Rightarrow> 's option"
  nic_send_op :: "'env \<Rightarrow> buffer \<Rightarrow> u64 \<Rightarrow> 's \<Rightarrow> 's option"
  blk_write_op :: "'env \<Rightarrow> u64 \<Rightarrow> u64 \<Rightarrow> u64 \<Rightarrow> 's \<Rightarrow> 's option"
  blk_read_op :: "'env \<Rightarrow> u64 \<Rightarrow> u64 \<Rightarrow> u64 \<Rightarrow> 's \<Rightarrow> 's option"

text \<open>What \<open>init_plugin\<close> of \<open>plugins/main.c\<close> stores in \<open>my_interface\<close>.\<close>

definition my_interface :: "(host_env, plugin_state) plugin_interface_t" where
  "my_interface = \<lparr>
     reset_plugin_op = reset_plugin, set_plugin_op = set_plugin, toggle_plugin_op = toggle_plugin,
     nic_recv_op = do_nic_receive, nic_send_op = do_nic_send,
     blk_write_op = do_blk_write, blk_read_op = do_blk_read\<rparr>"

text \<open>The calls the emulator makes: \<open>hmp_plugin_set\<close>, \<open>hmp_plugin_reset\<close>,
  \<open>hmp_plugin_toggle\<close>, \<open>e1000_receive\<close>, \<open>e1000_send_packet\<close> and the two
  branches of \<open>dma_blk_io\<close>.\<close>

datatype hook_call =
  HmpSet string string | HmpReset string | HmpToggle string |
  NicRecv buffer u64 | NicSend buffer u64 | BlkWrite u64 u64 u64 | BlkRead u64 u64 u64

fun call_hook :: "('env, 's) plugin_interface_t \<Rightarrow> 'env \<Rightarrow> hook_call \<Rightarrow> 's \<Rightarrow> 's option" where
  "call_hook p env (HmpSet prop val) s = set_plugin_op p env prop val s"
| "call_hook p env (HmpReset prop) s = Some (reset_plugin_op p prop s)"
| "call_hook p env (HmpToggle prop) s = Some (toggle_plugin_op p prop s)"
| "call_hook p env (NicRecv buf sz) s = nic_recv_op p env buf sz s"
| "call_hook p env (NicSend buf sz) s = nic_send_op p env buf sz s"
| "call_hook p env (BlkWrite sn base len) s = blk_write_op p env sn base len s"
| "call_hook p env (BlkRead sn base len) s = blk_read_op p env sn base len s"

definition dispatch ::
  "('env, 's) plugin_interface_t option \<Rightarrow> 'env \<Rightarrow> hook_call \<Rightarrow> 's \<Rightarrow> 's option" where
  "dispatch plugin env c s = (case plugin of None \<Rightarrow> None | Some p \<Rightarrow> call_hook p env c s)"

fun run_hooks ::
  "('env, 's) plugin_interface_t option \<Rightarrow> ('env \<times> hook_call) list \<Rightarrow> 's \<Rightarrow> 's option" where
  "run_hooks p [] s = Some s"
| "run_hooks p ((env, c) # cs) s = Option.bind (dispatch p env c s) (run_hooks p cs)"

text \<open>Packets a network card hands over: at least an Ethernet, IP and port header, and a size the
  buffer really has.\<close>

definition packet_ok :: "buffer \<Rightarrow> u64 \<Rightarrow> bool" where
  "packet_ok buf sz \<longleftrightarrow> 38 \<le> length buf \<and> unat sz \<le> length buf \<and> unat sz < 2 ^ 31"

fun call_ok :: "hook_call \<Rightarrow> bool" where
  "call_ok (NicRecv buf sz) = packet_ok buf sz"
| "call_ok (NicSend buf sz) = packet_ok buf sz"
| "call_ok _ = True"

subsection \<open>The contract\<close>

locale plugin_contract =
  fixes iface :: "('env, 's) plugin_interface_t"
    and inv :: "'s \<Rightarrow> bool"
    and traced :: "'s \<Rightarrow> bool"
  assumes set_keeps: "inv s \<Longrightarrow> set_plugin_op iface env p v s = Some s' \<Longrightarrow>
      inv s' \<and> (traced s \<longrightarrow> traced s')"
    and reset_keeps: "inv s \<Longrightarrow> inv (reset_plugin_op iface p s) \<and> (traced s \<longrightarrow> traced (reset_plugin_op iface p s))"
    and toggle_keeps: "inv s \<Longrightarrow> inv (toggle_plugin_op iface p s) \<and> (traced s \<longrightarrow> traced (toggle_plugin_op iface p s))"
    and recv_returns: "inv s \<Longrightarrow> packet_ok buf sz \<Longrightarrow>
      \<exists>s'. nic_recv_op iface env buf sz s = Some s' \<and> inv s' \<and> (traced s \<longrightarrow> traced s')"
    and send_returns: "inv s \<Longrightarrow> packet_ok buf sz \<Longrightarrow>
      \<exists>s'. nic_send_op iface env buf sz s = Some s' \<and> inv s' \<and> (traced s \<longrightarrow> traced s')"
    and write_keeps: "inv s \<Longrightarrow> blk_write_op iface env sn b l s = Some s' \<Longrightarrow> inv s' \<and> (traced s \<longrightarrow> traced s')"
    and read_keeps: "inv s \<Longrightarrow> blk_read_op iface env sn b l s = Some s' \<Longrightarrow> inv s' \<and> (traced s \<longrightarrow> traced s')"
    and write_returns: "inv s \<Longrightarrow> traced s \<Longrightarrow> \<exists>s'. blk_write_op iface env sn b l s = Some s'"
    and read_returns: "inv s \<Longrightarrow> traced s \<Longrightarrow> \<exists>s'. blk_read_op iface env sn b l s = Some s'"
begin

lemma call_keeps:
  assumes "inv s" "call_ok c" "call_hook iface env c s = Some s'"
  shows "inv s' \<and> (traced s \<longrightarrow> traced s')"
proof (cases c)
  case (HmpSet p v)
  then show ?thesis using assms set_keeps [of s env p v s'] by simp
next
  case (HmpReset p)
  then show ?thesis using assms reset_keeps [of s p] by simp
next
  case (HmpToggle p)
  then show ?thesis using assms toggle_keeps [of s p] by simp
next
  case (NicRecv buf sz)
  then show ?thesis using assms recv_returns [of s buf sz env] by auto
next
  case (NicSend buf sz)
  then show ?thesis using assms send_returns [of s buf sz env] by auto
next
  case (BlkWrite sn b l)
  then show ?thesis using assms write_keeps [of s env sn b l s'] by simp
next
  case (BlkRead sn b l)
  then show ?thesis using assms read_keeps [of s env sn b l s'] by simp
qed

lemma call_returns:
  assumes "inv s" "traced s" "call_ok c" "\<And>p v. c \<noteq> HmpSet p v"
  shows "\<exists>s'. call_hook iface env c s = Some s'"
proof (cases c)
  case (NicRecv buf sz)
  then show ?thesis using assms recv_returns [of s buf sz env] by auto
next
  case (NicSend buf sz)
  then show ?thesis using assms send_returns [of s buf sz env] by auto
next
  case (BlkWrite sn b l)
  then show ?thesis using assms write_returns [of s env sn b l] by simp
next
  case (BlkRead sn b l)
  then show ?thesis using assms read_returns [of s env sn b l] by simp
qed (use assms(4) in simp_all)

text \<open>Any run of calls keeps the invariant.\<close>

lemma run_keeps:
  "inv s \<Longrightarrow> \<forall>(env, c) \<in> set cs. call_ok c \<Longrightarrow> run_hooks (Some iface) cs s = Some s' \<Longrightarrow> inv s'"
proof (induction cs arbitrary: s)
  case Nil
  then show ?case by simp
next
  case (Cons x cs)
  obtain env c where x: "x = (env, c)" by force
  from Cons.prems x obtain s1 where s1: "call_hook iface env c s = Some s1"
    "run_hooks (Some iface) cs s1 = Some s'"
    by (auto simp: dispatch_def split: bind_splits)
  have "inv s1" using call_keeps [OF Cons.prems(1) _ s1(1)] Cons.prems(2) x by simp
  with s1(2) Cons.prems(2) show ?case using Cons.IH by simp
qed

text \<open>Once a file is traced, every run of packets, block accesses, resets and toggles returns.\<close>

lemma run_returns:
  "inv s \<Longrightarrow> traced s \<Longrightarrow> \<forall>(env, c) \<in> set cs. call_ok c \<and> (\<forall>p v. c \<noteq> HmpSet p v) \<Longrightarrow>
   \<exists>s'. run_hooks (Some iface) cs s = Some s' \<and> inv s'"
proof (induction cs arbitrary: s)
  case Nil
  then show ?case by simp
next
  case (Cons x cs)
  obtain env c where x: "x = (env, c)" by force
  have c: "call_ok c" "\<And>p v. c \<noteq> HmpSet p v" using Cons.prems(3) x by auto
  obtain s1 where s1: "call_hook iface env c s = Some s1"
    using call_returns [OF Cons.prems(1,2) c] by blast
  then have "inv s1" "traced s1" using call_keeps [OF Cons.prems(1) c(1)] Cons.prems(2) by auto
  with s1 Cons.prems(3) show ?case using Cons.IH [of s1] x by (simp add: dispatch_def)
qed

end

subsection \<open>The plugin of \<open>plugins/main.c\<close> meets the contract\<close>

definition plugin_inv :: "plugin_state \<Rightarrow> bool" where
  "plugin_inv s \<longleftrightarrow> files_inv s \<and> list_head s \<noteq> None \<and> (\<exists>rs. parse_pcap (pcap_file s) = Some rs)"

definition file_traced :: "plugin_state \<Rightarrow> bool" where
  "file_traced s \<longleftrightarrow> \<not> first_file s"

lemma plugin_inv_frame:
  "heap s' = heap s \<Longrightarrow> heap_brk s' = heap_brk s \<Longrightarrow> list_head s' = list_head s \<Longrightarrow>
   first_file s' = first_file s \<Longrightarrow> pcap_file s' = pcap_file s \<Longrightarrow>
   plugin_inv s' = plugin_inv s \<and> file_traced s' = file_traced s"
  using files_inv_frame [of s' s] by (simp add: plugin_inv_def file_traced_def)

lemma saveFile_frame:
  "saveFile env f s = Some s' \<Longrightarrow>
   list_head s' = list_head s \<and> pcap_file s' = pcap_file s \<and> (\<not> first_file s \<longrightarrow> \<not> first_file s')"
  by (auto simp: saveFile_def insertNode_def malloc_node_def Let_def
      split: bind_splits if_splits option.splits cell.splits dest!: get_sectornum_frame)

lemma saveFile_long:
  "saveFile env f s = Some s' \<Longrightarrow> \<not> length f < 50 \<Longrightarrow> get_sectornum env f s = Some s'"
  by (auto simp: saveFile_def insertNode_def malloc_node_def strcpy_into_def Let_def
      split: bind_splits if_splits)

lemma saveFile_inv:
  assumes "saveFile env f s = Some s'" "files_inv s" "list_head s \<noteq> None"
  shows "files_inv s'"
proof (cases "length f < 50")
  case True
  obtain s1 where "get_sectornum env f s = Some s1"
    using assms(1) by (auto simp: saveFile_def split: bind_splits)
  moreover obtain tab where "table_of s tab"
  proof (cases "first_file s")
    case True
    then show ?thesis using that [of None] by (simp add: table_of_def)
  next
    case False
    then obtain ts where "file_table s ts" using assms(2,3) by (auto simp: files_inv_def)
    then show ?thesis using that [of "Some ts"] by (simp add: table_of_def)
  qed
  ultimately show ?thesis using saveFile_refines [OF assms(2,3) _ _ True] assms(1) by fastforce
next
  case False
  then show ?thesis
    using saveFile_long [OF assms(1)] assms(2) get_sectornum_frame files_inv_frame by metis
qed

lemma set_plugin_keeps:
  assumes inv: "plugin_inv s" and set: "set_plugin env p v s = Some s'"
  shows "plugin_inv s' \<and> (file_traced s \<longrightarrow> file_traced s')"
proof -
  let ?t = "print_out (''setting target file name: '' @ v @ nl) (s\<lparr>target_file_name := v\<rparr>)"
  consider (save) "saveFile env v ?t = Some s'"
    | (other) "heap s' = heap s" "heap_brk s' = heap_brk s" "list_head s' = list_head s"
        "first_file s' = first_file s" "pcap_file s' = pcap_file s"
    using set by (auto simp: set_plugin_def print_lists_def split: if_splits)
  then show ?thesis
  proof cases
    case save
    have "files_inv ?t" using inv files_inv_frame [of ?t s] by (simp add: plugin_inv_def)
    moreover have "list_head ?t \<noteq> None" using inv by (simp add: plugin_inv_def)
    ultimately have "files_inv s'" using saveFile_inv [OF save] by blast
    then show ?thesis
      using saveFile_frame [OF save] inv by (auto simp: plugin_inv_def file_traced_def)
  next
    case other
    then show ?thesis using inv plugin_inv_frame [of s' s] by blast
  qed
qed

lemma reset_plugin_keeps:
  "plugin_inv (reset_plugin p s) = plugin_inv s \<and> file_traced (reset_plugin p s) = file_traced s"
  by (rule plugin_inv_frame) (simp_all add: reset_plugin_def)

lemma toggle_plugin_keeps:
  "plugin_inv (toggle_plugin p s) = plugin_inv s \<and> file_traced (toggle_plugin p s) = file_traced s"
  by (rule plugin_inv_frame) (simp_all add: toggle_plugin_def Let_def)

lemma get_packet_returns:
  assumes inv: "plugin_inv s" and ok: "packet_ok buf sz"
  shows "\<exists>s'. get_packet env buf sz mode s = Some s' \<and> plugin_inv s' \<and> (file_traced s \<longrightarrow> file_traced s')"
proof -
  have l: "38 \<le> length buf" "unat sz < 2 ^ 31" "unat sz \<le> length buf"
    using ok by (auto simp: packet_ok_def)
  obtain rs where rs: "parse_pcap (pcap_file s) = Some rs" using inv by (auto simp: plugin_inv_def)
  obtain s1 where s1: "get_logged env buf sz s = Some s1"
    and fr: "heap s1 = heap s" "heap_brk s1 = heap_brk s" "list_head s1 = list_head s"
      "first_file s1 = first_file s"
    and pc: "pcap_file s1 = (if enable_pcap_log s
        then pcap_file s @ pcap_encode (capture_rec env (PDU_bytes s) buf (unat sz)) else pcap_file s)"
    using get_logged_effect [OF l, of env s] by force
  have "\<exists>rs. parse_pcap (pcap_file s1) = Some rs"
    using pc rs parse_pcap_append [OF rs log_packet_pcap_rec(2) [OF l(2,3)]] by auto
  then have "plugin_inv s1 \<and> (file_traced s \<longrightarrow> file_traced s1)"
    using inv fr files_inv_frame [of s1 s] by (auto simp: plugin_inv_def file_traced_def)
  moreover have "get_packet env buf sz mode s = Some s \<or> get_packet env buf sz mode s = get_logged env buf sz s"
    using l(1) by (simp add: get_packet_def port_at_def ip_at_def)
  ultimately show ?thesis using s1 inv by auto
qed

lemma get_blockio_keeps:
  "plugin_inv s \<Longrightarrow> get_blockio env sn b l dir s = Some s' \<Longrightarrow>
   plugin_inv s' \<and> (file_traced s \<longrightarrow> file_traced s')"
  using get_blockio_Some_frame [of env sn b l dir s s'] plugin_inv_frame [of s' s]
  by (auto simp: plugin_inv_def)

lemma get_blockio_returns:
  "plugin_inv s \<Longrightarrow> file_traced s \<Longrightarrow> \<exists>s'. get_blockio env sn b l dir s = Some s'"
  by (auto simp: plugin_inv_def file_traced_def files_inv_def get_blockio_table)

interpretation main_plugin: plugin_contract my_interface plugin_inv file_traced
proof
  fix s s' :: plugin_state and env :: host_env and p v
  show "plugin_inv s \<Longrightarrow> set_plugin_op my_interface env p v s = Some s' \<Longrightarrow>
      plugin_inv s' \<and> (file_traced s \<longrightarrow> file_traced s')"
    by (simp add: my_interface_def set_plugin_keeps)
qed (simp_all add: my_interface_def reset_plugin_keeps toggle_plugin_keeps do_nic_receive_def
      do_nic_send_def do_blk_write_def do_blk_read_def get_packet_returns get_blockio_keeps
      get_blockio_returns)

lemma init_plugin_inv:
  assumes "init_plugin env s = (True, s')" "files_inv s"
  shows "plugin_inv s'"
proof -
  have "pcap_file s' = pcap_file (create_logfile s)"
    using assms(1) by (auto simp: init_plugin_def malloc_node_def Let_def split: if_splits option.splits)
  then show ?thesis
    using init_plugin_files [OF assms] create_logfile_pcap [of s] by (simp add: plugin_inv_def)
qed

end
