(* ===== verification/Plugin_Loader.thy ===== *)
theory Plugin_Loader
  imports Plugin_Interface
begin

text \<open>
  \<open>plugin.c\<close>: loading and unloading a plugin. The dynamic linker is a parameter
  (\<open>dl_env\<close>): whether a path opens, whether the handle has the symbol \<open>init_plugin\<close>,
  and what calling it returns. The calls of \<open>dlclose\<close> are recorded, with the handle each gets.
\<close>

subsection \<open>Operations\<close>

record 'i loader =
  plugin_ptr :: "'i option"
  plugin_handle :: "nat option"
  cur_plugin_path :: string
  dlclosed :: "nat option list"
  loader_out :: string

record 'i dl_env =
  dlopen_result :: "string \<Rightarrow> nat option"
  dlerror_text :: string
  has_init_plugin :: "nat \<Rightarrow> bool"
  init_plugin_result :: "nat \<Rightarrow> 'i option"

definition loader_start :: "'i loader" where
  "loader_start = \<lparr>plugin_ptr = None, plugin_handle = None, cur_plugin_path = [], dlclosed = [],
     loader_out = []\<rparr>"

definition say :: "string \<Rightarrow> 'i loader \<Rightarrow> 'i loader" where
  "say t l = l\<lparr>loader_out := loader_out l @ t\<rparr>"

definition dlclose :: "'i loader \<Rightarrow> 'i loader" where
  "dlclose l = l\<lparr>dlclosed := dlclosed l @ [plugin_handle l]\<rparr>"

definition do_load_plugin :: "'i dl_env \<Rightarrow> string \<Rightarrow> 'i loader \<Rightarrow> 'i loader" where
  "do_load_plugin dl path l0 =
     (let l = (say (''Start loading plugin '' @ nl) l0)\<lparr>plugin_handle := dlopen_result dl path\<rparr>
      in case plugin_handle l of
           None \<Rightarrow> say (dlerror_text dl @ nl) l
         | Some h \<Rightarrow>
             if \<not> has_init_plugin dl h
             then (dlclose (say (dlerror_text dl @ nl) l))\<lparr>plugin_handle := None\<rparr>
             else
               let l1 = l\<lparr>plugin_ptr := init_plugin_result dl h\<rparr>
               in case plugin_ptr l1 of
                    None \<Rightarrow>
                      (dlclose (say (''fail to initialize the plugin!'' @ nl) l1))\<lparr>plugin_handle := None\<rparr>
                  | Some _ \<Rightarrow>
                      say (path @ '' is loaded successfully!'' @ nl)
                        (l1\<lparr>cur_plugin_path := take 100 path\<rparr>))"

definition do_unload_plugin :: "'i loader \<Rightarrow> 'i loader" where
  "do_unload_plugin l =
     (if cur_plugin_path l \<noteq> []
      then (say (''plugin unloaded!'' @ nl) ((dlclose l)\<lparr>plugin_handle := None, plugin_ptr := None\<rparr>))
             \<lparr>cur_plugin_path := []\<rparr>
      else l)"

text \<open>A step of the loader: a load of a non-empty path, or an unload.\<close>

inductive loader_step :: "'i dl_env \<Rightarrow> 'i loader \<Rightarrow> 'i loader \<Rightarrow> bool" for dl where
  load: "path \<noteq> [] \<Longrightarrow> loader_step dl l (do_load_plugin dl path l)"
| unload: "loader_step dl l (do_unload_plugin l)"

inductive loader_reachable :: "'i dl_env \<Rightarrow> 'i loader \<Rightarrow> bool" for dl where
  start: "loader_reachable dl loader_start"
| step: "loader_reachable dl l \<Longrightarrow> loader_step dl l l' \<Longrightarrow> loader_reachable dl l'"

inductive_cases loader_stepE: "loader_step dl l l'"

subsection \<open>What the loader keeps\<close>

lemmas loader_defs = do_load_plugin_def do_unload_plugin_def say_def dlclose_def Let_def

text \<open>A loaded plugin has its path recorded, so it can be unloaded.\<close>

definition path_recorded :: "'i loader \<Rightarrow> bool" where
  "path_recorded l \<longleftrightarrow> (plugin_ptr l \<noteq> None \<longrightarrow> cur_plugin_path l \<noteq> [])"

lemma loader_step_path: "loader_step dl l l' \<Longrightarrow> path_recorded l \<Longrightarrow> path_recorded l'"
  by (erule loader_stepE) (auto simp: loader_defs path_recorded_def split: option.splits)

lemma loader_reachable_path: "loader_reachable dl l \<Longrightarrow> path_recorded l"
proof (induction rule: loader_reachable.induct)
  case start
  show ?case by (simp add: path_recorded_def loader_start_def)
next
  case (step l l')
  then show ?case by (blast intro: loader_step_path)
qed

subsection \<open>Properties\<close>

text \<open>
  in every state the loader reaches, unloading leaves no plugin behind: the pointer the
  emulator calls through is null, no path is recorded, and a hook call made then dereferences
  null.
\<close>

lemma unload_clears:
  assumes "loader_reachable dl l"
  shows "plugin_ptr (do_unload_plugin l) = None \<and> cur_plugin_path (do_unload_plugin l) = [] \<and>
         dispatch (plugin_ptr (do_unload_plugin l)) env c s = None"
proof -
  have "path_recorded l" using assms by (rule loader_reachable_path)
  then show ?thesis
    by (cases "cur_plugin_path l = []") (auto simp: path_recorded_def loader_defs dispatch_def)
qed

definition demo_dl :: "(host_env, plugin_state) plugin_interface_t dl_env" where
  "demo_dl = \<lparr>dlopen_result = (\<lambda>p. if p = ''main.so'' then Some 7 else None), dlerror_text = ''not found'',
     has_init_plugin = (\<lambda>h. h = 7), init_plugin_result = (\<lambda>_. Some my_interface)\<rparr>"

text \<open>
  C8: a failed second load corrupts the loader. With a plugin loaded from \<open>a\<close>, loading a path
  that does not open drops the handle but keeps the plugin; the unload that follows closes the null
  handle.
\<close>

theorem failed_reload_loses_handle:
  assumes "dlopen_result dl a = Some h" "has_init_plugin dl h" "init_plugin_result dl h = Some i"
    and "a \<noteq> []" "dlopen_result dl b = None"
  defines "l \<equiv> do_load_plugin dl b (do_load_plugin dl a loader_start)"
  shows "plugin_ptr l = Some i \<and> plugin_handle l = None \<and>
         dlclosed (do_unload_plugin l) = [None]"
  using assms by (simp add: loader_defs loader_start_def)

theorem failed_reload_loses_handle_witness:
  "plugin_handle (do_load_plugin demo_dl ''x.so'' (do_load_plugin demo_dl ''main.so'' loader_start)) = None"
proof -
  have "dlopen_result demo_dl ''main.so'' = Some 7" "has_init_plugin demo_dl 7"
    "init_plugin_result demo_dl 7 = Some my_interface" "dlopen_result demo_dl ''x.so'' = None"
    by (simp_all add: demo_dl_def)
  from failed_reload_loses_handle [OF this(1-3) _ this(4)] show ?thesis by simp
qed

end
