(* ===== verification/Plugin_Properties.thy ===== *)
theory Plugin_Properties
  imports Plugin_Loader
begin

text \<open>
  The properties of the plugin of \<open>plugins/main.c\<close> as a whole: the filter, the capture file,
  the list of traced files and the block hook, each over any state the operations can reach, with a
  small concrete run as witness.
\<close>

subsection \<open>A concrete host and packet\<close>

definition demo_env :: host_env where
  "demo_env = \<lparr>popen_out = (\<lambda>_. Some ''1119016''), asctime_now = ''now'', tv_sec = 5, tv_usec = 6,
     plugin_log_opens = True\<rparr>"

text \<open>A UDP packet of 42 bytes from 10.0.0.2 port 53 to 10.0.0.1 port 80.\<close>

definition demo_packet :: buffer where
  "demo_packet = replicate 23 0 @ [17, 0, 0, 10, 0, 0, 2, 10, 0, 0, 1, 0, 53, 0, 80] @ replicate 4 0"

definition demo_init :: plugin_state where
  "demo_init = snd (init_plugin demo_env plugin_globals)"

lemma demo_init_inv: "init_plugin demo_env plugin_globals = (True, demo_init)"
  by (simp add: demo_init_def init_plugin_def demo_env_def create_logfile_def malloc_node_def
      plugin_globals_def Let_def)

lemma demo_atoi: "atoi ''1119016'' = 1119016"
  by (simp add: atoi_def strtol10_def is_space_def is_digit_def undec_def)

lemma demo_packet_ok: "packet_ok demo_packet 42" "38 \<le> length demo_packet"
  by (simp_all add: packet_ok_def demo_packet_def)

lemma demo_header: "header_of demo_packet =
  \<lparr>src_ip = (10, 0, 0, 2), dst_ip = (10, 0, 0, 1), src_port = 53, dst_port = 80, proto = 17\<rparr>"
  by (simp add: header_of_def quad_def be16_def demo_packet_def nth_append)

subsection \<open>Properties\<close>

text \<open>
  C1: the packet filter means what the monitor commands say. Whatever filter the globals hold,
  after any sequence of set and reset commands (each value given as decimal or dotted decimal
  text) a packet with a full header reaches the sinks exactly when some sink is enabled and its
  header fields match every field that is set.
\<close>

theorem filter_commands_select_packets:
  assumes "filter_rel s f" "38 \<le> length buf"
  shows "\<exists>s'. run_cmds env cs s = Some s' \<and>
     get_packet env buf sz mode s' =
       (if (enable_print_packet s' \<or> enable_log s' \<or> enable_pcap_log s') \<and>
           accepts (fold apply_cmd cs f) (header_of buf)
        then get_logged env buf sz s' else Some s')"
  using run_cmds_filter [OF assms(1), of env cs] get_packet_accepts [OF _ assms(2)] by blast

theorem filter_commands_select_packets_witness:
  "\<exists>s'. run_cmds demo_env [SetDPort 80, SetSIp (10, 0, 0, 9)] plugin_globals = Some s' \<and>
     get_packet demo_env demo_packet 42 0 s' = Some s'"
  using filter_commands_select_packets
    [OF globals_no_filter demo_packet_ok(2), of demo_env "[SetDPort 80, SetSIp (10, 0, 0, 9)]" 42 0]
  by (auto simp: demo_header accepts_def wants_def no_filter_def)

text \<open>
  C2: what the capture file holds. With the capture enabled, a packet the filter accepts appends
  exactly one record to what the file parses to: the time stamp, the packet's first
  \<open>PDU_bytes\<close> bytes (all of it when it is shorter, or when \<open>PDU_bytes\<close> is negative), and its
  full length.
\<close>

theorem capture_appends_record:
  assumes "filter_rel s f" "accepts f (header_of buf)" "packet_ok buf sz"
    and "enable_pcap_log s" "parse_pcap (pcap_file s) = Some rs"
  shows "\<exists>s'. do_nic_send env buf sz s = Some s' \<and>
     parse_pcap (pcap_file s') = Some (rs @ [capture_rec env (PDU_bytes s) buf (unat sz)])"
proof -
  have l: "38 \<le> length buf" "unat sz < 2 ^ 31" "unat sz \<le> length buf"
    using assms(3) by (auto simp: packet_ok_def)
  have "do_nic_send env buf sz s = get_logged env buf sz s"
    using get_packet_accepts [OF assms(1) l(1)] assms(2,4) by (simp add: do_nic_send_def)
  moreover obtain s' where "get_logged env buf sz s = Some s'"
    "pcap_file s' = pcap_file s @ pcap_encode (capture_rec env (PDU_bytes s) buf (unat sz))"
    using get_logged_effect [OF l, of env s] assms(4) by force
  ultimately show ?thesis
    using parse_pcap_append [OF assms(5) log_packet_pcap_rec(2) [OF l(2,3)]] by simp
qed

theorem capture_appends_record_witness:
  "\<exists>s'. do_nic_send demo_env demo_packet 42 (demo_init\<lparr>enable_pcap_log := True\<rparr>) = Some s' \<and>
     parse_pcap (pcap_file s') = Some [capture_rec demo_env 128 demo_packet 42]"
proof -
  let ?s = "demo_init\<lparr>enable_pcap_log := True\<rparr>"
  have eq: "demo_init = (create_logfile plugin_globals)\<lparr>heap := [0 \<mapsto> Uninit], heap_brk := 1, list_head := Some 0\<rparr>"
    by (simp add: demo_init_def init_plugin_def demo_env_def malloc_node_def create_logfile_def
        plugin_globals_def Let_def)
  have "filter_rel ?s no_filter"
    using globals_no_filter by (simp add: eq filter_rel_def create_logfile_def)
  moreover have "accepts no_filter (header_of demo_packet)"
    by (simp add: accepts_def wants_def no_filter_def)
  moreover have "parse_pcap (pcap_file ?s) = Some []"
    using create_logfile_pcap [of plugin_globals] by (simp add: eq)
  moreover have "PDU_bytes ?s = 128" by (simp add: eq create_logfile_def plugin_globals_def)
  ultimately show ?thesis
    using capture_appends_record [of ?s no_filter demo_packet 42 "[]" demo_env] demo_packet_ok(1)
    by simp
qed

text \<open>
  C3: every run of hook calls and monitor commands from a freshly initialised plugin keeps the
  plugin's invariant: the traced files form a list that ends, in allocated memory, and the capture
  file parses.
\<close>

theorem plugin_runs_keep_invariant:
  assumes "init_plugin env0 plugin_globals = (True, s)"
    and "\<forall>(env, c) \<in> set cs. call_ok c"
    and "run_hooks (Some my_interface) cs s = Some s'"
  shows "plugin_inv s'"
  using main_plugin.run_keeps [OF init_plugin_inv [OF assms(1) files_inv_globals] assms(2,3)] .

theorem plugin_runs_keep_invariant_witness:
  "\<exists>s'. run_hooks (Some my_interface)
     [(demo_env, HmpToggle ''enable_pcap_log''), (demo_env, NicSend demo_packet 42)] demo_init = Some s' \<and>
     plugin_inv s'"
proof -
  let ?cs = "[(demo_env, HmpToggle ''enable_pcap_log''), (demo_env, NicSend demo_packet 42)]"
  have ok: "\<forall>(env, c) \<in> set ?cs. call_ok c" using demo_packet_ok by simp
  have i: "plugin_inv demo_init" using init_plugin_inv [OF demo_init_inv files_inv_globals] .
  have "plugin_inv (toggle_plugin ''enable_pcap_log'' demo_init)"
    using toggle_plugin_keeps i by blast
  from get_packet_returns [OF this demo_packet_ok(1)]
  obtain s' where "get_packet demo_env demo_packet 42 1 (toggle_plugin ''enable_pcap_log'' demo_init) = Some s'"
    by blast
  then have r: "run_hooks (Some my_interface) ?cs demo_init = Some s'"
    by (simp add: dispatch_def my_interface_def do_nic_send_def)
  show ?thesis using plugin_runs_keep_invariant [OF demo_init_inv ok r] r by blast
qed

text \<open>A state with one traced file, for the witnesses below.\<close>

lemma demo_fgets: "fgets_uninit 30 ''1119016'' = Some ''1119016''"
  by code_simp

lemma demo_sector: "\<exists>s1. get_sectornum demo_env f s = Some s1 \<and> sector_number s1 = 1119016"
  by (simp add: get_sectornum_def demo_env_def demo_fgets demo_atoi Let_def)

lemma demo_init_plugin_inv: "plugin_inv demo_init" "first_file demo_init"
  using init_plugin_inv [OF demo_init_inv files_inv_globals]
  by (simp_all add: demo_init_def init_plugin_def demo_env_def create_logfile_def malloc_node_def
      plugin_globals_def Let_def)

definition demo_traced :: plugin_state where
  "demo_traced = the (saveFile demo_env ''a.txt'' demo_init)"

lemma demo_traced_table:
  "saveFile demo_env ''a.txt'' demo_init = Some demo_traced"
  "file_table demo_traced [(''a.txt'', 1119016)]" "plugin_inv demo_traced"
proof -
  obtain s1 where s1: "get_sectornum demo_env ''a.txt'' demo_init = Some s1" "sector_number s1 = 1119016"
    using demo_sector by blast
  have inv: "files_inv demo_init" "list_head demo_init \<noteq> None" "table_of demo_init None"
    using demo_init_plugin_inv by (auto simp: plugin_inv_def table_of_def)
  obtain s' where s': "saveFile demo_env ''a.txt'' demo_init = Some s'"
    "table_of s' (save_spec ''a.txt'' (ucast (sector_number s1)) None)"
    using saveFile_refines [OF inv s1(1)] by auto
  then show sv: "saveFile demo_env ''a.txt'' demo_init = Some demo_traced"
    by (simp add: demo_traced_def)
  have "demo_traced = s'" using s' by (simp add: demo_traced_def)
  then show "file_table demo_traced [(''a.txt'', 1119016)]"
    using s' s1 by (simp add: table_of_def save_spec_def)
  show "plugin_inv demo_traced"
    using saveFile_inv [OF sv inv(1,2)] saveFile_frame [OF sv] demo_init_plugin_inv(1)
    by (auto simp: plugin_inv_def)
qed



text \<open>
  C5: tracing a file refines inserting a pair into a list. When the sector lookup succeeds and the
  name fits its buffer, \<open>saveFile\<close> returns, and the linked list it leaves stands for the list
  \<open>save_spec\<close> gives: the first file with a sector other than 0 starts the list, every later one
  goes behind the head.
\<close>

theorem saveFile_refines_list:
  assumes "files_inv s" "list_head s \<noteq> None" "table_of s tab"
    and "get_sectornum env f s = Some s1" "length f < 50"
  shows "\<exists>s'. saveFile env f s = Some s' \<and> files_inv s' \<and>
     table_of s' (save_spec f (ucast (sector_number s1)) tab)"
  using saveFile_refines [OF assms] by blast

theorem saveFile_refines_list_witness:
  "\<exists>s'. saveFile demo_env ''b.txt'' demo_traced = Some s' \<and>
     file_table s' [(''a.txt'', 1119016), (''b.txt'', 1119016)]"
proof -
  obtain s1 where s1: "get_sectornum demo_env ''b.txt'' demo_traced = Some s1" "sector_number s1 = 1119016"
    using demo_sector by blast
  have "files_inv demo_traced" "list_head demo_traced \<noteq> None"
    "table_of demo_traced (Some [(''a.txt'', 1119016)])"
    using demo_traced_table by (auto simp: plugin_inv_def table_of_def)
  from saveFile_refines_list [OF this s1(1)] s1(2) show ?thesis
    by (auto simp: save_spec_def table_of_def)
qed

text \<open>
  C6: the block hook logs a traced sector once per file on the list that starts there, in list
  order, and nothing else; sector 0 is never logged. It returns for every list.
\<close>

theorem block_hook_logs_matches:
  assumes "file_table s ts"
  shows "get_blockio env sn b l dir s =
     Some (if sn = 0 then s
           else fold (\<lambda>(f, d). log_blkio env sn b l dir f) (filter (\<lambda>(f, d). scast d = sn) ts) s)"
  using get_blockio_table [OF assms] by (simp add: log_matching_def)

theorem block_hook_logs_matches_witness:
  "get_blockio demo_env 1119016 0 512 1 demo_traced =
     Some (log_blkio demo_env 1119016 0 512 1 ''a.txt'' demo_traced) \<and>
   get_blockio demo_env 7 0 512 1 demo_traced = Some demo_traced"
  using block_hook_logs_matches [OF demo_traced_table(2), of demo_env 1119016 0 512 1]
    block_hook_logs_matches [OF demo_traced_table(2), of demo_env 7 0 512 1]
  by simp



end
