(* ===== verification/Guest_Memory.thy ===== *)
theory Guest_Memory
  imports C_Library
begin

text \<open>
  The debugger's view of guest memory: \<open>cpu_memory_rw_debug\<close> of \<open>exec.c\<close> (the system
  emulation variant, reading), which translates page by page, and the accessors the TEMU commands
  of \<open>monitor.c\<close> build on it. The CPU's page table walk is a parameter, physical memory is a
  function from addresses to bytes. \<open>TARGET_PAGE_SIZE\<close> is 4096 and the target is little endian
  with 64 bit addresses (x86-64).
\<close>

subsection \<open>Operations\<close>

record guest =
  phys_page :: "u64 \<Rightarrow> u64 option"
  phys_mem :: "u64 \<Rightarrow> byte"

definition page_base :: "u64 \<Rightarrow> u64" where
  "page_base a = a AND NOT 0xFFF"

definition page_offset :: "u64 \<Rightarrow> u64" where
  "page_offset a = a AND 0xFFF"

lemma unat_page_offset: "unat (page_offset a) = unat a mod 4096"
proof -
  have "(0xFFF :: u64) = mask 12" by (simp add: mask_eq_exp_minus_1)
  then have "page_offset a = take_bit 12 a" by (simp add: page_offset_def take_bit_eq_mask)
  then have "unat (page_offset a) = take_bit 12 (unat a)" by (simp add: unsigned_take_bit_eq)
  then show ?thesis by (simp add: take_bit_eq_mod)
qed

lemma page_split: "page_base a + page_offset a = a"
proof -
  have "page_base a AND page_offset a = 0"
    by (rule bit_word_eqI) (simp add: page_base_def page_offset_def bit_simps)
  then have "page_base a + page_offset a = page_base a OR page_offset a"
    by (simp add: disjunctive_add_eq_or)
  also have "\<dots> = a"
    by (rule bit_word_eqI) (auto simp: page_base_def page_offset_def bit_simps)
  finally show ?thesis .
qed

lemma page_room: "unat (page_base a + 0x1000 - a) = 4096 - unat a mod 4096"
proof -
  have "page_base a = a - page_offset a" using page_split [of a] by (simp add: eq_diff_eq)
  then have "page_base a + 0x1000 - a = 0x1000 - page_offset a" by simp
  then have "unat (page_base a + 0x1000 - a) = unat (0x1000 - page_offset a)" by (simp only:)
  moreover have "page_offset a \<le> 0x1000"
    by (simp add: word_le_nat_alt unat_page_offset less_imp_le)
  ultimately show ?thesis by (simp add: unat_sub unat_page_offset)
qed

function cpu_memory_rw_debug :: "guest \<Rightarrow> u64 \<Rightarrow> nat \<Rightarrow> buffer option" where
  "cpu_memory_rw_debug g addr len =
     (if len = 0 then Some []
      else
        let page = page_base addr in
        case phys_page g page of
          None \<Rightarrow> None
        | Some pa \<Rightarrow>
            let l = (let l = unat (page + 0x1000 - addr) in if l > len then len else l);
                phys_addr = pa + page_offset addr
            in map_option ((@) (map (\<lambda>i. phys_mem g (phys_addr + word_of_nat i)) [0..<l]))
                 (cpu_memory_rw_debug g (addr + word_of_nat l) (len - l)))"
  by pat_completeness auto
termination
  by (relation "measure (\<lambda>(g, addr, len). len)") (auto simp: Let_def page_room)

declare cpu_memory_rw_debug.simps [simp del]

text \<open>\<open>my_memory_dump\<close>: the eight bytes at an address, all ones where they cannot be read.
  \<open>my_memory_dump_printd\<close> is the same function under a second name.\<close>

definition my_memory_dump :: "guest \<Rightarrow> u64 \<Rightarrow> u64" where
  "my_memory_dump g addr =
     (case cpu_memory_rw_debug g addr 8 of None \<Rightarrow> - 1 | Some buf \<Rightarrow> u64_of_bytes buf)"

definition my_memory_dump_printd :: "guest \<Rightarrow> u64 \<Rightarrow> u64" where
  "my_memory_dump_printd g addr =
     (case cpu_memory_rw_debug g addr 8 of None \<Rightarrow> - 1 | Some buf \<Rightarrow> u64_of_bytes buf)"

definition printable :: "byte \<Rightarrow> bool" where
  "printable v \<longleftrightarrow> 32 \<le> v \<and> v \<le> 126"

definition char_of_byte :: "byte \<Rightarrow> char" where
  "char_of_byte v = char_of (unat v)"

text \<open>The three text readers ignore the result of the read, so where it fails they use the bytes of
  an uninitialised array: \<open>None\<close>.\<close>

definition my_memory_dump_printc :: "guest \<Rightarrow> u64 \<Rightarrow> string option" where
  "my_memory_dump_printc g addr =
     map_option (map (\<lambda>v. if printable v then char_of_byte v else CHR '' ''))
       (cpu_memory_rw_debug g addr 16)"

definition memory_dump_string :: "guest \<Rightarrow> u64 \<Rightarrow> nat \<Rightarrow> string option" where
  "memory_dump_string g addr len =
     (if len \<le> 1000
      then map_option (\<lambda>buf. map char_of_byte (filter printable buf)) (cpu_memory_rw_debug g addr len)
      else None)"

text \<open>\<open>get_string\<close> appends to an allocation it never wrote: the first \<open>strcat\<close> reads
  indeterminate memory. It returns only when no byte is printable, and then what it returns is the
  unwritten allocation.\<close>

definition get_string :: "guest \<Rightarrow> u64 \<Rightarrow> nat \<Rightarrow> unit option" where
  "get_string g addr len =
     (if len \<le> 1000
      then do {
        buf \<leftarrow> cpu_memory_rw_debug g addr len;
        (if \<exists>v \<in> set buf. printable v then None else Some ())
      }
      else None)"

subsection \<open>Byte-wise translation\<close>

text \<open>What one guest address holds.\<close>

definition vread :: "guest \<Rightarrow> u64 \<Rightarrow> byte option" where
  "vread g a = map_option (\<lambda>p. phys_mem g (p + page_offset a)) (phys_page g (page_base a))"

lemma same_page:
  assumes "i < 4096 - unat a mod 4096"
  shows "page_base (a + word_of_nat i) = page_base a"
    and "page_offset (a + word_of_nat i) = page_offset a + word_of_nat i"
proof -
  have "unat a + i < 2 ^ 64"
  proof -
    have "unat a = 4096 * (unat a div 4096) + unat a mod 4096" by simp
    moreover have "unat a div 4096 < 4503599627370496"
      using unat_less_pow [of a] by (simp add: less_mult_imp_div_less)
    ultimately have "unat a + i < 18446744073709551616" using assms by linarith
    then show ?thesis by simp
  qed
  then have u: "unat (a + word_of_nat i) = unat a + i"
    using assms by (simp add: unat_word_ariths unsigned_of_nat take_bit_nat_eq_self)
  have o: "unat (page_offset a + word_of_nat i) = unat a mod 4096 + i"
    using assms by (simp add: unat_word_ariths unsigned_of_nat take_bit_nat_eq_self unat_page_offset)
  have "(unat a + i) mod 4096 = (unat a mod 4096 + i) mod 4096" by (simp only: mod_add_left_eq)
  also have "\<dots> = unat a mod 4096 + i" using assms by simp
  finally show off: "page_offset (a + word_of_nat i) = page_offset a + word_of_nat i"
    using u o by (simp add: word_unat_eq_iff unat_page_offset)
  have "page_base (a + word_of_nat i) + (page_offset a + word_of_nat i) = a + word_of_nat i"
    using page_split [of "a + word_of_nat i"] off by simp
  also have "\<dots> = page_base a + (page_offset a + word_of_nat i)"
    using page_split [of a] by (simp add: add.assoc [symmetric])
  finally show "page_base (a + word_of_nat i) = page_base a" by (rule add_right_imp_eq)
qed

lemma debug_chunk:
  assumes "len \<noteq> 0" "l = min len (4096 - unat a mod 4096)"
  shows "cpu_memory_rw_debug g a len =
    (case phys_page g (page_base a) of None \<Rightarrow> None
     | Some pa \<Rightarrow> map_option ((@) (map (\<lambda>i. phys_mem g (pa + page_offset a + word_of_nat i)) [0..<l]))
         (cpu_memory_rw_debug g (a + word_of_nat l) (len - l)))"
  using assms by (subst cpu_memory_rw_debug.simps) (auto simp: Let_def page_room min_def split: option.split)

text \<open>The bytes of a range, all of them or none.\<close>

definition vread_range :: "guest \<Rightarrow> u64 \<Rightarrow> nat \<Rightarrow> buffer option" where
  "vread_range g a n =
     (if \<forall>i < n. vread g (a + word_of_nat i) \<noteq> None
      then Some (map (\<lambda>i. the (vread g (a + word_of_nat i))) [0..<n]) else None)"

lemma vread_range_add:
  "vread_range g a (m + n) =
     (case vread_range g a m of None \<Rightarrow> None
      | Some xs \<Rightarrow> map_option ((@) xs) (vread_range g (a + word_of_nat m) n))"
proof -
  define f where "f = (\<lambda>i. vread g (a + word_of_nat i))"
  have lo: "vread_range g a k = (if \<forall>i < k. f i \<noteq> None then Some (map (\<lambda>i. the (f i)) [0..<k]) else None)" for k
    by (simp add: vread_range_def f_def)
  have hi: "vread_range g (a + word_of_nat m) n =
      (if \<forall>i < n. f (m + i) \<noteq> None then Some (map (\<lambda>i. the (f (m + i))) [0..<n]) else None)"
    by (simp add: vread_range_def f_def add.assoc)
  show ?thesis unfolding lo hi all_less_add map_upt_add by simp
qed

lemma vread_range_page:
  assumes "l \<le> 4096 - unat a mod 4096" "0 < l"
  shows "vread_range g a l =
    map_option (\<lambda>pa. map (\<lambda>i. phys_mem g (pa + page_offset a + word_of_nat i)) [0..<l])
      (phys_page g (page_base a))"
proof -
  have v: "vread g (a + word_of_nat i) =
      map_option (\<lambda>pa. phys_mem g (pa + page_offset a + word_of_nat i)) (phys_page g (page_base a))"
    if "i < l" for i
    using same_page [of i a] that assms by (simp add: vread_def add.assoc)
  show ?thesis
  proof (cases "phys_page g (page_base a)")
    case None
    then show ?thesis using v assms(2) by (auto simp: vread_range_def)
  next
    case (Some pa)
    then show ?thesis using v by (simp add: vread_range_def)
  qed
qed

lemma debug_read_range: "cpu_memory_rw_debug g addr len = vread_range g addr len"
proof (induction len arbitrary: addr rule: less_induct)
  case (less len)
  show ?case
  proof (cases "len = 0")
    case True
    then show ?thesis by (simp add: cpu_memory_rw_debug.simps vread_range_def)
  next
    case False
    define l where "l = min len (4096 - unat addr mod 4096)"
    have l: "0 < l" "l \<le> len" "l \<le> 4096 - unat addr mod 4096"
      using False by (auto simp: l_def min_def)
    have "vread_range g addr len = vread_range g addr (l + (len - l))" using l by simp
    also have "\<dots> = cpu_memory_rw_debug g addr len"
      using l False less.IH [of "len - l" "addr + word_of_nat l"]
      by (simp only: vread_range_add vread_range_page debug_chunk [OF False l_def])
         (auto split: option.split)
    finally show ?thesis by simp
  qed
qed

subsection \<open>Properties\<close>

text \<open>
  C16: the debugger's read is byte-wise translation. For every address and length, wrap-around
  included, \<open>cpu_memory_rw_debug\<close> returns; it succeeds exactly when every byte of the range lies
  in a mapped page, and then gives for each byte what its own translated address holds.
\<close>

theorem debug_read_bytewise: "cpu_memory_rw_debug g addr len = vread_range g addr len"
  by (rule debug_read_range)

end
