(* ===== verification/Monitor_Introspect.thy ===== *)
theory Monitor_Introspect
  imports Guest_Memory
begin

text \<open>
  The TEMU commands of \<open>monitor.c\<close> that read the guest's kernel structures: the search for
  the debugger data block (\<open>findKDBG\<close>), the walk over the process list (\<open>PSlist\<close>,
  \<open>getcr3\<close>) with the handle tables of each process, \<open>pool_files\<close>, and the commands
  \<open>pslist\<close>, \<open>getcr3\<close> and \<open>pool_files\<close> themselves. The result of a command is the text it
  prints on the monitor; \<open>None\<close> is a loop that does not end or a read of indeterminate bytes.
  The structure offsets are those of \<open>static_structs_test.h\<close>. Counters that only number
  what is printed are natural numbers.
\<close>

subsection \<open>Offsets and formats\<close>

definition PsActiveProcessHead :: u64 where "PsActiveProcessHead = 0x50"
definition PCB :: u64 where "PCB = 0x188"
definition PID :: u64 where "PID = 0x180"
definition handle_table :: u64 where "handle_table = 0x200"
definition ImageFileName :: u64 where "ImageFileName = 0x2e0"
definition CR3 :: u64 where "CR3 = 0x28"
definition PPID :: u64 where "PPID = 0x290"
definition KDBG_offset :: u64 where "KDBG_offset = 0x10"
definition pool_offset :: u64 where "pool_offset = 0x10"

abbreviation newline :: string where
  "newline \<equiv> [CHR 0x0A]"

text \<open>\<open>%016\<close>\<open>PRIx64\<close> and \<open>%*\<close>\<open>PRId64\<close> with width 4.\<close>

definition hex16 :: "u64 \<Rightarrow> string" where
  "hex16 w = map (\<lambda>i. hex_char (unat (drop_bit (4 * i) w AND 15))) (rev [0..<16])"

definition pad4 :: "string \<Rightarrow> string" where
  "pad4 t = replicate (4 - length t) CHR '' '' @ t"

definition int4 :: "u64 \<Rightarrow> string" where
  "int4 v = pad4 (sdec (sint v))"

subsection \<open>The debugger data block\<close>

definition kdbg_start :: u64 where "kdbg_start = 0xfffff80003b00000"
definition kdbg_end :: u64 where "kdbg_end = 0xfffff80004000000"
definition kdbg_value :: u64 where "kdbg_value = 0x000003404742444b"

partial_function (option) findKDBG_loop :: "guest \<Rightarrow> u64 \<Rightarrow> u64 option" where
  "findKDBG_loop g start_addr =
     (if start_addr \<noteq> kdbg_end
      then let a = start_addr + KDBG_offset
           in if my_memory_dump g a = kdbg_value then Some a else findKDBG_loop g a
      else Some start_addr)"

definition findKDBG :: "guest \<Rightarrow> u64 option" where
  "findKDBG g = map_option (\<lambda>a. a - KDBG_offset) (findKDBG_loop g kdbg_start)"

subsection \<open>The handle tables of a process\<close>

definition handle_line :: "guest \<Rightarrow> u64 \<Rightarrow> string option" where
  "handle_line g handle_entry =
     (let object_addr = (my_memory_dump g handle_entry AND NOT 7) OR 0x8000000000000000;
          object_type = object_addr + 0x18;
          object_body = object_addr + 0x30
      in if my_memory_dump g object_type AND 0xffff = 0x1c
         then let len = unat (my_memory_dump g (object_body + 0x58) AND 0xff)
              in if len \<noteq> 0
                 then map_option
                   (\<lambda>t. ''   '' @ ''length: '' @ dec len @ ''   '' @ t @ newline)
                   (memory_dump_string g (my_memory_dump g (object_body + 0x60)) len)
                 else Some []
         else Some [])"

fun table_lines :: "guest \<Rightarrow> nat \<Rightarrow> u64 \<Rightarrow> string option" where
  "table_lines g 0 handle_entry = Some []"
| "table_lines g (Suc k) handle_entry = do {
     t \<leftarrow> handle_line g handle_entry;
     r \<leftarrow> table_lines g k (handle_entry + 0x10);
     Some (t @ r)
   }"

partial_function (option) level2_lines :: "guest \<Rightarrow> nat \<Rightarrow> u64 \<Rightarrow> string \<Rightarrow> string option" where
  "level2_lines g i handle_entry out =
     (if my_memory_dump g handle_entry \<noteq> 0
      then Option.bind (table_lines g 256 (my_memory_dump g handle_entry))
             (\<lambda>t. level2_lines g (Suc i) (handle_entry + 0x8)
                    (out @ ''Table num: '' @ dec i @ '' '' @ newline @ t))
      else Some out)"

definition process_tables :: "guest \<Rightarrow> u64 \<Rightarrow> string option" where
  "process_tables g table_code =
     (let handle_entry = table_code AND NOT 7
      in if table_code AND 7 = 0 then table_lines g 256 handle_entry
         else if table_code AND 7 = 1 then level2_lines g 1 handle_entry []
         else Some (''Multi-level '' @ newline))"

subsection \<open>The process list\<close>

text \<open>What the loop body of \<open>PSlist\<close> prints for the process whose list entry is at \<open>link\<close>.\<close>

definition process_text :: "guest \<Rightarrow> u64 \<Rightarrow> string option" where
  "process_text g link =
     (let pcb_addr = link - PCB;
          imagefilename = pcb_addr + ImageFileName;
          ppid_value = my_memory_dump_printd g (pcb_addr + PPID);
          pid_value = my_memory_dump_printd g (pcb_addr + PID);
          table_code = my_memory_dump g (my_memory_dump g (pcb_addr + handle_table));
          handle_entry = table_code AND NOT 7
      in do {
        name \<leftarrow> my_memory_dump_printc g imagefilename;
        tables \<leftarrow> process_tables g table_code;
        Some (''0x'' @ hex16 imagefilename @ '' '' @ name @ ''   '' @
              ''PID:'' @ int4 pid_value @ ''   '' @ ''PPID:'' @ int4 ppid_value @ ''   '' @
              ''Table: 0x'' @ hex16 handle_entry @ '' '' @ newline @ tables)
      })"

partial_function (option) PSlist_loop ::
  "guest \<Rightarrow> u64 \<Rightarrow> u64 \<Rightarrow> nat \<Rightarrow> string \<Rightarrow> (nat \<times> string) option" where
  "PSlist_loop g pshead_value link process_num out =
     (if my_memory_dump g link \<noteq> pshead_value
      then let link' = my_memory_dump g link
           in if my_memory_dump_printd g (link' - PCB + PID) = 0 then Some (process_num, out)
              else Option.bind (process_text g link')
                     (\<lambda>t. PSlist_loop g pshead_value link' (Suc process_num) (out @ t))
      else Some (process_num, out))"

definition PSlist_banner :: "guest \<Rightarrow> u64 \<Rightarrow> string option" where
  "PSlist_banner g KDBG_addr =
     (let pshead_addr = KDBG_addr + PsActiveProcessHead;
          pshead_value = my_memory_dump g pshead_addr;
          link = my_memory_dump g pshead_value;
          pcb_addr = link - PCB;
          imagefilename = pcb_addr + ImageFileName;
          ppid_value = my_memory_dump_printd g (pcb_addr + PPID);
          pid_value = my_memory_dump_printd g (pcb_addr + PID);
          handle_table_addr = my_memory_dump g (pcb_addr + handle_table)
      in do {
        name \<leftarrow> my_memory_dump_printc g imagefilename;
        Some (''----------------------------------------------'' @ newline @
              ''KDBG : 0x'' @ hex16 KDBG_addr @ newline @
              ''PsActiveProcessHead : 0x'' @ hex16 pshead_addr @ '' (value:0x'' @ hex16 pshead_value @
              '')'' @ newline @
              ''EPROCESS_ActiveProcessLinks : 0x'' @ hex16 link @ newline @
              ''-----------------Process List-----------------'' @ newline @
              ''0x'' @ hex16 imagefilename @ '' '' @ name @ ''   '' @
              ''PID:'' @ int4 pid_value @ ''   '' @ ''PPID:'' @ int4 ppid_value @ ''   '' @
              ''Handle table: 0x'' @ hex16 handle_table_addr @ '' '' @ newline)
      })"

definition PSlist_footer :: "nat \<Rightarrow> string" where
  "PSlist_footer n = ''-----------------------------------------------'' @ newline @
     ''Total : '' @ dec n @ '' processes '' @ newline"

definition not_found :: string where
  "not_found = ''Could not found KDBG address. '' @ newline"

definition PSlist :: "guest \<Rightarrow> u64 \<Rightarrow> string option" where
  "PSlist g KDBG_addr =
     (if KDBG_addr + KDBG_offset = 0xfffff80004000000 then Some (not_found @ not_found)
      else
        let pshead_value = my_memory_dump g (KDBG_addr + PsActiveProcessHead);
            link = my_memory_dump g pshead_value
        in do {
          banner \<leftarrow> PSlist_banner g KDBG_addr;
          (n, body) \<leftarrow> PSlist_loop g pshead_value link 1 [];
          Some (banner @ body @ PSlist_footer n)
        })"

definition cr3_line :: "guest \<Rightarrow> u64 \<Rightarrow> string option" where
  "cr3_line g link =
     (let pcb_addr = link - PCB;
          imagefilename = pcb_addr + ImageFileName;
          cr3_value = my_memory_dump g (pcb_addr + CR3);
          pid_value = my_memory_dump_printd g (pcb_addr + PID)
      in do {
        name \<leftarrow> my_memory_dump_printc g imagefilename;
        Some (''ProcessName:'' @ name @ ''PID:'' @ int4 pid_value @ ''   '' @
              ''CR3=0x'' @ hex16 cr3_value @ newline)
      })"

partial_function (option) getcr3_loop :: "guest \<Rightarrow> u64 \<Rightarrow> u64 \<Rightarrow> string \<Rightarrow> string option" where
  "getcr3_loop g pshead_value link out =
     (if my_memory_dump g link \<noteq> pshead_value
      then let link' = my_memory_dump g link
           in if my_memory_dump_printd g (link' - PCB + PID) = 0 then Some out
              else Option.bind (cr3_line g link') (\<lambda>t. getcr3_loop g pshead_value link' (out @ t))
      else Some out)"

text \<open>\<open>getcr3\<close>; the virtual CPU's own register is the argument \<open>vcpu_cr3\<close>.\<close>

definition getcr3 :: "guest \<Rightarrow> u64 \<Rightarrow> string option" where
  "getcr3 g vcpu_cr3 = do {
     KDBG_addr \<leftarrow> findKDBG g;
     (if KDBG_addr + KDBG_offset = 0xfffff80004000000
      then Some (''Could not found KDBG address.'' @ newline)
      else
        let pshead_value = my_memory_dump g (KDBG_addr + PsActiveProcessHead);
            link = my_memory_dump g pshead_value
        in do {
          first \<leftarrow> cr3_line g link;
          body \<leftarrow> getcr3_loop g pshead_value link [];
          Some (''-----------------Process CR3-----------------'' @ newline @ first @ body @
                ''---------------------------------------------'' @ newline @
                ''Current vcpu CR3 = 0x'' @ hex16 vcpu_cr3 @ '' (physical addr)'' @ newline)
        })
   }"

partial_function (option) pool_files_loop :: "guest \<Rightarrow> u64 \<Rightarrow> string \<Rightarrow> string option" where
  "pool_files_loop g start_addr out =
     (if start_addr < 0xFFFFFa8003000004
      then Option.bind (my_memory_dump_printc g start_addr)
             (\<lambda>t. pool_files_loop g (start_addr + pool_offset)
                    (out @ ''Dump : 0x'' @ hex16 start_addr @ newline @ t))
      else Some out)"

definition pool_files :: "guest \<Rightarrow> string option" where
  "pool_files g = map_option (\<lambda>t. t @ ''Traverse done!'' @ newline) (pool_files_loop g 0xFFFFFa8000D00004 [])"

subsection \<open>The commands\<close>

definition hmp_pslist :: "guest \<Rightarrow> string option \<Rightarrow> string option" where
  "hmp_pslist g arg =
     (case arg of
        Some a \<Rightarrow>
          if a = ''-h''
          then Some (''List the active process in guest Windows OS. Usage: pslist [-h]'' @ newline)
          else Some (''Unknown command. Usage: pslist [-h]'' @ newline)
      | None \<Rightarrow> Option.bind (findKDBG g) (PSlist g))"

definition hmp_pool_files :: "guest \<Rightarrow> string option \<Rightarrow> string option" where
  "hmp_pool_files g arg =
     (case arg of
        Some a \<Rightarrow>
          if a = ''-h''
          then Some (''List the active process cr3 value in guest Windows OS.'' @ newline)
          else Some (''Unknown command. Usage: getcr3 [-h]'' @ newline)
      | None \<Rightarrow> pool_files g)"

definition hmp_getcr3 :: "guest \<Rightarrow> u64 \<Rightarrow> string option \<Rightarrow> string option" where
  "hmp_getcr3 g vcpu_cr3 arg =
     (case arg of
        Some a \<Rightarrow>
          if a = ''-h'' then Some (''List the files in guest Windows OS.'' @ newline)
          else Some (''Unknown command. Usage: pool_files [-h]'' @ newline)
      | None \<Rightarrow> getcr3 g vcpu_cr3)"

subsection \<open>The search for the data block\<close>

text \<open>The addresses the search looks at, numbered from 0; it looks at 327680 of them after the
  first.\<close>

definition kdbg_addr :: "nat \<Rightarrow> u64" where
  "kdbg_addr n = kdbg_start + word_of_nat (16 * n)"

definition kdbg_hit :: "guest \<Rightarrow> nat \<Rightarrow> bool" where
  "kdbg_hit g n \<longleftrightarrow> my_memory_dump g (kdbg_addr (Suc n)) = kdbg_value"

lemma kdbg_addr_end: "n \<le> 327680 \<Longrightarrow> kdbg_addr n = kdbg_end \<longleftrightarrow> n = 327680"
proof -
  assume n: "n \<le> 327680"
  have "kdbg_end = kdbg_start + word_of_nat 5242880" by (simp add: kdbg_end_def kdbg_start_def)
  then have "kdbg_addr n = kdbg_end \<longleftrightarrow> (word_of_nat (16 * n) :: u64) = word_of_nat 5242880"
    unfolding kdbg_addr_def by (metis add_left_cancel)
  also have "\<dots> \<longleftrightarrow> 16 * n = 5242880"
    using n by (simp only: word_of_nat_eq_iff) (simp add: take_bit_nat_eq_self)
  finally show ?thesis by simp
qed

lemma kdbg_addr_Suc: "kdbg_addr n + KDBG_offset = kdbg_addr (Suc n)"
  by (simp add: kdbg_addr_def KDBG_offset_def)

lemma findKDBG_loop_step:
  assumes "n < 327680"
  shows "findKDBG_loop g (kdbg_addr n) =
    (if kdbg_hit g n then Some (kdbg_addr (Suc n)) else findKDBG_loop g (kdbg_addr (Suc n)))"
  using assms kdbg_addr_end [of n]
  by (subst findKDBG_loop.simps) (simp add: kdbg_addr_Suc kdbg_hit_def Let_def)

lemma findKDBG_loop_end: "findKDBG_loop g (kdbg_addr 327680) = Some (kdbg_addr 327680)"
  using kdbg_addr_end [of 327680] by (subst findKDBG_loop.simps) simp

lemma findKDBG_loop_from:
  assumes "n \<le> 327679"
  shows "\<exists>k. n \<le> k \<and> k \<le> 327679 \<and> findKDBG_loop g (kdbg_addr n) = Some (kdbg_addr (Suc k)) \<and>
    (\<forall>m. n \<le> m \<longrightarrow> m < k \<longrightarrow> \<not> kdbg_hit g m) \<and> (kdbg_hit g k \<or> k = 327679)"
  using assms
proof (induction rule: inc_induct)
  case base
  then show ?case using findKDBG_loop_step [of 327679 g] findKDBG_loop_end [of g]
    by (intro exI [of _ 327679]) simp
next
  case (step n)
  show ?case
  proof (cases "kdbg_hit g n")
    case True
    then show ?thesis using step.hyps findKDBG_loop_step [of n g] by (intro exI [of _ n]) simp
  next
    case False
    from step.IH obtain k where k: "Suc n \<le> k" "k \<le> 327679"
      "findKDBG_loop g (kdbg_addr (Suc n)) = Some (kdbg_addr (Suc k))"
      "\<forall>m. Suc n \<le> m \<longrightarrow> m < k \<longrightarrow> \<not> kdbg_hit g m" "kdbg_hit g k \<or> k = 327679" by blast
    have "\<forall>m. n \<le> m \<longrightarrow> m < k \<longrightarrow> \<not> kdbg_hit g m" using k(4) False by (metis Suc_leI le_neq_implies_less)
    then show ?thesis using k False step.hyps findKDBG_loop_step [of n g] by (intro exI [of _ k]) simp
  qed
qed

subsection \<open>The walk over the process list\<close>

text \<open>\<open>proc_chain g head link ls\<close>: from the entry at \<open>link\<close> the forward pointers visit
  \<open>ls\<close>, none of them the head and none with process id 0, and then reach the head or an entry
  with process id 0.\<close>

fun proc_chain :: "guest \<Rightarrow> u64 \<Rightarrow> u64 \<Rightarrow> u64 list \<Rightarrow> bool" where
  "proc_chain g head link [] \<longleftrightarrow>
     my_memory_dump g link = head \<or> my_memory_dump_printd g (my_memory_dump g link - PCB + PID) = 0"
| "proc_chain g head link (l # ls) \<longleftrightarrow>
     my_memory_dump g link = l \<and> l \<noteq> head \<and> my_memory_dump_printd g (l - PCB + PID) \<noteq> 0 \<and>
     proc_chain g head l ls"

fun texts :: "('a \<Rightarrow> string option) \<Rightarrow> 'a list \<Rightarrow> string option" where
  "texts f [] = Some []"
| "texts f (x # xs) = Option.bind (f x) (\<lambda>t. map_option ((@) t) (texts f xs))"

lemma PSlist_loop_chain:
  "proc_chain g head link ls \<Longrightarrow>
   PSlist_loop g head link n out = map_option (\<lambda>t. (n + length ls, out @ t)) (texts (process_text g) ls)"
proof (induction ls arbitrary: link n out)
  case Nil
  then show ?case by (subst PSlist_loop.simps) (auto simp: Let_def)
next
  case (Cons l ls)
  then show ?case
    by (subst PSlist_loop.simps)
       (cases "process_text g l"; cases "texts (process_text g) ls"; auto simp: Let_def)
qed

lemma getcr3_loop_chain:
  "proc_chain g head link ls \<Longrightarrow>
   getcr3_loop g head link out = map_option ((@) out) (texts (cr3_line g) ls)"
proof (induction ls arbitrary: link out)
  case Nil
  then show ?case by (subst getcr3_loop.simps) (auto simp: Let_def)
next
  case (Cons l ls)
  then show ?case
    by (subst getcr3_loop.simps)
       (cases "cr3_line g l"; cases "texts (cr3_line g) ls"; auto simp: Let_def)
qed

text \<open>A set of entries closed under the forward pointer that misses the head.\<close>

definition closed_cycle :: "guest \<Rightarrow> u64 \<Rightarrow> u64 set \<Rightarrow> bool" where
  "closed_cycle g head L \<longleftrightarrow> (\<forall>l \<in> L. my_memory_dump g l \<in> L \<and> my_memory_dump g l \<noteq> head \<and>
     my_memory_dump_printd g (my_memory_dump g l - PCB + PID) \<noteq> 0)"

lemma PSlist_loop_cycle:
  assumes cyc: "closed_cycle g head L" and "link \<in> L"
  shows "PSlist_loop g head link n out = None"
proof (rule ccontr)
  assume "PSlist_loop g head link n out \<noteq> None"
  then obtain r where ret: "PSlist_loop g head link n out = Some r" by auto
  have "\<not> (g = g \<and> head = head \<and> link \<in> L)"
  proof (rule PSlist_loop.raw_induct
      [where P = "\<lambda>g' h l n out r. \<not> (g' = g \<and> h = head \<and> l \<in> L)", OF _ ret])
    fix f g' h l n out r
    assume IH: "\<And>g' h l n out r. f g' h l n out = Some r \<Longrightarrow> \<not> (g' = g \<and> h = head \<and> l \<in> L)"
      and eq: "(if my_memory_dump g' l \<noteq> h
         then let link' = my_memory_dump g' l
              in if my_memory_dump_printd g' (link' - PCB + PID) = 0 then Some (n, out)
                 else Option.bind (process_text g' link') (\<lambda>t. f g' h link' (Suc n) (out @ t))
         else Some (n, out)) = Some r"
    show "\<not> (g' = g \<and> h = head \<and> l \<in> L)"
    proof
      assume a: "g' = g \<and> h = head \<and> l \<in> L"
      then have "my_memory_dump g l \<in> L" "my_memory_dump g l \<noteq> head"
        "my_memory_dump_printd g (my_memory_dump g l - PCB + PID) \<noteq> 0"
        using cyc by (auto simp: closed_cycle_def)
      with a eq show False by (auto simp: Let_def split: bind_splits dest: IH)
    qed
  qed
  with assms(2) show False by simp
qed

subsection \<open>Properties\<close>

text \<open>A guest with every page mapped onto itself whose memory is zero but for a data block, a list
  head at 0x1000 and two list entries.\<close>

definition demo_mem :: "u64 \<Rightarrow> u64 \<Rightarrow> byte" where
  "demo_mem last_link a =
     (if a = 0xfffff80003b00010 then 0x4b else if a = 0xfffff80003b00011 then 0x44
      else if a = 0xfffff80003b00012 then 0x42 else if a = 0xfffff80003b00013 then 0x47
      else if a = 0xfffff80003b00014 then 0x40 else if a = 0xfffff80003b00015 then 0x03
      else if a = 0xfffff80003b00051 then 0x10
      else if a = 0x1001 then 0x20 else if a = 0x2001 then 0x30
      else if a = 0x3001 then ucast (drop_bit 8 last_link)
      else if a = 0x1ff8 then 4 else if a = 0x2ff8 then 8 else 0)"

definition demo_guest :: "u64 \<Rightarrow> guest" where
  "demo_guest last_link = \<lparr>phys_page = Some, phys_mem = demo_mem last_link\<rparr>"

lemma demo_guest_dump:
  "my_memory_dump (demo_guest w) a = u64_of_bytes (map (\<lambda>i. demo_mem w (a + i)) [0, 1, 2, 3, 4, 5, 6, 7])"
  "my_memory_dump_printd (demo_guest w) a = my_memory_dump (demo_guest w) a"
proof -
  have "vread (demo_guest w) b = Some (demo_mem w b)" for b
    using page_split [of b] by (simp add: vread_def demo_guest_def)
  moreover have "[0..<8] = [0, 1, 2, 3, 4, 5, 6, 7 :: nat]" by code_simp
  ultimately show "my_memory_dump (demo_guest w) a = u64_of_bytes (map (\<lambda>i. demo_mem w (a + i)) [0, 1, 2, 3, 4, 5, 6, 7])"
    by (simp add: my_memory_dump_def debug_read_range vread_range_def)
qed (simp add: my_memory_dump_def my_memory_dump_printd_def)

lemmas demo_guest_eval = demo_guest_dump u64_of_bytes_def demo_mem_def PCB_def PID_def

lemma demo_guest_reads:
  "my_memory_dump (demo_guest w) 0xfffff80003b00010 = kdbg_value"
  "my_memory_dump (demo_guest w) 0xfffff80003b00050 = 0x1000"
  "my_memory_dump (demo_guest w) 0x1000 = 0x2000"
  "my_memory_dump (demo_guest w) 0x2000 = 0x3000"
  "my_memory_dump_printd (demo_guest w) (0x3000 - PCB + PID) = 8"
  "my_memory_dump_printd (demo_guest w) (0x2000 - PCB + PID) = 4"
  by (simp_all add: demo_guest_eval kdbg_value_def)

lemma demo_guest_last: "my_memory_dump (demo_guest 0x1000) 0x3000 = 0x1000" "my_memory_dump (demo_guest 0x2000) 0x3000 = 0x2000"
  by (simp_all add: demo_guest_eval)

lemma demo_guest_kdbg: "findKDBG (demo_guest w) = Some kdbg_start"
proof -
  have z: "kdbg_addr 0 = kdbg_start" "kdbg_addr (Suc 0) = 0xfffff80003b00010"
    by (simp_all add: kdbg_addr_def kdbg_start_def)
  then have "kdbg_hit (demo_guest w) 0" using demo_guest_reads(1) by (simp add: kdbg_hit_def)
  then show ?thesis
    using findKDBG_loop_step [of 0 "demo_guest w"] z
    by (simp add: findKDBG_def KDBG_offset_def kdbg_start_def)
qed

text \<open>
  \<open>findKDBG\<close> always returns, and returns the address 16 bytes before the first match of the
  debugger block's tag in its range; with no match before the end of the range it returns the last
  address but one, which its callers read as "not found".
\<close>

lemma findKDBG_first_match:
  "\<exists>k \<le> 327679. findKDBG g = Some (kdbg_addr k) \<and> (\<forall>m < k. \<not> kdbg_hit g m) \<and>
     (kdbg_hit g k \<or> k = 327679)"
proof -
  obtain k where k: "k \<le> 327679" "findKDBG_loop g (kdbg_addr 0) = Some (kdbg_addr (Suc k))"
    "\<forall>m. m < k \<longrightarrow> \<not> kdbg_hit g m" "kdbg_hit g k \<or> k = 327679"
    using findKDBG_loop_from [of 0 g] by auto
  have "kdbg_addr 0 = kdbg_start" "kdbg_addr (Suc k) - KDBG_offset = kdbg_addr k"
    using kdbg_addr_Suc [of k] by (simp_all add: kdbg_addr_def diff_eq_eq)
  then have "findKDBG g = Some (kdbg_addr k)" using k(2) by (simp add: findKDBG_def)
  then show ?thesis using k by blast
qed

text \<open>
  C17: on a guest whose process list is well formed, \<open>pslist\<close> and \<open>getcr3\<close> print one entry
  for exactly the processes on it, the same ones, in list order, and \<open>pslist\<close> counts them.
\<close>

theorem process_commands_follow_list:
  assumes "findKDBG g = Some kdbg" "kdbg + KDBG_offset \<noteq> 0xfffff80004000000"
    and "head = my_memory_dump g (kdbg + PsActiveProcessHead)" "first = my_memory_dump g head"
    and "proc_chain g head first ls"
  shows "hmp_pslist g None = do {
      banner \<leftarrow> PSlist_banner g kdbg;
      body \<leftarrow> texts (process_text g) ls;
      Some (banner @ body @ PSlist_footer (Suc (length ls))) } \<and>
    hmp_getcr3 g cr3 None = do {
      body \<leftarrow> texts (cr3_line g) (first # ls);
      Some (''-----------------Process CR3-----------------'' @ newline @ body @
            ''---------------------------------------------'' @ newline @
            ''Current vcpu CR3 = 0x'' @ hex16 cr3 @ '' (physical addr)'' @ newline) }"
proof (rule conjI, goal_cases)
  case 1
  show ?case
    using assms PSlist_loop_chain [OF assms(5), of 1 "[]"]
    by (cases "PSlist_banner g kdbg"; cases "texts (process_text g) ls")
       (simp_all add: hmp_pslist_def PSlist_def Let_def)
next
  case 2
  show ?case
    using assms getcr3_loop_chain [OF assms(5), of "[]"]
    by (cases "cr3_line g first"; cases "texts (cr3_line g) ls")
       (simp_all add: hmp_getcr3_def getcr3_def Let_def)
qed

theorem process_commands_follow_list_witness:
  "hmp_pslist (demo_guest 0x1000) None = do {
      banner \<leftarrow> PSlist_banner (demo_guest 0x1000) kdbg_start;
      body \<leftarrow> texts (process_text (demo_guest 0x1000)) [0x3000];
      Some (banner @ body @ PSlist_footer 2) }"
proof -
  let ?g = "demo_guest 0x1000"
  have a: "kdbg_start + KDBG_offset \<noteq> 0xfffff80004000000" by (simp add: kdbg_start_def KDBG_offset_def)
  have b: "0x1000 = my_memory_dump ?g (kdbg_start + PsActiveProcessHead)"
    using demo_guest_reads(2) by (simp add: kdbg_start_def PsActiveProcessHead_def)
  have c: "0x2000 = my_memory_dump ?g 0x1000" using demo_guest_reads(3) by simp
  have d: "proc_chain ?g 0x1000 0x2000 [0x3000]"
    using demo_guest_reads(4,5) [where w = "0x1000"] demo_guest_last(1) by simp
  have "Suc (length [0x3000 :: u64]) = 2" by simp
  then show ?thesis
    using process_commands_follow_list [OF demo_guest_kdbg a b c d, THEN conjunct1] by (simp only:)
qed

text \<open>
  C18: a guest can hang the monitor. If the forward pointers run into a cycle that misses the list
  head (and no process on it has id 0), \<open>pslist\<close> never returns.
\<close>

theorem pslist_hangs_on_cycle:
  assumes "findKDBG g = Some kdbg" "kdbg + KDBG_offset \<noteq> 0xfffff80004000000"
    and "closed_cycle g (my_memory_dump g (kdbg + PsActiveProcessHead)) L"
    and "my_memory_dump g (my_memory_dump g (kdbg + PsActiveProcessHead)) \<in> L"
  shows "hmp_pslist g None = None"
  using assms PSlist_loop_cycle [OF assms(3,4)]
  by (cases "PSlist_banner g kdbg") (simp_all add: hmp_pslist_def PSlist_def Let_def)

theorem pslist_hangs_on_cycle_witness: "hmp_pslist (demo_guest 0x2000) None = None"
proof -
  let ?g = "demo_guest 0x2000"
  have a: "kdbg_start + KDBG_offset \<noteq> 0xfffff80004000000" by (simp add: kdbg_start_def KDBG_offset_def)
  have h: "my_memory_dump ?g (kdbg_start + PsActiveProcessHead) = 0x1000"
    using demo_guest_reads(2) by (simp add: kdbg_start_def PsActiveProcessHead_def)
  have "closed_cycle ?g 0x1000 {0x2000, 0x3000}"
    using demo_guest_reads(4-6) [where w = "0x2000"] demo_guest_last(2) by (simp add: closed_cycle_def)
  then show ?thesis
    using pslist_hangs_on_cycle [OF demo_guest_kdbg a] demo_guest_reads(3) [where w = "0x2000"] h by simp
qed

end
