(* ===== verification/Host_Memory.thy ===== *)
theory Host_Memory
  imports C_Library
begin

text \<open>
  Host memory as a function from addresses to bytes, with the block operations of the C library
  on it. Host addresses and \<open>size_t\<close> counts are natural numbers: a block is memory of the
  process, whose size does not reach \<open>2 ^ 64\<close>. \<open>store_at\<close> is the reference the writes
  are related to: storing a list of bytes at a list of addresses, one after the other.
\<close>

type_synonym host_mem = "nat \<Rightarrow> byte"

text \<open>\<open>memcpy\<close> into host memory, \<open>memcpy\<close> out of it, \<open>memset\<close>.\<close>

definition mem_write :: "host_mem \<Rightarrow> nat \<Rightarrow> buffer \<Rightarrow> host_mem" where
  "mem_write m a bs = (\<lambda>x. if a \<le> x \<and> x < a + length bs then bs ! (x - a) else m x)"

definition mem_read :: "host_mem \<Rightarrow> nat \<Rightarrow> nat \<Rightarrow> buffer" where
  "mem_read m a n = map m [a..<a + n]"

text \<open>Storing a list of bytes at a list of addresses, one after the other.\<close>

primrec store_at :: "nat list \<Rightarrow> buffer \<Rightarrow> host_mem \<Rightarrow> host_mem" where
  "store_at [] bs m = m"
| "store_at (a # as) bs m = (case bs of [] \<Rightarrow> m | b # bs' \<Rightarrow> store_at as bs' (m(a := b)))"

lemma store_at_Nil [simp]: "store_at as [] m = m"
  by (cases as) auto

lemma store_at_append:
  "length as = length bs \<Longrightarrow> store_at (as @ as') (bs @ bs') m = store_at as' bs' (store_at as bs m)"
  by (induction as bs arbitrary: m rule: list_induct2) auto

lemma store_at_outside: "x \<notin> set as \<Longrightarrow> store_at as bs m x = m x"
  by (induction as arbitrary: bs m) (auto split: list.split)

lemma store_at_distinct:
  "length as = length bs \<Longrightarrow> distinct as \<Longrightarrow> map (store_at as bs m) as = bs"
  by (induction as bs arbitrary: m rule: list_induct2) (auto simp: store_at_outside)

lemma mem_write_store_at: "mem_write m a bs = store_at [a..<a + length bs] bs m"
proof (induction bs arbitrary: a m)
  case Nil
  then show ?case by (auto simp: mem_write_def fun_eq_iff)
next
  case (Cons b bs)
  have "mem_write m a (b # bs) = mem_write (m(a := b)) (Suc a) bs"
    by (auto simp: mem_write_def fun_eq_iff nth_Cons' Suc_diff_le)
  moreover have "[a..<a + length (b # bs)] = a # [Suc a..<Suc a + length bs]"
    by (subst upt_conv_Cons) simp_all
  ultimately show ?case by (simp only: Cons.IH store_at.simps list.case)
qed

lemma mem_read_length [simp]: "length (mem_read m a n) = n"
  by (simp add: mem_read_def)

lemma mem_read_0 [simp]: "mem_read m a 0 = []"
  by (simp add: mem_read_def)

lemma mem_read_add: "mem_read m a (j + k) = mem_read m a j @ mem_read m (a + j) k"
proof -
  have "[a..<a + j + k] = [a..<a + j] @ [a + j..<a + j + k]" by (rule upt_add_eq_append) simp
  then show ?thesis by (simp only: mem_read_def add.assoc [symmetric] map_append)
qed

lemma mem_read_nth [simp]: "i < n \<Longrightarrow> mem_read m a n ! i = m (a + i)"
  by (simp add: mem_read_def)

lemma mem_read_mem_write: "mem_read (mem_write m a bs) a (length bs) = bs"
  by (rule nth_equalityI) (auto simp: mem_write_def)

end
