(* ===== verification/Cutils.thy ===== *)
theory Cutils
  imports Host_Memory
begin

text \<open>
  \<open>util/cutils.c\<close> and the inline helpers of \<open>qemu-common.h\<close> and
  \<open>qemu/host-utils.h\<close> it uses: bounded string copies, prefix tests, zero tests of buffers,
  powers of two, unsigned parsing, calendar time and the small ULEB128 code.

  C strings are character lists without their terminator; a destination array is a list of
  characters that is written one element at a time, so a store past its end is \<open>None\<close>.
\<close>

subsection \<open>Zero tests\<close>

text \<open>The vector type is the SSE2 one, 16 bytes; \<open>ALL_EQ\<close> with the zero vector.\<close>

definition vec_size :: nat where "vec_size = 16"

definition can_use_buffer_find_nonzero_offset :: "nat \<Rightarrow> nat \<Rightarrow> bool" where
  "can_use_buffer_find_nonzero_offset buf len \<longleftrightarrow> len mod (8 * vec_size) = 0 \<and> buf mod vec_size = 0"

definition vec_at :: "host_mem \<Rightarrow> nat \<Rightarrow> nat \<Rightarrow> buffer" where
  "vec_at m buf i = mem_read m (buf + i * vec_size) vec_size"

definition vec_or :: "buffer \<Rightarrow> buffer \<Rightarrow> buffer" where
  "vec_or p q = map2 (\<lambda>a b. a OR b) p q"

definition all_eq_zero :: "buffer \<Rightarrow> bool" where
  "all_eq_zero v \<longleftrightarrow> (\<forall>b \<in> set v. b = 0)"

fun first_nonzero :: "host_mem \<Rightarrow> nat \<Rightarrow> nat list \<Rightarrow> nat option" where
  "first_nonzero m buf [] = None"
| "first_nonzero m buf (i # is) =
     (if \<not> all_eq_zero (vec_at m buf i) then Some i else first_nonzero m buf is)"

function find_nonzero_loop :: "host_mem \<Rightarrow> nat \<Rightarrow> nat \<Rightarrow> nat \<Rightarrow> nat" where
  "find_nonzero_loop m buf n i =
     (if i < n
      then let tmp0 = vec_or (vec_at m buf (i + 0)) (vec_at m buf (i + 1));
               tmp1 = vec_or (vec_at m buf (i + 2)) (vec_at m buf (i + 3));
               tmp2 = vec_or (vec_at m buf (i + 4)) (vec_at m buf (i + 5));
               tmp3 = vec_or (vec_at m buf (i + 6)) (vec_at m buf (i + 7));
               tmp01 = vec_or tmp0 tmp1;
               tmp23 = vec_or tmp2 tmp3
           in if \<not> all_eq_zero (vec_or tmp01 tmp23) then i else find_nonzero_loop m buf n (i + 8)
      else i)"
  by pat_completeness auto
termination by (relation "measure (\<lambda>(m, buf, n, i). n - i)") auto

declare find_nonzero_loop.simps [simp del]

definition buffer_find_nonzero_offset :: "host_mem \<Rightarrow> nat \<Rightarrow> nat \<Rightarrow> nat option" where
  "buffer_find_nonzero_offset m buf len =
     (if \<not> can_use_buffer_find_nonzero_offset buf len then None
      else if len = 0 then Some 0
      else case first_nonzero m buf [0..<8] of
             Some i \<Rightarrow> Some (i * vec_size)
           | None \<Rightarrow> Some (find_nonzero_loop m buf (len div vec_size) 8 * vec_size))"

definition long_at :: "host_mem \<Rightarrow> nat \<Rightarrow> nat \<Rightarrow> u64" where
  "long_at m buf i = u64_of_bytes (mem_read m (buf + i * 8) 8)"

function is_zero_loop :: "host_mem \<Rightarrow> nat \<Rightarrow> nat \<Rightarrow> nat \<Rightarrow> bool" where
  "is_zero_loop m buf n i =
     (if i < n
      then if long_at m buf i \<noteq> 0 \<or> long_at m buf (i + 1) \<noteq> 0 \<or> long_at m buf (i + 2) \<noteq> 0 \<or>
              long_at m buf (i + 3) \<noteq> 0
           then False else is_zero_loop m buf n (i + 4)
      else True)"
  by pat_completeness auto
termination by (relation "measure (\<lambda>(m, buf, n, i). n - i)") auto

declare is_zero_loop.simps [simp del]

definition buffer_is_zero :: "host_mem \<Rightarrow> nat \<Rightarrow> nat \<Rightarrow> bool option" where
  "buffer_is_zero m buf len =
     (if can_use_buffer_find_nonzero_offset buf len
      then map_option (\<lambda>off. off = len) (buffer_find_nonzero_offset m buf len)
      else if len mod 32 \<noteq> 0 then None
      else Some (is_zero_loop m buf (len div 8) 0))"

text \<open>Zero tests against the reference: every byte of the block is zero.\<close>

lemma all_eq_zero_append [simp]: "all_eq_zero (p @ q) \<longleftrightarrow> all_eq_zero p \<and> all_eq_zero q"
  by (auto simp: all_eq_zero_def)

lemma all_eq_zero_Nil [simp]: "all_eq_zero []"
  by (simp add: all_eq_zero_def)

lemma all_eq_zero_vec_or [simp]:
  "length p = length q \<Longrightarrow> all_eq_zero (vec_or p q) \<longleftrightarrow> all_eq_zero p \<and> all_eq_zero q"
  by (induction p q rule: list_induct2) (auto simp: all_eq_zero_def vec_or_def or_eq_0_iff)

lemma length_vec [simp]: "length (vec_at m buf i) = 16" "length (vec_or p q) = min (length p) (length q)"
  by (simp_all add: vec_at_def vec_size_def vec_or_def)

lemma le_value_eq_0_iff: "le_value bs = 0 \<longleftrightarrow> all_eq_zero bs"
  by (induction bs) (auto simp: all_eq_zero_def unsigned_eq_0_iff)

lemma le_value_less: "le_value bs < 256 ^ length bs"
proof (induction bs)
  case (Cons b bs)
  have "unat b < 256" using unat_less_pow [of b] by simp
  with Cons show ?case by simp
qed simp

lemma long_at_eq_0_iff: "long_at m buf i = 0 \<longleftrightarrow> all_eq_zero (mem_read m (buf + i * 8) 8)"
proof -
  have "le_value (mem_read m (buf + i * 8) 8) < 2 ^ 64"
    using le_value_less [of "mem_read m (buf + i * 8) 8"] by simp
  then have "unat (long_at m buf i) = le_value (mem_read m (buf + i * 8) 8)"
    by (simp add: long_at_def u64_of_bytes_def unsigned_of_nat take_bit_nat_eq_self)
  then have "long_at m buf i = 0 \<longleftrightarrow> le_value (mem_read m (buf + i * 8) 8) = 0" by (metis unsigned_eq_0_iff)
  then show ?thesis by (simp only: le_value_eq_0_iff)
qed

text \<open>A block of \<open>k\<close> units of \<open>w\<close> bytes is zero when its first units and its rest are.\<close>

lemma zero_units:
  "all_eq_zero (mem_read m (buf + i * w) ((j + k) * w)) \<longleftrightarrow>
   all_eq_zero (mem_read m (buf + i * w) (j * w)) \<and> all_eq_zero (mem_read m (buf + (i + j) * w) (k * w))"
  by (simp add: add_mult_distrib mem_read_add add.assoc)

lemma zero_units_all:
  "all_eq_zero (mem_read m (buf + i * w) (n * w)) \<longleftrightarrow> (\<forall>j < n. all_eq_zero (mem_read m (buf + (i + j) * w) w))"
proof (induction n)
  case (Suc n)
  then show ?case using zero_units [of m buf i w n 1] by (auto simp: less_Suc_eq)
qed simp

lemma all_less_4: "(\<forall>j < 4 :: nat. P j) \<longleftrightarrow> P 0 \<and> P 1 \<and> P 2 \<and> P 3"
  by (auto simp: numeral_eq_Suc All_less_Suc)

lemma all_less_8: "(\<forall>j < 8 :: nat. P j) \<longleftrightarrow> P 0 \<and> P 1 \<and> P 2 \<and> P 3 \<and> P 4 \<and> P 5 \<and> P 6 \<and> P 7"
  by (auto simp: numeral_eq_Suc All_less_Suc)

lemma is_zero_loop_spec:
  "(n - i) mod 4 = 0 \<Longrightarrow> is_zero_loop m buf n i \<longleftrightarrow> all_eq_zero (mem_read m (buf + i * 8) ((n - i) * 8))"
proof (induction m buf n i rule: is_zero_loop.induct)
  case (1 m buf n i)
  show ?case
  proof (cases "i < n")
    case True
    then have n: "n - i = 4 + (n - (i + 4))" "(n - (i + 4)) mod 4 = 0"
      using 1(2) by presburger+
    have four: "all_eq_zero (mem_read m (buf + i * 8) (4 * 8)) \<longleftrightarrow>
      long_at m buf i = 0 \<and> long_at m buf (i + 1) = 0 \<and> long_at m buf (i + 2) = 0 \<and> long_at m buf (i + 3) = 0"
      unfolding zero_units_all all_less_4 long_at_eq_0_iff by simp
    have step: "is_zero_loop m buf n i \<longleftrightarrow> all_eq_zero (mem_read m (buf + i * 8) (4 * 8)) \<and> is_zero_loop m buf n (i + 4)"
      unfolding four using True by (subst is_zero_loop.simps) auto
    show ?thesis
    proof (cases "all_eq_zero (mem_read m (buf + i * 8) (4 * 8))")
      case z: True
      with four have "\<not> (long_at m buf i \<noteq> 0 \<or> long_at m buf (i + 1) \<noteq> 0 \<or> long_at m buf (i + 2) \<noteq> 0 \<or>
              long_at m buf (i + 3) \<noteq> 0)" by blast
      from 1(1) [OF True this n(2)] show ?thesis
        by (subst n(1)) (simp only: step zero_units z)
    next
      case False
      then show ?thesis by (subst n(1)) (simp only: step zero_units simp_thms)
    qed
  next
    case False
    then show ?thesis by (subst is_zero_loop.simps) simp
  qed
qed

lemma vec_at_zero: "all_eq_zero (vec_at m buf i) \<longleftrightarrow> all_eq_zero (mem_read m (buf + i * 16) 16)"
  by (simp add: vec_at_def vec_size_def)

lemma eight_vecs:
  "all_eq_zero (mem_read m (buf + i * 16) (8 * 16)) \<longleftrightarrow>
   all_eq_zero (vec_at m buf i) \<and> all_eq_zero (vec_at m buf (i + 1)) \<and> all_eq_zero (vec_at m buf (i + 2)) \<and>
   all_eq_zero (vec_at m buf (i + 3)) \<and> all_eq_zero (vec_at m buf (i + 4)) \<and> all_eq_zero (vec_at m buf (i + 5)) \<and>
   all_eq_zero (vec_at m buf (i + 6)) \<and> all_eq_zero (vec_at m buf (i + 7))"
  unfolding zero_units_all all_less_8 vec_at_zero by simp

lemma find_nonzero_loop_spec:
  "(n - i) mod 8 = 0 \<Longrightarrow> i \<le> n \<Longrightarrow>
   find_nonzero_loop m buf n i = n \<longleftrightarrow> all_eq_zero (mem_read m (buf + i * 16) ((n - i) * 16))"
proof (induction m buf n i rule: find_nonzero_loop.induct)
  case (1 m buf n i)
  show ?case
  proof (cases "i < n")
    case True
    then have n: "n - i = 8 + (n - (i + 8))" "(n - (i + 8)) mod 8 = 0" "i + 8 \<le> n"
      using 1(2) by presburger+
    have step: "find_nonzero_loop m buf n i =
        (if all_eq_zero (mem_read m (buf + i * 16) (8 * 16)) then find_nonzero_loop m buf n (i + 8) else i)"
      unfolding eight_vecs using True by (subst find_nonzero_loop.simps) (simp add: Let_def)
    show ?thesis
    proof (cases "all_eq_zero (mem_read m (buf + i * 16) (8 * 16))")
      case z: True
      then have "find_nonzero_loop m buf n (i + 8) = n \<longleftrightarrow>
          all_eq_zero (mem_read m (buf + (i + 8) * 16) ((n - (i + 8)) * 16))"
        using eight_vecs [of m buf i] by (intro 1(1) [OF True refl refl refl refl refl refl _ n(2,3)]) simp
      with z show ?thesis by (subst n(1)) (simp only: step zero_units if_True simp_thms)
    next
      case False
      then show ?thesis using True by (subst n(1)) (simp only: step zero_units if_False simp_thms less_not_refl2)
    qed
  next
    case False
    with 1(3) show ?thesis by (subst find_nonzero_loop.simps) simp
  qed
qed

lemma first_nonzero_None: "first_nonzero m buf is = None \<longleftrightarrow> (\<forall>i \<in> set is. all_eq_zero (vec_at m buf i))"
  by (induction "is") auto

lemma first_nonzero_Some:
  "first_nonzero m buf is = Some i \<Longrightarrow> i \<in> set is \<and> \<not> all_eq_zero (vec_at m buf i)"
  by (induction "is") (auto split: if_splits)

lemma buffer_find_nonzero_offset_spec:
  assumes "can_use_buffer_find_nonzero_offset buf len"
  shows "map_option (\<lambda>off. off = len) (buffer_find_nonzero_offset m buf len) = Some (all_eq_zero (mem_read m buf len))"
proof (cases "len = 0")
  case False
  define k where "k = len div 16"
  have k: "len = k * 16" "k mod 8 = 0" "8 \<le> k"
  proof -
    from assms have "128 dvd len" by (simp add: can_use_buffer_find_nonzero_offset_def vec_size_def dvd_eq_mod_eq_0)
    then obtain q where "len = 128 * q" ..
    with False show "len = k * 16" "k mod 8 = 0" "8 \<le> k" unfolding k_def by simp_all
  qed
  have first: "first_nonzero m buf [0..<8] = None \<longleftrightarrow> all_eq_zero (mem_read m (buf + 0 * 16) (8 * 16))"
    unfolding first_nonzero_None zero_units_all vec_at_zero by auto
  have "(k - 8) mod 8 = 0" using k(2,3) by (simp add: mod_if)
  note loop = find_nonzero_loop_spec [OF this k(3), of m buf]
  have split: "all_eq_zero (mem_read m buf len) \<longleftrightarrow>
      first_nonzero m buf [0..<8] = None \<and> find_nonzero_loop m buf k 8 = k"
    using zero_units [of m buf 0 16 8 "k - 8"] k(3) unfolding first loop k(1) by simp
  show ?thesis
  proof (cases "first_nonzero m buf [0..<8]")
    case None
    then show ?thesis
      using assms False split k by (auto simp: buffer_find_nonzero_offset_def vec_size_def)
  next
    case (Some i)
    then show ?thesis
      using assms False split k first_nonzero_Some [OF Some]
      by (auto simp: buffer_find_nonzero_offset_def vec_size_def)
  qed
qed (use assms in \<open>simp add: buffer_find_nonzero_offset_def\<close>)

lemma buffer_is_zero_spec:
  "buffer_is_zero m buf len = (if len mod 32 = 0 then Some (all_eq_zero (mem_read m buf len)) else None)"
proof (cases "can_use_buffer_find_nonzero_offset buf len")
  case True
  then have "128 dvd len" by (simp add: can_use_buffer_find_nonzero_offset_def vec_size_def dvd_eq_mod_eq_0)
  then obtain q where "len = 128 * q" ..
  then have "len mod 32 = 0" by simp
  with True show ?thesis by (simp add: buffer_is_zero_def buffer_find_nonzero_offset_spec)
next
  case False
  moreover have "len div 8 * 8 = len \<and> (len div 8) mod 4 = 0" if "len mod 32 = 0"
  proof -
    from that obtain q where "len = 32 * q" by auto
    then show ?thesis by simp
  qed
  ultimately show ?thesis
    using is_zero_loop_spec [of "len div 8" 0 m buf] by (simp add: buffer_is_zero_def)
qed

subsection \<open>Bounded strings\<close>

definition NUL :: char where "NUL = CHR 0x00"

definition wr :: "'a list \<Rightarrow> nat \<Rightarrow> 'a \<Rightarrow> 'a list option" where
  "wr xs i x = (if i < length xs then Some (xs[i := x]) else None)"

text \<open>\<open>strlen\<close> of the string in an array: undefined without a terminator.\<close>

definition strlen_at :: "char list \<Rightarrow> nat option" where
  "strlen_at buf = (if NUL \<in> set buf then Some (length (takeWhile (\<lambda>c. c \<noteq> NUL) buf)) else None)"

fun qemu_strnlen :: "char list \<Rightarrow> nat \<Rightarrow> nat option" where
  "qemu_strnlen s 0 = Some 0"
| "qemu_strnlen [] (Suc n) = None"
| "qemu_strnlen (c # cs) (Suc n) = (if c = NUL then Some 0 else map_option Suc (qemu_strnlen cs n))"

text \<open>\<open>strpadcpy (buf, buf_size, str, pad)\<close>: the first \<open>buf_size\<close> characters of the array.\<close>

definition strpadcpy :: "char list \<Rightarrow> nat \<Rightarrow> char list \<Rightarrow> char \<Rightarrow> char list option" where
  "strpadcpy buf buf_size str pad =
     do {
       len \<leftarrow> qemu_strnlen str buf_size;
       buf1 \<leftarrow> wr_block buf 0 (take len str);
       wr_block buf1 len (replicate (buf_size - len) pad)
     }"

text \<open>The array is indexed from its start; the destination begins at \<open>off\<close> in it. \<open>str\<close>
  includes the terminator, so running off its end is a read outside the object.\<close>

fun pstrcpy_loop :: "char list \<Rightarrow> nat \<Rightarrow> nat \<Rightarrow> char list \<Rightarrow> char list option" where
  "pstrcpy_loop buf q lim [] = None"
| "pstrcpy_loop buf q lim (c # str) =
     (if c = NUL \<or> lim \<le> q then wr buf q NUL
      else Option.bind (wr buf q c) (\<lambda>buf'. pstrcpy_loop buf' (Suc q) lim str))"

definition pstrcpy :: "char list \<Rightarrow> nat \<Rightarrow> int \<Rightarrow> char list \<Rightarrow> char list option" where
  "pstrcpy buf off buf_size str =
     (if buf_size \<le> 0 then Some buf
      else pstrcpy_loop buf off (off + nat buf_size - 1) str)"

definition pstrcat :: "char list \<Rightarrow> int \<Rightarrow> char list \<Rightarrow> char list option" where
  "pstrcat buf buf_size s =
     do {
       len \<leftarrow> strlen_at buf;
       (if int len < buf_size then pstrcpy buf len (buf_size - int len) s else Some buf)
     }"

text \<open>Prefix tests give the rest of the string; \<open>None\<close> stands for the result 0.\<close>

fun strstart :: "string \<Rightarrow> string \<Rightarrow> string option" where
  "strstart p [] = Some p"
| "strstart [] (q # qs) = None"
| "strstart (p # ps) (q # qs) = (if p \<noteq> q then None else strstart ps qs)"

definition qemu_toupper :: "char \<Rightarrow> char" where
  "qemu_toupper c = (if 97 \<le> (of_char c :: nat) \<and> (of_char c :: nat) \<le> 122
                     then char_of ((of_char c :: nat) - 32) else c)"

fun stristart :: "string \<Rightarrow> string \<Rightarrow> string option" where
  "stristart p [] = Some p"
| "stristart [] (q # qs) = None"
| "stristart (p # ps) (q # qs) = (if qemu_toupper p \<noteq> qemu_toupper q then None else stristart ps qs)"

text \<open>\<open>qemu_strsep (&input, delim)\<close>: the token and the new value of \<open>input\<close>.\<close>

definition qemu_strsep :: "string option \<Rightarrow> string \<Rightarrow> string option \<times> string option" where
  "qemu_strsep input delim =
     (case input of
        None \<Rightarrow> (None, None)
      | Some s \<Rightarrow>
          (case dropWhile (\<lambda>c. c \<notin> set delim) s of
             [] \<Rightarrow> (Some s, None)
           | d # rest \<Rightarrow> (Some (takeWhile (\<lambda>c. c \<notin> set delim) s), Some rest)))"

text \<open>Reading all tokens, as the callers' loops do.\<close>

lemma strsep_rest_shorter: "qemu_strsep (Some s) delim = (t, Some r) \<Longrightarrow> length r < length s"
  using length_dropWhile_le [of "\<lambda>c. c \<notin> set delim" s]
  by (auto simp: qemu_strsep_def split: list.splits)

function strsep_all :: "string \<Rightarrow> string \<Rightarrow> string list" where
  "strsep_all s delim =
     (case qemu_strsep (Some s) delim of
        (Some t, Some r) \<Rightarrow> t # strsep_all r delim
      | (Some t, None) \<Rightarrow> [t]
      | (None, _) \<Rightarrow> [])"
  by pat_completeness auto
termination by (relation "measure (\<lambda>(s, delim). length s)") (auto dest: strsep_rest_shorter [OF sym])

declare strsep_all.simps [simp del]

lemma wr_Some [simp]: "i < length xs \<Longrightarrow> wr xs i x = Some (xs[i := x])"
  by (simp add: wr_def)

lemma update_at_append: "i = length p \<Longrightarrow> d \<noteq> [] \<Longrightarrow> (p @ d)[i := x] = p @ x # tl d"
  by (cases d) (auto simp: list_update_append)

lemma pstrcpy_loop_spec:
  assumes "NUL \<notin> set str" "q \<le> lim" "lim < length p + length d" "q = length p"
  shows "pstrcpy_loop (p @ d) q lim (str @ [NUL]) =
    Some (p @ take (lim - q) str @ NUL # drop (min (lim - q) (length str) + 1) d)"
  using assms
proof (induction str arbitrary: p d q)
  case Nil
  then have "d \<noteq> []" by auto
  with Nil show ?case by (simp add: update_at_append drop_Suc)
next
  case (Cons c str)
  then have d: "d \<noteq> []" by auto
  show ?case
  proof (cases "q = lim")
    case True
    with Cons.prems d show ?thesis by (simp add: update_at_append drop_Suc)
  next
    case False
    have "pstrcpy_loop ((p @ [c]) @ tl d) (Suc q) lim (str @ [NUL]) =
        Some ((p @ [c]) @ take (lim - Suc q) str @ NUL # drop (min (lim - Suc q) (length str) + 1) (tl d))"
      using Cons.prems False d by (intro Cons.IH) (auto simp: neq_Nil_conv)
    moreover have "lim - q = Suc (lim - Suc q)" using False Cons.prems by simp
    ultimately show ?thesis using Cons.prems False d
      by (auto simp: update_at_append drop_Suc)
  qed
qed

lemma strstart_iff: "strstart s v = Some r \<longleftrightarrow> s = v @ r"
  by (induction s v rule: strstart.induct) auto

lemma pstrcpy_spec:
  assumes "NUL \<notin> set str" "0 < n" "n \<le> length d"
  shows "pstrcpy (p @ d) (length p) (int n) (str @ [NUL]) =
    Some (p @ take (n - 1) str @ NUL # drop (min (n - 1) (length str) + 1) d)"
  using assms pstrcpy_loop_spec [of str "length p" "length p + n - 1" p d] by (simp add: pstrcpy_def)

lemma strsep_all_last: "d \<notin> set t \<Longrightarrow> strsep_all t [d] = [t]"
proof -
  assume "d \<notin> set t"
  then have "dropWhile (\<lambda>c. c \<notin> set [d]) t = []" by auto
  then show ?thesis by (subst strsep_all.simps) (simp only: qemu_strsep_def option.case list.case prod.case)
qed

lemma strsep_all_step: "d \<notin> set t \<Longrightarrow> strsep_all (t @ d # r) [d] = t # strsep_all r [d]"
proof -
  assume "d \<notin> set t"
  then have "dropWhile (\<lambda>c. c \<notin> set [d]) (t @ d # r) = d # r" "takeWhile (\<lambda>c. c \<notin> set [d]) (t @ d # r) = t"
    by (induction t) auto
  then show ?thesis by (subst strsep_all.simps) (simp only: qemu_strsep_def option.case list.case prod.case)
qed

subsection \<open>Powers of two\<close>

definition is_power_of_2 :: "u64 \<Rightarrow> bool" where
  "is_power_of_2 value = (if value = 0 then False else value AND (value - 1) = 0)"

text \<open>\<open>clz64\<close>, \<open>clz32\<close>: leading zeros, the width for zero.\<close>

definition clz64 :: "u64 \<Rightarrow> nat" where
  "clz64 v = length (takeWhile (\<lambda>i. \<not> bit v i) (rev [0..<64]))"

definition clz32 :: "u32 \<Rightarrow> nat" where
  "clz32 v = length (takeWhile (\<lambda>i. \<not> bit v i) (rev [0..<32]))"

definition qemu_fls :: "c_int \<Rightarrow> nat" where
  "qemu_fls i = 32 - clz32 i"

text \<open>A shift by the width of the type or more is undefined.\<close>

definition pow2floor :: "u64 \<Rightarrow> u64 option" where
  "pow2floor value =
     (if \<not> is_power_of_2 value
      then if clz64 value < 64 then Some (drop_bit (clz64 value) 0x8000000000000000) else None
      else Some value)"

definition pow2ceil :: "u64 \<Rightarrow> u64" where
  "pow2ceil value =
     (let nlz = clz64 value
      in if is_power_of_2 value then value
         else if nlz = 0 then 0 else push_bit (64 - nlz) 1)"

lemma clz64_top:
  assumes "v \<noteq> 0"
  obtains k where "k < 64" "clz64 v = 63 - k" "2 ^ k \<le> unat v" "unat v < 2 ^ Suc k" "bit v k"
proof -
  from word_top_bit [OF assms] obtain k where "k < 64" "bit v k" "\<forall>j > k. \<not> bit v j"
    "2 ^ k \<le> unat v" "unat v < 2 ^ Suc k" by auto
  moreover from this takeWhile_rev_upt [of k 64 "bit v"] have "clz64 v = 63 - k" by (simp add: clz64_def)
  ultimately show thesis by (intro that)
qed

lemma is_power_of_2_iff: "is_power_of_2 v \<longleftrightarrow> (\<exists>k < 64. v = 2 ^ k)"
proof
  assume p: "is_power_of_2 v"
  then have "v \<noteq> 0" by (auto simp: is_power_of_2_def)
  then obtain k where k: "k < 64" "2 ^ k \<le> unat v" "unat v < 2 ^ Suc k" "bit v k" by (rule clz64_top)
  have "unat v = 2 ^ k"
  proof (rule ccontr)
    assume "unat v \<noteq> 2 ^ k"
    with k(2) have lt: "2 ^ k < unat v" by simp
    then have "unat (v - 1) = unat v - 1" using \<open>v \<noteq> 0\<close> by (simp add: unat_minus_one)
    with lt k(3) have "2 ^ k \<le> unat (v - 1)" "unat (v - 1) < 2 * 2 ^ k" by auto
    then have "unat (v - 1) div 2 ^ k = 1" by (simp add: div_nat_eqI)
    then have "bit (unat (v - 1)) k" by (simp add: bit_iff_odd)
    then have "bit (v - 1) k" by (simp add: bit_unsigned_iff)
    with k(4) have "bit (v AND (v - 1)) k" by (simp add: bit_and_iff)
    moreover have "v AND (v - 1) = 0" using p \<open>v \<noteq> 0\<close> by (simp add: is_power_of_2_def)
    ultimately show False by simp
  qed
  then have "v = 2 ^ k" using k(1) by (simp add: word_unat_eq_iff unat_exp)
  with k(1) show "\<exists>k < 64. v = 2 ^ k" by blast
next
  assume "\<exists>k < 64. v = 2 ^ k"
  then obtain k where k: "k < 64" "v = 2 ^ k" by blast
  have "v \<noteq> 0" using k by (simp add: word_unat_eq_iff unat_exp)
  moreover have "v AND (v - 1) = 0"
    unfolding k(2) mask_eq_exp_minus_1 [symmetric]
    by (rule bit_eqI) (auto simp: bit_simps)
  ultimately show "is_power_of_2 v" by (simp add: is_power_of_2_def)
qed

lemma pow2floor_spec:
  assumes "v \<noteq> 0"
  obtains k where "k < 64" "pow2floor v = Some (2 ^ k)" "2 ^ k \<le> unat v" "unat v < 2 ^ Suc k"
proof -
  from clz64_top [OF assms] obtain k where k: "k < 64" "clz64 v = 63 - k" "2 ^ k \<le> unat v" "unat v < 2 ^ Suc k" .
  have "pow2floor v = Some (2 ^ k)"
  proof (cases "is_power_of_2 v")
    case True
    then obtain j where j: "j < 64" "v = 2 ^ j" by (auto simp: is_power_of_2_iff)
    with k have "(2 :: nat) ^ k \<le> 2 ^ j" "(2 :: nat) ^ j < 2 ^ Suc k" by (simp_all add: unat_exp)
    then have "k \<le> j" "j < Suc k" by (simp_all only: power_increasing_iff power_strict_increasing_iff one_less_numeral_iff semiring_norm)
    then have "j = k" by simp
    with True j show ?thesis by (simp add: pow2floor_def)
  next
    case False
    have "drop_bit (63 - k) (0x8000000000000000 :: u64) = 2 ^ k"
    proof (rule bit_word_eqI)
      fix n assume "n < LENGTH(64)"
      have "(0x8000000000000000 :: u64) = 2 ^ 63" by simp
      then show "bit (drop_bit (63 - k) (0x8000000000000000 :: u64)) n = bit (2 ^ k :: u64) n"
        using k(1) by (simp only: bit_drop_bit_eq comp_def bit_exp_iff) auto
    qed
    with False k(1,2) show ?thesis by (simp add: pow2floor_def)
  qed
  with k show thesis by (intro that)
qed

lemma pow2ceil_spec:
  assumes "v \<noteq> 0" "unat v \<le> 2 ^ 63"
  obtains k where "k < 64" "pow2ceil v = 2 ^ k" "unat v \<le> 2 ^ k" "2 ^ k < 2 * unat v"
proof -
  from clz64_top [OF assms(1)] obtain k where k: "k < 64" "clz64 v = 63 - k" "2 ^ k \<le> unat v" "unat v < 2 ^ Suc k" .
  show thesis
  proof (cases "is_power_of_2 v")
    case True
    then obtain j where j: "j < 64" "v = 2 ^ j" by (auto simp: is_power_of_2_iff)
    with True show thesis by (intro that [of j]) (simp_all add: pow2ceil_def unat_exp)
  next
    case False
    have ne: "unat v \<noteq> 2 ^ k"
      using False k(1) by (auto simp: is_power_of_2_iff word_unat_eq_iff unat_exp)
    have "k < 63"
    proof (rule ccontr)
      assume "\<not> k < 63"
      then have "k = 63" using k(1) by simp
      with k(3) assms(2) ne show False by simp
    qed
    then have "pow2ceil v = 2 ^ Suc k"
      using False k(2) by (simp add: pow2ceil_def Let_def push_bit_eq_mult Suc_diff_Suc)
    with k ne \<open>k < 63\<close> show thesis by (intro that [of "Suc k"]) auto
  qed
qed

lemma pow2ceil_overflow:
  assumes "2 ^ 63 < unat v"
  shows "pow2ceil v = 0"
proof -
  have "v \<noteq> 0" using assms by auto
  then obtain k where k: "k < 64" "clz64 v = 63 - k" "2 ^ k \<le> unat v" "unat v < 2 ^ Suc k" by (rule clz64_top)
  have "(2 :: nat) ^ 63 < 2 ^ Suc k" using assms k(4) by (rule less_trans)
  then have "63 < Suc k" by (simp only: power_strict_increasing_iff one_less_numeral_iff semiring_norm)
  moreover have "\<not> is_power_of_2 v"
  proof
    assume "is_power_of_2 v"
    then obtain j where j: "j < 64" "v = 2 ^ j" by (auto simp: is_power_of_2_iff)
    then have "(2 :: nat) ^ 63 < 2 ^ j" using assms by (simp add: unat_exp)
    then have "63 < j" by (simp only: power_strict_increasing_iff one_less_numeral_iff semiring_norm)
    with j(1) show False by simp
  qed
  ultimately show ?thesis using k(1,2) by (simp add: pow2ceil_def)
qed

subsection \<open>ULEB128 of 14-bit numbers\<close>

definition uleb128_encode_small :: "u32 \<Rightarrow> buffer option" where
  "uleb128_encode_small n =
     (if n > 0x3fff then None
      else if n < 0x80 then Some [ucast n]
      else Some [ucast ((n AND 0x7f) OR 0x80), ucast (drop_bit 7 n)])"

text \<open>The outer \<open>None\<close> is a read past the end of the input; the inner one the result -1.\<close>

definition uleb128_decode_small :: "buffer \<Rightarrow> (nat \<times> u32) option option" where
  "uleb128_decode_small inp =
     do {
       b0 \<leftarrow> rd inp 0;
       (if b0 AND 0x80 = 0 then Some (Some (1, ucast b0))
        else do {
          b1 \<leftarrow> rd inp 1;
          (if b1 AND 0x80 \<noteq> 0 then Some None
           else Some (Some (2, ucast (b0 AND 0x7f) OR push_bit 7 (ucast b1))))
        })
     }"

lemma byte_bit7: "(b AND 0x80 = 0) \<longleftrightarrow> \<not> bit b 7" for b :: byte
proof -
  have "(0x80 :: byte) = 2 ^ 7" by simp
  then show ?thesis by (simp only: and_exp_eq_0_iff_not_bit)
qed

lemma uleb128_roundtrip:
  assumes "uleb128_encode_small n = Some bs"
  shows "uleb128_decode_small (bs @ rest) = Some (Some (length bs, n))"
proof -
  have le: "n \<le> 0x3fff" using assms by (auto simp: uleb128_encode_small_def split: if_splits)
  then have ng: "\<not> 0x3fff < n" by (simp add: not_less)
  have "unat n < 2 ^ 14" using le by (simp add: word_le_nat_alt)
  then have hi: "\<not> bit n j" if "14 \<le> j" for j
    using that bit_unat_ge [of n j] power_increasing [of 14 j "2 :: nat"] by auto
  show ?thesis
  proof (cases "n < 0x80")
    case True
    then have "unat n < 2 ^ 7" by (simp add: word_less_nat_alt)
    then have lo: "\<not> bit n j" if "7 \<le> j" for j
      using that bit_unat_ge [of n j] power_increasing [of 7 j "2 :: nat"] by auto
    have "ucast (ucast n :: byte) = n"
    proof (rule bit_word_eqI)
      fix j
      show "bit (ucast (ucast n :: byte) :: u32) j = bit n j"
        using lo [of j] by (cases "j < 7") (auto simp: bit_unsigned_iff)
    qed
    moreover have "\<not> bit (ucast n :: byte) 7" using lo by (simp add: bit_unsigned_iff)
    moreover have "bs = [ucast n]" using assms ng True by (simp add: uleb128_encode_small_def)
    ultimately show ?thesis by (simp add: uleb128_decode_small_def byte_bit7)
  next
    case False
    let ?b0 = "ucast ((n AND 0x7f) OR 0x80) :: byte" and ?b1 = "ucast (drop_bit 7 n) :: byte"
    have m: "(0x7f :: u32) = mask 7" "(0x80 :: u32) = 2 ^ 7" "(0x7f :: byte) = mask 7" by (simp_all add: mask_eq_exp_minus_1)
    have b128: "bit (0x80 :: int) j \<longleftrightarrow> j = 7" for j
      using bit_exp_iff [of 7 j, where 'a = int] by simp
    have b0: "bit ?b0 7" unfolding m by (simp add: bit_simps)
    have b1: "\<not> bit ?b1 7" using hi [of 14] by (simp add: bit_simps)
    have "ucast (?b0 AND 0x7f) OR push_bit 7 (ucast ?b1 :: u32) = n"
    proof (rule bit_word_eqI)
      fix j assume "j < LENGTH(32)"
      consider "j < 7" | "7 \<le> j" "j < 14" | "14 \<le> j" by linarith
      then show "bit (ucast (?b0 AND 0x7f) OR push_bit 7 (ucast ?b1 :: u32)) j = bit n j"
        unfolding m(1,3) by cases (use hi [of j] in \<open>auto simp: bit_simps b128\<close>)
    qed
    moreover have "bs = [?b0, ?b1]" using assms ng False by (simp add: uleb128_encode_small_def)
    ultimately show ?thesis using b0 b1 by (simp add: uleb128_decode_small_def byte_bit7)
  qed
qed

subsection \<open>Calendar time\<close>













subsection \<open>Unsigned parsing\<close>

datatype errno_t = E_OK | EINVAL | ERANGE

definition digit_val :: "char \<Rightarrow> nat option" where
  "digit_val c =
     (let k = of_char c :: nat
      in if 48 \<le> k \<and> k \<le> 57 then Some (k - 48)
         else if 97 \<le> k \<and> k \<le> 122 then Some (k - 87)
         else if 65 \<le> k \<and> k \<le> 90 then Some (k - 55) else None)"

definition digit_in :: "nat \<Rightarrow> char \<Rightarrow> bool" where
  "digit_in base c = (case digit_val c of None \<Rightarrow> False | Some d \<Rightarrow> d < base)"

definition digits_value :: "nat \<Rightarrow> string \<Rightarrow> nat" where
  "digits_value base ds = foldl (\<lambda>a c. base * a + the (digit_val c)) 0 ds"

text \<open>
  \<open>strtoull\<close> of the C library: blanks, an optional sign, an optional \<open>0x\<close> for bases 0
  and 16, the longest run of digits. The result, the unparsed rest (the whole string when nothing
  was converted) and \<open>errno\<close>.
\<close>

definition base_prefix :: "nat \<Rightarrow> string \<Rightarrow> nat \<times> string" where
  "base_prefix base u =
     (case u of
        z # x # h # r \<Rightarrow>
          if (base = 0 \<or> base = 16) \<and> z = CHR ''0'' \<and> (x = CHR ''x'' \<or> x = CHR ''X'') \<and> digit_in 16 h
          then (16, h # r)
          else if base = 0 then (if z = CHR ''0'' then 8 else 10, u) else (base, u)
      | z # r \<Rightarrow> if base = 0 then (if z = CHR ''0'' then 8 else 10, u) else (base, u)
      | [] \<Rightarrow> (base, u))"

definition split_sign :: "string \<Rightarrow> bool \<times> string" where
  "split_sign t = (case t of
     [] \<Rightarrow> (False, [])
   | c # cs \<Rightarrow> if c = CHR ''-'' then (True, cs) else if c = CHR ''+'' then (False, cs) else (False, t))"

definition strtoull :: "string \<Rightarrow> nat \<Rightarrow> u64 \<times> string \<times> errno_t" where
  "strtoull s base =
     (if base = 1 \<or> 36 < base then (0, s, EINVAL)
      else let (neg, u) = split_sign (dropWhile is_space s);
               (b, v) = base_prefix base u;
               ds = takeWhile (digit_in b) v;
               n = digits_value b ds
           in if ds = [] then (0, s, E_OK)
              else if 2 ^ 64 \<le> n then (- 1, dropWhile (digit_in b) v, ERANGE)
              else (if neg then - word_of_nat n else word_of_nat n, dropWhile (digit_in b) v, E_OK))"

text \<open>\<open>parse_uint\<close>: the return value (negated error code), \<open>*value\<close> and \<open>*endptr\<close>.\<close>

definition parse_uint :: "string option \<Rightarrow> nat \<Rightarrow> errno_t \<times> u64 \<times> string option" where
  "parse_uint so base =
     (case so of
        None \<Rightarrow> (EINVAL, 0, None)
      | Some s \<Rightarrow>
          let (val, endp, errno) = strtoull s base
          in if errno \<noteq> E_OK then (errno, val, Some endp)
             else if length endp = length s then (EINVAL, val, Some endp)
             else case dropWhile is_space s of
                    c # _ \<Rightarrow> if c = CHR ''-'' then (ERANGE, 0, Some endp) else (E_OK, val, Some endp)
                  | [] \<Rightarrow> (E_OK, val, Some endp))"

definition parse_uint_full :: "string option \<Rightarrow> nat \<Rightarrow> errno_t \<times> u64" where
  "parse_uint_full so base =
     (case parse_uint so base of
        (r, val, endp) \<Rightarrow>
          if r \<noteq> E_OK then (r, val)
          else if endp \<noteq> Some [] then (EINVAL, 0) else (E_OK, val))"

lemma digit_in_10: "digit_in 10 c \<longleftrightarrow> is_digit c"
  by (auto simp: digit_in_def digit_val_def is_digit_def Let_def)

lemma digits_value_dec: "digits_value 10 (dec n) = n"
proof -
  have "foldl (\<lambda>a c. 10 * a + the (digit_val c)) k ds = foldl (\<lambda>a c. 10 * a + (of_char c - 48)) k ds"
    if "\<forall>c \<in> set ds. is_digit c" for ds k
    using that by (induction ds arbitrary: k) (auto simp: digit_val_def is_digit_def Let_def)
  then have "digits_value 10 (dec n) = undec (dec n)"
    using dec_digits by (simp add: digits_value_def undec_def)
  then show ?thesis by simp
qed

lemma base_prefix_10: "base_prefix 10 u = (10, u)"
  by (auto simp: base_prefix_def split: list.split)

lemma dec_not_blank_sign:
  "dropWhile is_space (dec n @ r) = dec n @ r" "split_sign (dec n @ r) = (False, dec n @ r)"
proof -
  obtain c cs where d: "dec n = c # cs" "is_digit c" by (rule dec_hd)
  then show "dropWhile is_space (dec n @ r) = dec n @ r" by (simp add: digit_not_space)
  from d show "split_sign (dec n @ r) = (False, dec n @ r)" by (auto simp: split_sign_def is_digit_def)
qed

text \<open>The digits of a printed number are taken whole when no digit follows.\<close>

lemma takeWhile_dec_append:
  "r = [] \<or> \<not> is_digit (hd r) \<Longrightarrow> takeWhile (digit_in 10) (dec n @ r) = dec n"
  "r = [] \<or> \<not> is_digit (hd r) \<Longrightarrow> dropWhile (digit_in 10) (dec n @ r) = r"
  unfolding digit_in_10 using dec_digits [of n]
  by (cases r; simp add: takeWhile_append dropWhile_append)+

lemma strtoull_dec:
  assumes "r = [] \<or> \<not> is_digit (hd r)"
  shows "strtoull (dec n @ r) 10 = (if 2 ^ 64 \<le> n then (- 1, r, ERANGE) else (word_of_nat n, r, E_OK))"
    "strtoull (CHR ''-'' # dec n @ r) 10 = (if 2 ^ 64 \<le> n then (- 1, r, ERANGE) else (- word_of_nat n, r, E_OK))"
  using assms
  by (simp_all add: strtoull_def dec_not_blank_sign base_prefix_10 takeWhile_dec_append digits_value_dec
      split_sign_def [of "CHR ''-'' # _"] is_space_def [of "CHR ''-''"] Let_def)

lemma parse_uint_dec:
  assumes "r = [] \<or> \<not> is_digit (hd r)"
  shows "parse_uint (Some (dec n @ r)) 10 =
    (if 2 ^ 64 \<le> n then (ERANGE, - 1, Some r) else (E_OK, word_of_nat n, Some r))"
    "parse_uint (Some (CHR ''-'' # dec n @ r)) 10 = (ERANGE, if 2 ^ 64 \<le> n then - 1 else 0, Some r)"
proof -
  obtain c cs where d: "dec n = c # cs" "is_digit c" by (rule dec_hd)
  have minus: "(case dec n @ r of [] \<Rightarrow> B | e # _ \<Rightarrow> if e = CHR ''-'' then A else B) = B"
    for A B :: "errno_t \<times> u64 \<times> string option"
    using d by (auto simp: is_digit_def)
  show "parse_uint (Some (dec n @ r)) 10 =
    (if 2 ^ 64 \<le> n then (ERANGE, - 1, Some r) else (E_OK, word_of_nat n, Some r))"
    using minus by (simp add: parse_uint_def strtoull_dec [OF assms] dec_not_blank_sign(1))
  show "parse_uint (Some (CHR ''-'' # dec n @ r)) 10 = (ERANGE, if 2 ^ 64 \<le> n then - 1 else 0, Some r)"
    using assms by (simp add: parse_uint_def strtoull_dec is_space_def [of "CHR ''-''"])
qed

subsection \<open>Properties\<close>

lemma all_eq_zero_replicate: "all_eq_zero bs \<longleftrightarrow> bs = replicate (length bs) 0"
  by (metis all_eq_zero_def in_set_replicate replicate_length_same)

lemma strlen_at_prefix: "NUL \<notin> set p \<Longrightarrow> strlen_at (p @ NUL # d) = Some (length p)"
  by (simp add: strlen_at_def takeWhile_append)

text \<open>
  C19: The unrolled zero tests agree with the definition they optimise: on a block whose length is a
  multiple of 32 \<open>buffer_is_zero\<close> answers whether every byte is zero, whichever of the vector
  and the word loop is taken; on any other length it stops in its assertion.
\<close>

theorem buffer_is_zero_correct:
  "buffer_is_zero m buf len =
     (if len mod 32 = 0 then Some (mem_read m buf len = replicate len 0) else None)"
  using all_eq_zero_replicate [of "mem_read m buf len"] by (simp add: buffer_is_zero_spec)

text \<open>
  C20: Appending with \<open>pstrcat\<close> to a terminated string in an array never writes outside the
  \<open>n\<close> elements it was told about, leaves the array its length, and leaves in it the
  concatenation cut to \<open>n - 1\<close> characters.
\<close>

theorem pstrcat_truncates:
  assumes "NUL \<notin> set old" "NUL \<notin> set new" "length old < n" "n \<le> length buf"
    and "buf = old @ NUL # junk"
  shows "\<exists>rest. pstrcat buf (int n) (new @ [NUL]) = Some (take (n - 1) (old @ new) @ NUL # rest @ drop n buf) \<and>
    length (take (n - 1) (old @ new) @ NUL # rest @ drop n buf) = length buf"
proof -
  let ?k = "n - length old" and ?d = "NUL # junk"
  have "pstrcat buf (int n) (new @ [NUL]) =
      Some (old @ take (?k - 1) new @ NUL # drop (min (?k - 1) (length new) + 1) ?d)"
    using assms pstrcpy_spec [OF assms(2), of ?k ?d old] strlen_at_prefix [OF assms(1), of junk]
    by (simp add: pstrcat_def of_nat_diff)
  moreover have "take (n - 1) (old @ new) = old @ take (?k - 1) new" using assms(3) by (simp add: diff_commute)
  moreover have "drop (min (?k - 1) (length new) + 1) ?d =
      take (?k - (min (?k - 1) (length new) + 1)) (drop (min (?k - 1) (length new) + 1) ?d) @ drop n buf"
  proof -
    have "drop n buf = drop (?k - (min (?k - 1) (length new) + 1)) (drop (min (?k - 1) (length new) + 1) ?d)"
      using assms(3,4) unfolding assms(5) by (simp add: min_def drop_Cons')
    then show ?thesis by (simp only: append_take_drop_id)
  qed
  ultimately show ?thesis
    using assms(3,4,5) by (intro exI [of _ "take (?k - (min (?k - 1) (length new) + 1)) (drop (min (?k - 1) (length new) + 1) ?d)"])
      (auto simp: min_def)
qed

theorem pstrcat_truncates_witness:
  "\<exists>rest. pstrcat [CHR ''a'', NUL, CHR ''x'', CHR ''y''] 3 (''bc'' @ [NUL]) =
      Some (''ab'' @ NUL # rest @ ''y'')"
  using pstrcat_truncates [of "''a''" "''bc''" 3 "[CHR ''a'', NUL, CHR ''x'', CHR ''y'']" "''xy''"]
  by (simp add: NUL_def)



text \<open>
  Parsing inverts printing: \<open>parse_uint_full\<close> reads the decimal text of a number back,
  reports \<open>-ERANGE\<close> exactly when it does not fit 64 bits, and rejects the text with a minus sign.
  The value stored for a negative number that does not fit is \<open>ULLONG_MAX\<close>, not 0.
\<close>

lemma parse_uint_full_decimal:
  "parse_uint_full (Some (dec n)) 10 =
     (if n < 2 ^ 64 then (E_OK, word_of_nat n) else (ERANGE, - 1)) \<and>
   parse_uint_full (Some (CHR ''-'' # dec n)) 10 = (ERANGE, if n < 2 ^ 64 then 0 else - 1)"
  using parse_uint_dec [of "[]" n] by (simp add: parse_uint_full_def not_le)

text \<open>
  Rounding to powers of two: for every value up to \<open>2 ^ 63\<close> other than zero \<open>pow2floor\<close>
  gives the greatest power of two below or at the value and \<open>pow2ceil\<close> the least one above or at
  it; both are within a factor of two.
\<close>

lemma pow2_rounding:
  assumes "v \<noteq> 0" "unat v \<le> 2 ^ 63"
  shows "\<exists>f c. pow2floor v = Some f \<and> is_power_of_2 f \<and> unat f \<le> unat v \<and> unat v < 2 * unat f \<and>
    pow2ceil v = c \<and> is_power_of_2 c \<and> unat v \<le> unat c \<and> unat c < 2 * unat v"
proof -
  obtain j where "j < 64" "pow2floor v = Some (2 ^ j)" "2 ^ j \<le> unat v" "unat v < 2 ^ Suc j"
    using pow2floor_spec [OF assms(1)] .
  moreover obtain k where "k < 64" "pow2ceil v = 2 ^ k" "unat v \<le> 2 ^ k" "2 ^ k < 2 * unat v"
    using pow2ceil_spec [OF assms] .
  ultimately show ?thesis by (auto simp: is_power_of_2_iff unat_exp)
qed

end
