(* ===== verification/Iov.thy ===== *)
theory Iov
  imports Cutils
begin

text \<open>
  \<open>util/iov.c\<close>: scatter/gather vectors. Host memory is a function from addresses to bytes and
  a vector is a list of (base, length) elements, so elements may overlap as in C. Host addresses and
  \<open>size_t\<close> counts are natural numbers: a vector describes memory of the process, whose size does
  not reach \<open>2 ^ 64\<close>. A failed \<open>assert\<close> is \<open>None\<close>.

  Every operation is related to the list of addresses a vector describes, \<open>iov_addrs\<close>: skipping,
  truncating, copying and concatenating vectors is \<open>drop\<close>, \<open>take\<close> and \<open>append\<close>
  on that list.
\<close>

subsection \<open>Operations on plain vectors\<close>

record iovec =
  iov_base :: nat
  iov_len :: nat

primrec iov_from_buf_loop ::
  "iovec list \<Rightarrow> nat \<Rightarrow> nat \<Rightarrow> buffer \<Rightarrow> nat \<Rightarrow> host_mem \<Rightarrow> nat \<times> nat \<times> host_mem" where
  "iov_from_buf_loop [] offset n buf bytes m = (offset, n, m)"
| "iov_from_buf_loop (v # vs) offset n buf bytes m =
     (if offset \<noteq> 0 \<or> n < bytes
      then if offset < iov_len v
           then let len = min (iov_len v - offset) (bytes - n)
                in iov_from_buf_loop vs 0 (n + len) buf bytes
                     (mem_write m (iov_base v + offset) (take len (drop n buf)))
           else iov_from_buf_loop vs (offset - iov_len v) n buf bytes m
      else (offset, n, m))"

definition iov_from_buf :: "iovec list \<Rightarrow> nat \<Rightarrow> buffer \<Rightarrow> nat \<Rightarrow> host_mem \<Rightarrow> (nat \<times> host_mem) option" where
  "iov_from_buf vs offset buf bytes m =
     (case iov_from_buf_loop vs offset 0 buf bytes m of
        (off, n, m') \<Rightarrow> if off = 0 \<and> n \<le> length buf then Some (n, m') else None)"

primrec iov_to_buf_loop ::
  "iovec list \<Rightarrow> nat \<Rightarrow> nat \<Rightarrow> buffer \<Rightarrow> nat \<Rightarrow> host_mem \<Rightarrow> nat \<times> nat \<times> buffer" where
  "iov_to_buf_loop [] offset n buf bytes m = (offset, n, buf)"
| "iov_to_buf_loop (v # vs) offset n buf bytes m =
     (if offset \<noteq> 0 \<or> n < bytes
      then if offset < iov_len v
           then let len = min (iov_len v - offset) (bytes - n)
                in iov_to_buf_loop vs 0 (n + len) (buf @ mem_read m (iov_base v + offset) len) bytes m
           else iov_to_buf_loop vs (offset - iov_len v) n buf bytes m
      else (offset, n, buf))"

text \<open>The buffer is given back as the bytes written to it.\<close>

definition iov_to_buf :: "iovec list \<Rightarrow> nat \<Rightarrow> nat \<Rightarrow> host_mem \<Rightarrow> (nat \<times> buffer) option" where
  "iov_to_buf vs offset bytes m =
     (case iov_to_buf_loop vs offset 0 [] bytes m of
        (off, n, buf) \<Rightarrow> if off = 0 then Some (n, buf) else None)"

primrec iov_memset_loop ::
  "iovec list \<Rightarrow> nat \<Rightarrow> nat \<Rightarrow> byte \<Rightarrow> nat \<Rightarrow> host_mem \<Rightarrow> nat \<times> nat \<times> host_mem" where
  "iov_memset_loop [] offset n c bytes m = (offset, n, m)"
| "iov_memset_loop (v # vs) offset n c bytes m =
     (if offset \<noteq> 0 \<or> n < bytes
      then if offset < iov_len v
           then let len = min (iov_len v - offset) (bytes - n)
                in iov_memset_loop vs 0 (n + len) c bytes
                     (mem_write m (iov_base v + offset) (replicate len c))
           else iov_memset_loop vs (offset - iov_len v) n c bytes m
      else (offset, n, m))"

definition iov_memset :: "iovec list \<Rightarrow> nat \<Rightarrow> c_int \<Rightarrow> nat \<Rightarrow> host_mem \<Rightarrow> (nat \<times> host_mem) option" where
  "iov_memset vs offset fillc bytes m =
     (case iov_memset_loop vs offset 0 (ucast fillc) bytes m of
        (off, n, m') \<Rightarrow> if off = 0 then Some (n, m') else None)"

primrec iov_size :: "iovec list \<Rightarrow> nat" where
  "iov_size [] = 0"
| "iov_size (v # vs) = iov_len v + iov_size vs"

text \<open>\<open>iov_copy\<close>: the destination has room for \<open>cnt\<close> elements; the result is what was
  stored in it.\<close>

primrec iov_copy_loop :: "nat \<Rightarrow> iovec list \<Rightarrow> nat \<Rightarrow> nat \<Rightarrow> nat \<times> iovec list" where
  "iov_copy_loop cnt [] offset bytes = (offset, [])"
| "iov_copy_loop cnt (v # vs) offset bytes =
     (if 0 < cnt \<and> bytes \<noteq> 0
      then if iov_len v \<le> offset then iov_copy_loop cnt vs (offset - iov_len v) bytes
           else let len = min bytes (iov_len v - offset);
                    (off, ds) = iov_copy_loop (cnt - 1) vs 0 (bytes - len)
                in (off, \<lparr>iov_base = iov_base v + offset, iov_len = len\<rparr> # ds)
      else (offset, []))"

definition iov_copy :: "nat \<Rightarrow> iovec list \<Rightarrow> nat \<Rightarrow> nat \<Rightarrow> iovec list option" where
  "iov_copy cnt vs offset bytes =
     (case iov_copy_loop cnt vs offset bytes of (off, ds) \<Rightarrow> if off = 0 then Some ds else None)"

primrec iov_discard_front :: "iovec list \<Rightarrow> nat \<Rightarrow> nat \<times> iovec list" where
  "iov_discard_front [] bytes = (0, [])"
| "iov_discard_front (v # vs) bytes =
     (if bytes < iov_len v
      then (bytes, \<lparr>iov_base = iov_base v + bytes, iov_len = iov_len v - bytes\<rparr> # vs)
      else let (tot, ws) = iov_discard_front vs (bytes - iov_len v) in (iov_len v + tot, ws))"

text \<open>The loop of \<open>iov_discard_back\<close> runs from the last element down, here over the reversed
  list.\<close>

primrec iov_discard_back_loop :: "iovec list \<Rightarrow> nat \<Rightarrow> nat \<times> iovec list" where
  "iov_discard_back_loop [] bytes = (0, [])"
| "iov_discard_back_loop (v # vs) bytes =
     (if bytes < iov_len v
      then (bytes, v\<lparr>iov_len := iov_len v - bytes\<rparr> # vs)
      else let (tot, ws) = iov_discard_back_loop vs (bytes - iov_len v) in (iov_len v + tot, ws))"

definition iov_discard_back :: "iovec list \<Rightarrow> nat \<Rightarrow> nat \<times> iovec list" where
  "iov_discard_back vs bytes =
     (case iov_discard_back_loop (rev vs) bytes of (tot, ws) \<Rightarrow> (tot, rev ws))"

subsection \<open>Operations on \<open>QEMUIOVector\<close>\<close>

text \<open>The array is the list of its first \<open>niov\<close> elements; \<open>nalloc\<close> is \<open>-1\<close> for a
  vector that borrows its array.\<close>

record QEMUIOVector =
  iov :: "iovec list"
  nalloc :: int
  qsize :: nat

definition qemu_iovec_init :: "int \<Rightarrow> QEMUIOVector" where
  "qemu_iovec_init alloc_hint = \<lparr>iov = [], nalloc = alloc_hint, qsize = 0\<rparr>"

definition qemu_iovec_init_external :: "iovec list \<Rightarrow> QEMUIOVector" where
  "qemu_iovec_init_external vs = \<lparr>iov = vs, nalloc = - 1, qsize = iov_size vs\<rparr>"

definition qemu_iovec_add :: "QEMUIOVector \<Rightarrow> nat \<Rightarrow> nat \<Rightarrow> QEMUIOVector option" where
  "qemu_iovec_add q base len =
     (if nalloc q = - 1 then None
      else Some (q\<lparr>nalloc := (if int (length (iov q)) = nalloc q then 2 * nalloc q + 1 else nalloc q),
                   iov := iov q @ [\<lparr>iov_base = base, iov_len = len\<rparr>], qsize := qsize q + len\<rparr>))"

primrec qemu_iovec_concat_loop ::
  "QEMUIOVector \<Rightarrow> iovec list \<Rightarrow> nat \<Rightarrow> nat \<Rightarrow> nat \<Rightarrow> (nat \<times> nat \<times> QEMUIOVector) option" where
  "qemu_iovec_concat_loop dst [] soffset n sbytes = Some (soffset, n, dst)"
| "qemu_iovec_concat_loop dst (v # vs) soffset n sbytes =
     (if n < sbytes
      then if soffset < iov_len v
           then let len = min (iov_len v - soffset) (sbytes - n)
                in Option.bind (qemu_iovec_add dst (iov_base v + soffset) len)
                     (\<lambda>dst'. qemu_iovec_concat_loop dst' vs 0 (n + len) sbytes)
           else qemu_iovec_concat_loop dst vs (soffset - iov_len v) n sbytes
      else Some (soffset, n, dst))"

definition qemu_iovec_concat_iov ::
  "QEMUIOVector \<Rightarrow> iovec list \<Rightarrow> nat \<Rightarrow> nat \<Rightarrow> (nat \<times> QEMUIOVector) option" where
  "qemu_iovec_concat_iov dst src soffset sbytes =
     (if sbytes = 0 then Some (0, dst)
      else if nalloc dst = - 1 then None
      else do {
        (soff, n, dst') \<leftarrow> qemu_iovec_concat_loop dst src soffset 0 sbytes;
        (if soff = 0 then Some (n, dst') else None)
      })"

definition qemu_iovec_concat ::
  "QEMUIOVector \<Rightarrow> QEMUIOVector \<Rightarrow> nat \<Rightarrow> nat \<Rightarrow> QEMUIOVector option" where
  "qemu_iovec_concat dst src soffset sbytes =
     map_option snd (qemu_iovec_concat_iov dst (iov src) soffset sbytes)"

definition qemu_iovec_reset :: "QEMUIOVector \<Rightarrow> QEMUIOVector option" where
  "qemu_iovec_reset q = (if nalloc q = - 1 then None else Some (q\<lparr>iov := [], qsize := 0\<rparr>))"

definition qemu_iovec_destroy :: "QEMUIOVector \<Rightarrow> QEMUIOVector option" where
  "qemu_iovec_destroy q =
     (if nalloc q = - 1 then None
      else map_option (\<lambda>q'. q'\<lparr>iov := [], nalloc := 0\<rparr>) (qemu_iovec_reset q))"

definition qemu_iovec_to_buf :: "QEMUIOVector \<Rightarrow> nat \<Rightarrow> nat \<Rightarrow> host_mem \<Rightarrow> (nat \<times> buffer) option" where
  "qemu_iovec_to_buf q offset bytes m = iov_to_buf (iov q) offset bytes m"

definition qemu_iovec_from_buf ::
  "QEMUIOVector \<Rightarrow> nat \<Rightarrow> buffer \<Rightarrow> nat \<Rightarrow> host_mem \<Rightarrow> (nat \<times> host_mem) option" where
  "qemu_iovec_from_buf q offset buf bytes m = iov_from_buf (iov q) offset buf bytes m"

definition qemu_iovec_memset ::
  "QEMUIOVector \<Rightarrow> nat \<Rightarrow> c_int \<Rightarrow> nat \<Rightarrow> host_mem \<Rightarrow> (nat \<times> host_mem) option" where
  "qemu_iovec_memset q offset fillc bytes m = iov_memset (iov q) offset fillc bytes m"

text \<open>The inner loop of \<open>qemu_iovec_compare\<close>: how many leading bytes of two blocks agree.\<close>

fun match_len :: "buffer \<Rightarrow> buffer \<Rightarrow> nat" where
  "match_len (p # ps) (q # qs) = (if p = q then Suc (match_len ps qs) else 0)"
| "match_len _ _ = 0"

fun qemu_iovec_compare_loop :: "host_mem \<Rightarrow> iovec list \<Rightarrow> iovec list \<Rightarrow> nat \<Rightarrow> int option" where
  "qemu_iovec_compare_loop m [] [] offset = Some (- 1)"
| "qemu_iovec_compare_loop m (v # vs) (w # ws) offset =
     (if iov_len v \<noteq> iov_len w then None
      else let len = match_len (mem_read m (iov_base v) (iov_len v)) (mem_read m (iov_base w) (iov_len w))
           in if len \<noteq> iov_len v then Some (int (offset + len))
              else qemu_iovec_compare_loop m vs ws (offset + len))"
| "qemu_iovec_compare_loop m _ _ offset = None"

definition qemu_iovec_compare :: "host_mem \<Rightarrow> QEMUIOVector \<Rightarrow> QEMUIOVector \<Rightarrow> int option" where
  "qemu_iovec_compare m a b = qemu_iovec_compare_loop m (iov a) (iov b) 0"

text \<open>The byte loop at the end of an element, over its last \<open>iov_len mod 32\<close> bytes.\<close>

primrec qemu_iovec_is_zero_loop :: "host_mem \<Rightarrow> iovec list \<Rightarrow> bool option" where
  "qemu_iovec_is_zero_loop m [] = Some True"
| "qemu_iovec_is_zero_loop m (v # vs) =
     (let offs = iov_len v div 32 * 32
      in do {
           z \<leftarrow> (if offs \<noteq> 0 then buffer_is_zero m (iov_base v) offs else Some True);
           (if \<not> z then Some False
            else if list_ex (\<lambda>b. b \<noteq> 0) (mem_read m (iov_base v + offs) (iov_len v - offs)) then Some False
            else qemu_iovec_is_zero_loop m vs)
         })"

definition qemu_iovec_is_zero :: "host_mem \<Rightarrow> QEMUIOVector \<Rightarrow> bool option" where
  "qemu_iovec_is_zero m q = qemu_iovec_is_zero_loop m (iov q)"

text \<open>
  \<open>qemu_iovec_clone\<close>: an element of the work array is (source index, source element,
  destination address). \<open>qsort\<close> sorts by a key; the C function does not promise an order among
  equal keys, so it is an argument.
\<close>

type_synonym sort_elem = "nat \<times> iovec \<times> nat"

primrec clone_place :: "sort_elem list \<Rightarrow> nat \<Rightarrow> nat \<Rightarrow> sort_elem list" where
  "clone_place [] last_end buf = []"
| "clone_place (e # es) last_end buf =
     (case e of (k, cur, d) \<Rightarrow>
        let rewind = (if last_end \<noteq> 0 \<and> iov_base cur < last_end then last_end - iov_base cur else 0)
        in (k, cur, buf - rewind) #
           clone_place es (max (iov_base cur + iov_len cur) last_end)
             (buf + (iov_len cur - min rewind (iov_len cur))))"

definition sort_elems :: "iovec list \<Rightarrow> sort_elem list" where
  "sort_elems vs = map (\<lambda>k. (k, vs ! k, 0)) [0..<length vs]"

primrec clone_add :: "QEMUIOVector \<Rightarrow> (nat \<times> nat) list \<Rightarrow> QEMUIOVector option" where
  "clone_add dest [] = Some dest"
| "clone_add dest (x # xs) = Option.bind (qemu_iovec_add dest (fst x) (snd x)) (\<lambda>dest'. clone_add dest' xs)"

definition qemu_iovec_clone ::
  "((sort_elem \<Rightarrow> nat) \<Rightarrow> sort_elem list \<Rightarrow> sort_elem list) \<Rightarrow>
   QEMUIOVector \<Rightarrow> QEMUIOVector \<Rightarrow> nat \<Rightarrow> QEMUIOVector option" where
  "qemu_iovec_clone qsort dest src buf =
     (let by_base = qsort (\<lambda>(k, v, d). iov_base v) (sort_elems (iov src));
          by_index = qsort (\<lambda>(k, v, d). k) (clone_place by_base 0 buf)
      in clone_add dest (map2 (\<lambda>(k, v, d) w. (d, iov_len w)) by_index (iov src)))"

definition qemu_iovec_discard_back :: "QEMUIOVector \<Rightarrow> nat \<Rightarrow> QEMUIOVector option" where
  "qemu_iovec_discard_back q bytes =
     (if qsize q < bytes then None
      else case iov_discard_back (iov q) bytes of
             (tot, vs) \<Rightarrow>
               if tot = bytes then Some (q\<lparr>iov := vs, qsize := qsize q - bytes\<rparr>) else None)"

subsection \<open>The bytes a vector describes\<close>

primrec iov_addrs :: "iovec list \<Rightarrow> nat list" where
  "iov_addrs [] = []"
| "iov_addrs (v # vs) = [iov_base v..<iov_base v + iov_len v] @ iov_addrs vs"

lemma length_iov_addrs [simp]: "length (iov_addrs vs) = iov_size vs"
  by (induction vs) auto

lemma iov_addrs_append [simp]: "iov_addrs (vs @ ws) = iov_addrs vs @ iov_addrs ws"
  by (induction vs) auto

lemma iov_size_append [simp]: "iov_size (vs @ ws) = iov_size vs + iov_size ws"
  by (induction vs) auto

lemma iov_size_rev [simp]: "iov_size (rev vs) = iov_size vs"
  by (induction vs) auto

lemma drop_upt_add: "drop k [a..<a + l] = [a + k..<a + l]"
  by simp

lemma take_drop_upt:
  "n \<le> l - k \<Longrightarrow> take n (drop k [a..<a + l]) = [a + k..<a + k + n]"
  by (cases "n = 0") (auto simp: take_upt)

text \<open>An element of which some bytes are used, and what remains after it.\<close>

lemma take_drop_iov_Cons:
  assumes "offset < iov_len v"
  shows "take k (drop offset (iov_addrs (v # vs))) =
    [iov_base v + offset..<iov_base v + offset + min (iov_len v - offset) k] @
    take (k - min (iov_len v - offset) k) (iov_addrs vs)"
proof -
  have "take k (drop offset (iov_addrs (v # vs))) =
        take k [iov_base v + offset..<iov_base v + iov_len v] @ take (k - (iov_len v - offset)) (iov_addrs vs)"
    using assms by simp
  moreover have "take k [iov_base v + offset..<iov_base v + iov_len v] =
        [iov_base v + offset..<iov_base v + offset + min (iov_len v - offset) k]"
    using assms by (cases "k \<le> iov_len v - offset") (auto simp: take_upt)
  moreover have "k - (iov_len v - offset) = k - min (iov_len v - offset) k" by simp
  ultimately show ?thesis by (simp only:)
qed

text \<open>Counting the bytes of one used element and of the elements after it.\<close>

lemma iov_used_count:
  fixes l off b n s :: nat
  assumes "off < l" "n \<le> b"
  shows "n + min (l - off) (b - n) + min (b - n - min (l - off) (b - n)) s = n + min (b - n) (l + s - off)"
  using assms by arith

lemma iov_used_rest: "(b::nat) - (n + k) = b - n - k"
  by simp

lemma iov_to_buf_loop_spec:
  "n \<le> bytes \<Longrightarrow>
   iov_to_buf_loop vs offset n buf bytes m =
     (offset - iov_size vs, n + min (bytes - n) (iov_size vs - offset),
      buf @ map m (take (bytes - n) (drop offset (iov_addrs vs))))"
proof (induction vs arbitrary: offset n buf)
  case (Cons v vs)
  consider (stop) "offset = 0" "n = bytes" | (skip) "\<not> offset < iov_len v" "\<not> (offset = 0 \<and> n = bytes)"
    | (use_v) "offset < iov_len v" "\<not> (offset = 0 \<and> n = bytes)" by blast
  then show ?case
  proof cases
    case skip
    with Cons show ?thesis by auto
  next
    case use_v
    let ?len = "min (iov_len v - offset) (bytes - n)"
    have n: "n + ?len \<le> bytes" using Cons.prems by simp
    have "iov_to_buf_loop (v # vs) offset n buf bytes m =
          iov_to_buf_loop vs 0 (n + ?len) (buf @ mem_read m (iov_base v + offset) ?len) bytes m"
      using use_v Cons.prems by (auto simp: Let_def)
    then show ?thesis
      unfolding take_drop_iov_Cons [OF use_v(1)] Cons.IH [OF n] iov_used_rest mem_read_def
        iov_used_count [OF use_v(1) Cons.prems, of "iov_size vs", symmetric] iov_size.simps
      using use_v(1) by simp
  qed simp
qed simp

lemma iov_from_buf_loop_spec:
  "n \<le> bytes \<Longrightarrow> bytes \<le> length buf \<Longrightarrow>
   iov_from_buf_loop vs offset n buf bytes m =
     (offset - iov_size vs, n + min (bytes - n) (iov_size vs - offset),
      store_at (take (bytes - n) (drop offset (iov_addrs vs))) (drop n buf) m)"
proof (induction vs arbitrary: offset n m)
  case (Cons v vs)
  consider (stop) "offset = 0" "n = bytes" | (skip) "\<not> offset < iov_len v" "\<not> (offset = 0 \<and> n = bytes)"
    | (use_v) "offset < iov_len v" "\<not> (offset = 0 \<and> n = bytes)" by blast
  then show ?case
  proof cases
    case skip
    with Cons show ?thesis by auto
  next
    case use_v
    let ?len = "min (iov_len v - offset) (bytes - n)"
    let ?m = "mem_write m (iov_base v + offset) (take ?len (drop n buf))"
    have n: "n + ?len \<le> bytes" using Cons.prems by simp
    have l: "length (take ?len (drop n buf)) = ?len" using Cons.prems by auto
    have d: "drop n buf = take ?len (drop n buf) @ drop (n + ?len) buf"
      by (simp add: add.commute [of n] flip: drop_drop)
    have "store_at (take (bytes - n) (drop offset (iov_addrs (v # vs)))) (drop n buf) m =
          store_at (take (bytes - n - ?len) (iov_addrs vs)) (drop (n + ?len) buf) ?m"
      unfolding take_drop_iov_Cons [OF use_v(1)]
      by (subst (1) d) (simp only: mem_write_store_at l store_at_append length_upt diff_add_inverse)
    moreover have "iov_from_buf_loop (v # vs) offset n buf bytes m = iov_from_buf_loop vs 0 (n + ?len) buf bytes ?m"
      using use_v Cons.prems by (auto simp: Let_def)
    ultimately show ?thesis
      unfolding Cons.IH [OF n Cons.prems(2)] iov_used_rest iov_size.simps
        iov_used_count [OF use_v(1) Cons.prems(1), of "iov_size vs", symmetric]
      using use_v(1) by simp
  qed simp
qed simp

lemma iov_memset_loop_from_buf:
  "n \<le> bytes \<Longrightarrow>
   iov_memset_loop vs offset n c bytes m = iov_from_buf_loop vs offset n (replicate bytes c) bytes m"
proof (induction vs arbitrary: offset n m)
  case (Cons v vs)
  then show ?case by (simp add: Let_def min_def)
qed simp

text \<open>The three data operations as a whole.\<close>

lemma iov_to_buf_spec:
  "iov_to_buf vs offset bytes m =
     (if offset \<le> iov_size vs
      then Some (min bytes (iov_size vs - offset), map m (take bytes (drop offset (iov_addrs vs))))
      else None)"
  by (simp add: iov_to_buf_def iov_to_buf_loop_spec)

lemma iov_from_buf_spec:
  "bytes \<le> length buf \<Longrightarrow>
   iov_from_buf vs offset buf bytes m =
     (if offset \<le> iov_size vs
      then Some (min bytes (iov_size vs - offset), store_at (take bytes (drop offset (iov_addrs vs))) buf m)
      else None)"
  by (auto simp: iov_from_buf_def iov_from_buf_loop_spec)

lemma iov_memset_spec:
  "iov_memset vs offset fillc bytes m = iov_from_buf vs offset (replicate bytes (ucast fillc)) bytes m"
  by (auto simp: iov_memset_def iov_from_buf_def iov_memset_loop_from_buf iov_from_buf_loop_spec)

text \<open>Vectors made from vectors.\<close>

lemma iov_discard_front_spec:
  "fst (iov_discard_front vs bytes) = min bytes (iov_size vs)"
  "iov_addrs (snd (iov_discard_front vs bytes)) = drop bytes (iov_addrs vs)"
  by (induction vs arbitrary: bytes) (auto simp: Let_def case_prod_beta)

lemma iov_discard_back_loop_spec:
  "fst (iov_discard_back_loop vs bytes) = min bytes (iov_size vs)"
  "iov_addrs (rev (snd (iov_discard_back_loop vs bytes))) = take (iov_size vs - bytes) (iov_addrs (rev vs))"
proof (induction vs arbitrary: bytes)
  case (Cons v vs)
  {
    case 1
    with Cons(1) show ?case by (auto simp: Let_def case_prod_beta)
  next
    case 2
    have "take (iov_len v - bytes) [iov_base v..<iov_base v + iov_len v] =
          [iov_base v..<iov_base v + (iov_len v - bytes)]"
      by (simp add: take_upt)
    with Cons(2) show ?case by (auto simp: Let_def case_prod_beta add.commute)
  }
qed auto

lemma iov_discard_back_spec:
  "fst (iov_discard_back vs bytes) = min bytes (iov_size vs)"
  "iov_addrs (snd (iov_discard_back vs bytes)) = take (iov_size vs - bytes) (iov_addrs vs)"
  using iov_discard_back_loop_spec [of "rev vs" bytes]
  by (simp_all add: iov_discard_back_def case_prod_beta)

lemma iov_copy_loop_spec:
  "length vs \<le> cnt \<Longrightarrow> bytes \<noteq> 0 \<or> offset = 0 \<Longrightarrow>
   fst (iov_copy_loop cnt vs offset bytes) = offset - iov_size vs \<and>
   iov_addrs (snd (iov_copy_loop cnt vs offset bytes)) = take bytes (drop offset (iov_addrs vs))"
proof (induction vs arbitrary: cnt offset bytes)
  case (Cons v vs)
  show ?case
  proof (cases "offset < iov_len v \<and> bytes \<noteq> 0")
    case True
    let ?len = "min (iov_len v - offset) bytes"
    have "fst (iov_copy_loop (cnt - 1) vs 0 (bytes - ?len)) = 0 \<and>
      iov_addrs (snd (iov_copy_loop (cnt - 1) vs 0 (bytes - ?len))) = take (bytes - ?len) (iov_addrs vs)"
      using Cons.IH [of "cnt - 1" "bytes - ?len" 0] Cons.prems by auto
    moreover have "iov_copy_loop cnt (v # vs) offset bytes =
      (fst (iov_copy_loop (cnt - 1) vs 0 (bytes - ?len)),
       \<lparr>iov_base = iov_base v + offset, iov_len = ?len\<rparr> # snd (iov_copy_loop (cnt - 1) vs 0 (bytes - ?len)))"
      using True Cons.prems by (simp add: Let_def case_prod_beta min.commute [of bytes])
    ultimately show ?thesis
      using True take_drop_iov_Cons [of offset v bytes vs] by simp
  next
    case False
    with Cons show ?thesis by auto
  qed
qed auto

lemma iov_copy_loop_length: "length (snd (iov_copy_loop cnt vs offset bytes)) \<le> cnt"
proof (induction vs arbitrary: cnt offset bytes)
  case (Cons v vs)
  show ?case
    using Cons [of "cnt - 1" 0 "bytes - min bytes (iov_len v - offset)"]
      Cons [of cnt "offset - iov_len v" bytes]
    by (auto simp: Let_def case_prod_beta)
qed simp

definition qiov_ok :: "QEMUIOVector \<Rightarrow> bool" where
  "qiov_ok q \<longleftrightarrow> nalloc q \<noteq> - 1 \<and> int (length (iov q)) \<le> nalloc q \<and> qsize q = iov_size (iov q)"

lemma qemu_iovec_add_spec:
  assumes "qiov_ok q"
  shows "\<exists>q'. qemu_iovec_add q base len = Some q' \<and> qiov_ok q' \<and>
    iov_addrs (iov q') = iov_addrs (iov q) @ [base..<base + len]"
  using assms by (auto simp: qemu_iovec_add_def qiov_ok_def)

lemma qemu_iovec_concat_loop_spec:
  "qiov_ok dst \<Longrightarrow> n < sbytes \<or> soffset = 0 \<Longrightarrow> n \<le> sbytes \<Longrightarrow>
   \<exists>dst'. qemu_iovec_concat_loop dst vs soffset n sbytes =
       Some (soffset - iov_size vs, n + min (sbytes - n) (iov_size vs - soffset), dst') \<and>
     qiov_ok dst' \<and>
     iov_addrs (iov dst') = iov_addrs (iov dst) @ take (sbytes - n) (drop soffset (iov_addrs vs))"
proof (induction vs arbitrary: dst soffset n)
  case (Cons v vs)
  consider (stop) "n = sbytes" | (skip) "n < sbytes" "\<not> soffset < iov_len v" | (use_v) "n < sbytes" "soffset < iov_len v"
    using Cons.prems by linarith
  then show ?case
  proof cases
    case stop
    with Cons.prems show ?thesis by simp
  next
    case skip
    with Cons.prems Cons.IH [of dst n "soffset - iov_len v"] show ?thesis by auto
  next
    case use_v
    let ?len = "min (iov_len v - soffset) (sbytes - n)"
    obtain q where q: "qemu_iovec_add dst (iov_base v + soffset) ?len = Some q" "qiov_ok q"
      "iov_addrs (iov q) = iov_addrs (iov dst) @ [iov_base v + soffset..<iov_base v + soffset + ?len]"
      using qemu_iovec_add_spec [OF Cons.prems(1)] by blast
    have n: "n + ?len \<le> sbytes" using Cons.prems by simp
    have "qemu_iovec_concat_loop dst (v # vs) soffset n sbytes = qemu_iovec_concat_loop q vs 0 (n + ?len) sbytes"
      using use_v q(1) by (simp add: Let_def)
    moreover obtain dst' where "qemu_iovec_concat_loop q vs 0 (n + ?len) sbytes =
        Some (0 - iov_size vs, n + ?len + min (sbytes - (n + ?len)) (iov_size vs - 0), dst')" "qiov_ok dst'"
      "iov_addrs (iov dst') = iov_addrs (iov q) @ take (sbytes - (n + ?len)) (drop 0 (iov_addrs vs))"
      using Cons.IH [OF q(2) _ n, of 0] by blast
    ultimately show ?thesis
      unfolding take_drop_iov_Cons [OF use_v(2)] iov_used_rest iov_size.simps
        iov_used_count [OF use_v(2) Cons.prems(3), of "iov_size vs", symmetric]
      using use_v(2) q(3) by simp
  qed
qed auto

lemma qemu_iovec_concat_iov_spec:
  assumes "qiov_ok dst" "soffset \<le> iov_size src"
  shows "\<exists>dst'. qemu_iovec_concat_iov dst src soffset sbytes = Some (min sbytes (iov_size src - soffset), dst') \<and>
    qiov_ok dst' \<and> iov_addrs (iov dst') = iov_addrs (iov dst) @ take sbytes (drop soffset (iov_addrs src))"
proof (cases "sbytes = 0")
  case False
  then obtain dst' where "qemu_iovec_concat_loop dst src soffset 0 sbytes =
      Some (soffset - iov_size src, 0 + min (sbytes - 0) (iov_size src - soffset), dst')" "qiov_ok dst'"
    "iov_addrs (iov dst') = iov_addrs (iov dst) @ take (sbytes - 0) (drop soffset (iov_addrs src))"
    using qemu_iovec_concat_loop_spec [OF assms(1), of 0 sbytes soffset src] by auto
  with False assms show ?thesis by (simp add: qemu_iovec_concat_iov_def qiov_ok_def)
qed (use assms in \<open>simp add: qemu_iovec_concat_iov_def\<close>)

lemma qemu_iovec_reset_spec:
  "qiov_ok q \<Longrightarrow> \<exists>q'. qemu_iovec_reset q = Some q' \<and> qiov_ok q' \<and> iov_addrs (iov q') = []"
  by (auto simp: qemu_iovec_reset_def qiov_ok_def)

lemma iov_discard_back_loop_length: "length (snd (iov_discard_back_loop vs bytes)) \<le> length vs"
  by (induction vs arbitrary: bytes) (auto simp: Let_def case_prod_beta intro: le_SucI)

lemma qemu_iovec_discard_back_spec:
  assumes "qiov_ok q" "bytes \<le> iov_size (iov q)"
  shows "\<exists>q'. qemu_iovec_discard_back q bytes = Some q' \<and> qiov_ok q' \<and>
    iov_addrs (iov q') = take (iov_size (iov q) - bytes) (iov_addrs (iov q))"
proof -
  obtain tot vs where d: "iov_discard_back (iov q) bytes = (tot, vs)" by fastforce
  have vs: "tot = bytes" "iov_addrs vs = take (iov_size (iov q) - bytes) (iov_addrs (iov q))"
    using iov_discard_back_spec [of "iov q" bytes] d assms(2) by simp_all
  have "length vs \<le> length (iov q)"
    using iov_discard_back_loop_length [of "rev (iov q)" bytes] d
    by (auto simp: iov_discard_back_def split: prod.splits)
  moreover have "iov_size vs = iov_size (iov q) - bytes"
    using arg_cong [OF vs(2), of length] by simp
  ultimately show ?thesis
    using assms d vs by (auto simp: qemu_iovec_discard_back_def qiov_ok_def)
qed

text \<open>Comparing two vectors of the same shape.\<close>

lemma match_len_same: "match_len xs xs = length xs"
  by (induction xs) auto

lemma match_len_le: "match_len xs ys \<le> length xs"
  by (induction xs ys rule: match_len.induct) auto

lemma match_len_full: "length xs = length ys \<Longrightarrow> match_len xs ys = length xs \<longleftrightarrow> xs = ys"
  by (induction xs ys rule: list_induct2) auto

lemma match_len_append:
  "length xs = length ys \<Longrightarrow>
   match_len (xs @ xs') (ys @ ys') = (if xs = ys then length xs + match_len xs' ys' else match_len xs ys)"
  by (induction xs ys rule: list_induct2) auto

definition same_shape :: "iovec list \<Rightarrow> iovec list \<Rightarrow> bool" where
  "same_shape vs ws \<longleftrightarrow> map iov_len vs = map iov_len ws"

lemma qemu_iovec_compare_loop_spec:
  "qemu_iovec_compare_loop m vs ws offset = None \<Longrightarrow> \<not> same_shape vs ws"
  "same_shape vs ws \<Longrightarrow>
   qemu_iovec_compare_loop m vs ws offset =
     (let xs = map m (iov_addrs vs); ys = map m (iov_addrs ws)
      in Some (if xs = ys then - 1 else int (offset + match_len xs ys)))"
proof -
  show eq: "qemu_iovec_compare_loop m vs ws offset =
     (let xs = map m (iov_addrs vs); ys = map m (iov_addrs ws)
      in Some (if xs = ys then - 1 else int (offset + match_len xs ys)))" if "same_shape vs ws" for offset
    using that
  proof (induction m vs ws offset rule: qemu_iovec_compare_loop.induct)
    case (2 m v vs w ws offset)
    let ?x = "mem_read m (iov_base v) (iov_len v)" and ?y = "mem_read m (iov_base w) (iov_len w)"
    have len: "iov_len v = iov_len w" "length ?x = length ?y" and sh: "same_shape vs ws"
      using 2(2) by (simp_all add: same_shape_def)
    have split: "map m (iov_addrs (v # vs)) = ?x @ map m (iov_addrs vs)"
      "map m (iov_addrs (w # ws)) = ?y @ map m (iov_addrs ws)"
      by (simp_all add: mem_read_def)
    show ?case
    proof (cases "?x = ?y")
      case True
      then have "match_len ?x ?y = iov_len v" using len(1) by (simp add: match_len_same)
      with True len show ?thesis
        using "2.IH" [OF _ refl] sh unfolding split Let_def match_len_append [OF len(2)] by simp
    next
      case False
      then have "match_len ?x ?y \<noteq> iov_len v" using match_len_full [OF len(2)] by simp
      with False len show ?thesis
        unfolding split Let_def match_len_append [OF len(2)] by auto
    qed
  qed (auto simp: same_shape_def)
  show "\<not> same_shape vs ws" if "qemu_iovec_compare_loop m vs ws offset = None"
    using that eq [of offset] by (auto simp: Let_def)
qed

lemma qemu_iovec_is_zero_loop_spec:
  "qemu_iovec_is_zero_loop m vs = Some (all_eq_zero (map m (iov_addrs vs)))"
proof (induction vs)
  case (Cons v vs)
  let ?o = "iov_len v div 32 * 32"
  have "map m (iov_addrs (v # vs)) =
      mem_read m (iov_base v) ?o @ mem_read m (iov_base v + ?o) (iov_len v - ?o) @ map m (iov_addrs vs)"
    using mem_read_add [of m "iov_base v" ?o "iov_len v - ?o"]
    by (simp add: mem_read_def times_div_less_eq_dividend)
  moreover have "list_ex (\<lambda>b. b \<noteq> 0) bs \<longleftrightarrow> \<not> all_eq_zero bs" for bs :: buffer
    by (auto simp: all_eq_zero_def list_ex_iff)
  ultimately show ?case
    using Cons by (auto simp: buffer_is_zero_spec Let_def)
qed simp

subsection \<open>The contract of a growing vector\<close>

text \<open>
  What the users of a growable vector rely on: it describes a list of addresses, its size field is
  the length of that list, elements are added at the end, and bytes are dropped from the end.
\<close>

locale scatter_list =
  fixes ok :: "'q \<Rightarrow> bool"
    and addrs :: "'q \<Rightarrow> nat list"
    and sz :: "'q \<Rightarrow> nat"
    and add :: "'q \<Rightarrow> nat \<Rightarrow> nat \<Rightarrow> 'q option"
    and discard :: "'q \<Rightarrow> nat \<Rightarrow> 'q option"
    and reset :: "'q \<Rightarrow> 'q option"
  assumes sz_law: "ok q \<Longrightarrow> sz q = length (addrs q)"
    and add_law: "ok q \<Longrightarrow> \<exists>q'. add q b l = Some q' \<and> ok q' \<and> addrs q' = addrs q @ [b..<b + l]"
    and discard_law: "ok q \<Longrightarrow> n \<le> length (addrs q) \<Longrightarrow>
      \<exists>q'. discard q n = Some q' \<and> ok q' \<and> addrs q' = take (length (addrs q) - n) (addrs q)"
    and reset_law: "ok q \<Longrightarrow> \<exists>q'. reset q = Some q' \<and> ok q' \<and> addrs q' = []"
begin

text \<open>Cutting a vector down to whole blocks.\<close>

lemma trim_blocks:
  assumes "ok q"
  shows "\<exists>q'. discard q (sz q mod k) = Some q' \<and> ok q' \<and>
    addrs q' = take (sz q div k * k) (addrs q) \<and> sz q' = sz q div k * k"
proof -
  have le: "sz q mod k \<le> length (addrs q)" using sz_law [OF assms] by simp
  obtain q' where q': "discard q (sz q mod k) = Some q'" "ok q'"
    "addrs q' = take (length (addrs q) - sz q mod k) (addrs q)"
    using discard_law [OF assms le] by blast
  moreover have "length (addrs q) - sz q mod k = sz q div k * k"
    by (simp add: sz_law [OF assms] minus_mod_eq_div_mult)
  ultimately show ?thesis using sz_law [OF q'(2)] sz_law [OF assms] by auto
qed

lemma add_after_reset:
  assumes "ok q"
  shows "\<exists>q' q''. reset q = Some q' \<and> add q' b l = Some q'' \<and> ok q'' \<and> addrs q'' = [b..<b + l]"
proof -
  obtain q' where "reset q = Some q'" "ok q'" "addrs q' = []" using reset_law [OF assms] by blast
  moreover from this(2) obtain q'' where "add q' b l = Some q''" "ok q''" "addrs q'' = addrs q' @ [b..<b + l]"
    using add_law by blast
  ultimately show ?thesis by auto
qed

end

interpretation qiov: scatter_list qiov_ok "\<lambda>q. iov_addrs (iov q)" qsize qemu_iovec_add
  qemu_iovec_discard_back qemu_iovec_reset
proof
  show "qsize q = length (iov_addrs (iov q))" if "qiov_ok q" for q
    using that by (simp add: qiov_ok_def)
  show "\<exists>q'. qemu_iovec_add q b l = Some q' \<and> qiov_ok q' \<and>
      iov_addrs (iov q') = iov_addrs (iov q) @ [b..<b + l]" if "qiov_ok q" for q b l
    using that by (rule qemu_iovec_add_spec)
  show "\<exists>q'. qemu_iovec_discard_back q n = Some q' \<and> qiov_ok q' \<and>
      iov_addrs (iov q') = take (length (iov_addrs (iov q)) - n) (iov_addrs (iov q))"
    if "qiov_ok q" "n \<le> length (iov_addrs (iov q))" for q n
    using that qemu_iovec_discard_back_spec [of q n] by simp
  show "\<exists>q'. qemu_iovec_reset q = Some q' \<and> qiov_ok q' \<and> iov_addrs (iov q') = []" if "qiov_ok q" for q
    using that by (rule qemu_iovec_reset_spec)
qed

end
