(* ===== verification/Iov_Properties.thy ===== *)
theory Iov_Properties
  imports Iov "HOL-Library.Multiset"
begin

text \<open>
  What the scatter/gather vectors of \<open>util/iov.c\<close> promise: writing and reading back,
  windows of a vector, comparison, and the cloning of vectors whose elements overlap.
\<close>

subsection \<open>Cloning\<close>

text \<open>Where a clone puts an element: its addresses move together.\<close>

definition clone_to :: "sort_elem \<Rightarrow> nat \<Rightarrow> nat" where
  "clone_to = (\<lambda>(k, v, d) a. d + (a - iov_base v))"

definition elem_addrs :: "sort_elem \<Rightarrow> nat set" where
  "elem_addrs = (\<lambda>(k, v, d). {iov_base v..<iov_base v + iov_len v})"

definition order_agree :: "sort_elem \<Rightarrow> sort_elem \<Rightarrow> bool" where
  "order_agree r r' \<longleftrightarrow>
     (\<forall>a \<in> elem_addrs r. \<forall>a' \<in> elem_addrs r'. clone_to r a < clone_to r' a' \<longleftrightarrow> a < a') \<and>
     (\<forall>a \<in> elem_addrs r. \<forall>a' \<in> elem_addrs r'. clone_to r' a' < clone_to r a \<longleftrightarrow> a' < a)"

lemma clone_place_keeps:
  "map (\<lambda>(k, v, d). (k, v)) (clone_place es L B) = map (\<lambda>(k, v, d). (k, v)) es"
  by (induction es arbitrary: L B) (auto simp: Let_def split: prod.split)

lemma clone_place_mem: "(k, v, d) \<in> set (clone_place es L B) \<Longrightarrow> \<exists>d'. (k, v, d') \<in> set es"
proof -
  assume "(k, v, d) \<in> set (clone_place es L B)"
  then have "(k, v) \<in> set (map (\<lambda>(k, v, d). (k, v)) (clone_place es L B))" by force
  then show ?thesis unfolding clone_place_keeps by auto
qed

lemma clone_place_at:
  "sorted (map (\<lambda>(k, v, d). iov_base v) es) \<Longrightarrow> \<forall>(k, v, d) \<in> set es. c \<le> iov_base v \<Longrightarrow>
   c \<le> L \<Longrightarrow> L - c \<le> B \<Longrightarrow> (k, v, d) \<in> set (clone_place es L B) \<Longrightarrow>
   (if iov_base v < L then d + L = iov_base v + B else B \<le> d)"
proof (induction es arbitrary: L B c)
  case (Cons e es)
  obtain k0 cur d0 where e: "e = (k0, cur, d0)" by (cases e)
  let ?r = "if L \<noteq> 0 \<and> iov_base cur < L then L - iov_base cur else 0"
  let ?L = "max (iov_base cur + iov_len cur) L" and ?B = "B + (iov_len cur - min ?r (iov_len cur))"
  let ?c = "if iov_base cur < L then c else iov_base cur"
  have c: "c \<le> iov_base cur" using Cons.prems(2) e by simp
  have tl: "sorted (map (\<lambda>(k, v, d). iov_base v) es)" "\<forall>(k, v, d) \<in> set es. iov_base cur \<le> iov_base v"
    using Cons.prems(1) e by auto
  then have c': "\<forall>(k, v, d) \<in> set es. ?c \<le> iov_base v" using c by fastforce
  have cond: "?c \<le> ?L" "?L - ?c \<le> ?B" using c Cons.prems(3,4) by (auto simp: min_def max_def)
  have "(k, v, d) = (k0, cur, B - ?r) \<or> (k, v, d) \<in> set (clone_place es ?L ?B)"
    using Cons.prems(5) e by (simp add: Let_def)
  then show ?case
  proof
    assume "(k, v, d) = (k0, cur, B - ?r)"
    then show ?thesis using c Cons.prems(3,4) by auto
  next
    assume m: "(k, v, d) \<in> set (clone_place es ?L ?B)"
    have "if iov_base v < ?L then d + ?L = iov_base v + ?B else ?B \<le> d"
      by (rule Cons.IH [OF tl(1) c' cond m])
    moreover have "iov_base cur \<le> iov_base v" using clone_place_mem [OF m] tl(2) by auto
    ultimately show ?thesis using c Cons.prems(3,4) by (auto simp: min_def max_def split: if_splits)
  qed
qed simp

lemma order_agree_same: "d' + iov_base v = d + iov_base v' \<Longrightarrow> order_agree (k, v, d) (k', v', d')"
  by (auto simp: order_agree_def elem_addrs_def clone_to_def)

lemma order_agree_apart:
  "iov_base v + iov_len v \<le> iov_base v' \<Longrightarrow> d + iov_len v \<le> d' \<Longrightarrow> order_agree (k, v, d) (k', v', d')"
  by (auto simp: order_agree_def elem_addrs_def clone_to_def)

lemma clone_place_agree:
  "sorted (map (\<lambda>(k, v, d). iov_base v) es) \<Longrightarrow> \<forall>(k, v, d) \<in> set es. c \<le> iov_base v \<Longrightarrow>
   c \<le> L \<Longrightarrow> L - c \<le> B \<Longrightarrow> sorted_wrt order_agree (clone_place es L B)"
proof (induction es arbitrary: L B c)
  case (Cons e es)
  obtain k0 cur d0 where e: "e = (k0, cur, d0)" by (cases e)
  let ?r = "if L \<noteq> 0 \<and> iov_base cur < L then L - iov_base cur else 0"
  let ?L = "max (iov_base cur + iov_len cur) L" and ?B = "B + (iov_len cur - min ?r (iov_len cur))"
  let ?c = "if iov_base cur < L then c else iov_base cur"
  have c: "c \<le> iov_base cur" using Cons.prems(2) e by simp
  have tl: "sorted (map (\<lambda>(k, v, d). iov_base v) es)" "\<forall>(k, v, d) \<in> set es. iov_base cur \<le> iov_base v"
    using Cons.prems(1) e by auto
  then have c': "\<forall>(k, v, d) \<in> set es. ?c \<le> iov_base v" using c by fastforce
  have cond: "?c \<le> ?L" "?L - ?c \<le> ?B" using c Cons.prems(3,4) by (auto simp: min_def max_def)
  have hd: "B - ?r + ?L = iov_base cur + ?B" "B - ?r + iov_len cur \<le> ?B"
    using c Cons.prems(3,4) by (auto simp: min_def max_def)
  have "order_agree (k0, cur, B - ?r) (k, v, d)" if m: "(k, v, d) \<in> set (clone_place es ?L ?B)" for k v d
  proof -
    have at: "if iov_base v < ?L then d + ?L = iov_base v + ?B else ?B \<le> d"
      by (rule clone_place_at [OF tl(1) c' cond m])
    show ?thesis
    proof (cases "iov_base v < ?L")
      case True
      with at have "d + ?L = iov_base v + ?B" by (simp only: if_True)
      with hd(1) have "d + iov_base cur = B - ?r + iov_base v" by linarith
      then show ?thesis by (rule order_agree_same)
    next
      case False
      with at have "?B \<le> d" by (simp only: if_False)
      with False hd(2) show ?thesis by (intro order_agree_apart) linarith+
    qed
  qed
  then show ?case using Cons.IH [OF tl(1) c' cond] e by (auto simp: Let_def)
qed simp

lemma clone_place_end:
  "(k, v, d) \<in> set (clone_place es L B) \<Longrightarrow> d + iov_len v \<le> B + (\<Sum>(k, v, d) \<leftarrow> es. iov_len v)"
proof (induction es arbitrary: L B)
  case (Cons e es)
  obtain k0 cur d0 where e: "e = (k0, cur, d0)" by (cases e)
  let ?r = "if L \<noteq> 0 \<and> iov_base cur < L then L - iov_base cur else 0"
  let ?L = "max (iov_base cur + iov_len cur) L" and ?B = "B + (iov_len cur - min ?r (iov_len cur))"
  have "(k, v, d) = (k0, cur, B - ?r) \<or> (k, v, d) \<in> set (clone_place es ?L ?B)"
    using Cons.prems e by (simp add: Let_def)
  then show ?case using Cons.IH [of ?L ?B] e by auto
qed simp

text \<open>What the C library promises of \<open>qsort\<close>: a permutation in the order of the key.\<close>

definition qsort_ok :: "((sort_elem \<Rightarrow> nat) \<Rightarrow> sort_elem list \<Rightarrow> sort_elem list) \<Rightarrow> bool" where
  "qsort_ok qsort \<longleftrightarrow> (\<forall>key xs. mset (qsort key xs) = mset xs \<and> sorted (map key (qsort key xs)))"

lemma clone_add_spec:
  "qiov_ok dest \<Longrightarrow>
   \<exists>dest'. clone_add dest xs = Some dest' \<and> qiov_ok dest' \<and>
     iov_addrs (iov dest') = iov_addrs (iov dest) @ concat (map (\<lambda>(d, l). [d..<d + l]) xs)"
proof (induction xs arbitrary: dest)
  case (Cons x xs)
  obtain q where "qemu_iovec_add dest (fst x) (snd x) = Some q" "qiov_ok q"
    "iov_addrs (iov q) = iov_addrs (iov dest) @ [fst x..<fst x + snd x]"
    using qemu_iovec_add_spec [OF Cons.prems] by blast
  with Cons.IH [of q] show ?case by (auto simp: case_prod_beta)
qed simp

text \<open>The work array after the second sort: index by index, with the placed addresses.\<close>

lemma clone_by_index:
  fixes vs :: "iovec list" and buf :: nat
  assumes "qsort_ok qsort"
  defines "placed \<equiv> clone_place (qsort (\<lambda>(k, v, d). iov_base v) (sort_elems vs)) 0 buf"
  shows "\<exists>f. qsort (\<lambda>(k, v, d). k) placed = map (\<lambda>k. (k, vs ! k, f k)) [0..<length vs] \<and>
    (\<forall>k < length vs. (k, vs ! k, f k) \<in> set placed)"
proof -
  let ?s = "qsort (\<lambda>(k, v, d). iov_base v) (sort_elems vs)" and ?t = "qsort (\<lambda>(k, v, d). k) placed"
  have s: "mset ?s = mset (sort_elems vs)" and t: "mset ?t = mset placed" "sorted (map (\<lambda>(k, v, d). k) ?t)"
    using assms(1) by (simp_all add: qsort_ok_def)
  have "mset (map (\<lambda>(k, v, d). (k, v)) ?t) = mset (map (\<lambda>(k, v, d). (k, v)) placed)"
    by (simp only: mset_map t(1))
  also have "map (\<lambda>(k, v, d). (k, v)) placed = map (\<lambda>(k, v, d). (k, v)) ?s"
    by (simp only: placed_def clone_place_keeps)
  also have "mset (map (\<lambda>(k, v, d). (k, v)) ?s) = mset (map (\<lambda>(k, v, d). (k, v)) (sort_elems vs))"
    by (simp only: mset_map s)
  also have "map (\<lambda>(k, v, d). (k, v)) (sort_elems vs) = map (\<lambda>k. (k, vs ! k)) [0..<length vs]"
    by (simp add: sort_elems_def)
  finally have kv: "mset (map (\<lambda>(k, v, d). (k, v)) ?t) = mset (map (\<lambda>k. (k, vs ! k)) [0..<length vs])" .
  have "mset (map fst (map (\<lambda>(k, v, d). (k, v)) ?t)) = mset (map fst (map (\<lambda>k. (k, vs ! k)) [0..<length vs]))"
    by (simp only: mset_map kv [unfolded mset_map])
  moreover have "map fst (map (\<lambda>(k, v, d). (k, v)) xs) = map (\<lambda>(k, v, d). k) xs" for xs :: "sort_elem list"
    by (induction xs) auto
  moreover have "map fst (map (\<lambda>k. (k, vs ! k)) [0..<length vs]) = [0..<length vs]" by (simp add: comp_def)
  ultimately have "mset (map (\<lambda>(k, v, d). k) ?t) = mset [0..<length vs]" by (simp only:)
  then have ks: "map (\<lambda>(k, v, d). k) ?t = [0..<length vs]"
    using t(2) properties_for_sort [of "map (\<lambda>(k, v, d). k) ?t" "[0..<length vs]"] by (simp only: sorted_sort_id sorted_upt)
  have len: "length ?t = length vs" using arg_cong [OF ks, of length] by simp
  have at: "?t ! k = (k, vs ! k, snd (snd (?t ! k)))" if k: "k < length vs" for k
  proof -
    obtain k' v d where tk: "?t ! k = (k', v, d)" by (cases "?t ! k")
    have "(\<lambda>(k, v, d). k) (?t ! k) = [0..<length vs] ! k"
      using arg_cong [OF ks, of "\<lambda>xs. xs ! k"] k len by simp
    then have "k' = k" using k tk by simp
    have "(k', v) \<in> set (map (\<lambda>(k, v, d). (k, v)) ?t)" using k len tk by (force simp: in_set_conv_nth)
    then have "v = vs ! k'" using mset_eq_setD [OF kv] by auto
    with tk \<open>k' = k\<close> show ?thesis by simp
  qed
  have "?t = map (\<lambda>k. (k, vs ! k, snd (snd (?t ! k)))) [0..<length vs]"
    using at len by (intro nth_equalityI) simp_all
  moreover have "(k, vs ! k, snd (snd (?t ! k))) \<in> set placed" if "k < length vs" for k
    using at [OF that] len that nth_mem [of k ?t] mset_eq_setD [OF t(1)] by simp
  ultimately show ?thesis by (intro exI [of _ "\<lambda>k. snd (snd (?t ! k))"] conjI allI impI)
qed

lemma order_agree_refl: "order_agree r r"
  by (auto simp: order_agree_def elem_addrs_def clone_to_def split: prod.splits)

lemma order_agree_sym: "order_agree r r' \<Longrightarrow> order_agree r' r"
  unfolding order_agree_def by blast

lemma order_agree_eq:
  assumes "order_agree r r'" "a \<in> elem_addrs r" "a \<in> elem_addrs r'"
  shows "clone_to r a = clone_to r' a"
proof -
  have "\<not> clone_to r a < clone_to r' a" "\<not> clone_to r' a < clone_to r a"
    using assms unfolding order_agree_def by blast+
  then show ?thesis by simp
qed

lemma sorted_wrt_all:
  assumes "sorted_wrt R xs" "\<And>x. R x x" "\<And>x y. R x y \<Longrightarrow> R y x" "x \<in> set xs" "y \<in> set xs"
  shows "R x y"
  using assms(1,4,5) by (induction xs) (use assms(2,3) in auto)

lemma iov_addrs_concat: "iov_addrs vs = concat (map (\<lambda>k. [iov_base (vs ! k)..<iov_base (vs ! k) + iov_len (vs ! k)]) [0..<length vs])"
proof -
  have "iov_addrs vs = concat (map (\<lambda>v. [iov_base v..<iov_base v + iov_len v]) vs)" by (induction vs) auto
  also have "map (\<lambda>v. [iov_base v..<iov_base v + iov_len v]) vs =
      map (\<lambda>k. [iov_base (vs ! k)..<iov_base (vs ! k) + iov_len (vs ! k)]) [0..<length vs]"
    by (rule nth_equalityI) simp_all
  finally show ?thesis .
qed

text \<open>One address translation for the whole vector.\<close>

lemma clone_translation:
  fixes d :: "nat \<Rightarrow> nat"
  assumes "\<And>j k. j < length vs \<Longrightarrow> k < length vs \<Longrightarrow> order_agree (j, vs ! j, d j) (k, vs ! k, d k)"
  shows "\<exists>f. (\<forall>k < length vs. \<forall>a \<in> elem_addrs (k, vs ! k, d k). f a = clone_to (k, vs ! k, d k) a) \<and>
    strict_mono_on (set (iov_addrs vs)) f"
proof -
  let ?in = "\<lambda>a k. k < length vs \<and> a \<in> elem_addrs (k, vs ! k, d k)"
  define f where "f a = clone_to (SOME k. ?in a k, vs ! (SOME k. ?in a k), d (SOME k. ?in a k)) a" for a
  have f: "f a = clone_to (k, vs ! k, d k) a" if "?in a k" for a k
  proof -
    from that have "?in a (SOME k. ?in a k)" by (rule someI)
    with that show ?thesis
      unfolding f_def by (intro order_agree_eq assms) blast+
  qed
  have cover: "\<exists>k. ?in a k" if "a \<in> set (iov_addrs vs)" for a
    using that by (subst (asm) iov_addrs_concat) (auto simp: elem_addrs_def)
  have "strict_mono_on (set (iov_addrs vs)) f"
  proof (rule strict_mono_onI)
    fix a b assume "a \<in> set (iov_addrs vs)" "b \<in> set (iov_addrs vs)" "a < b"
    moreover from this cover obtain j k where "?in a j" "?in b k" by meson
    ultimately show "f a < f b" using f assms [of j k] unfolding order_agree_def by simp
  qed
  with f show ?thesis by blast
qed

lemma iov_size_sum: "iov_size vs = sum_list (map iov_len vs)"
  by (induction vs) auto

lemma sum_list_sort_elems: "(\<Sum>(k, v, d) \<leftarrow> sort_elems vs. iov_len v) = iov_size vs"
proof -
  have "iov_size vs = sum_list (map iov_len vs)" by (rule iov_size_sum)
  also have "map iov_len vs = map (\<lambda>k. iov_len (vs ! k)) [0..<length vs]" by (rule nth_equalityI) simp_all
  finally show ?thesis by (simp add: sort_elems_def comp_def)
qed

subsection \<open>Comparison\<close>

lemma same_shape_size: "same_shape vs ws \<Longrightarrow> iov_size vs = iov_size ws"
  by (simp only: same_shape_def iov_size_sum)

lemma match_len_agree: "i < match_len xs ys \<Longrightarrow> xs ! i = ys ! i"
  by (induction xs ys arbitrary: i rule: match_len.induct) (auto simp: nth_Cons split: nat.splits if_splits)

lemma match_len_differ:
  "length xs = length ys \<Longrightarrow> xs \<noteq> ys \<Longrightarrow> match_len xs ys < length xs \<and> xs ! match_len xs ys \<noteq> ys ! match_len xs ys"
  by (induction xs ys rule: list_induct2) auto

lemma match_len_least:
  assumes "length xs = length ys" "xs \<noteq> ys"
  shows "match_len xs ys = (LEAST i. i < length xs \<and> xs ! i \<noteq> ys ! i)"
proof (rule Least_equality [symmetric])
  show "match_len xs ys < length xs \<and> xs ! match_len xs ys \<noteq> ys ! match_len xs ys"
    by (rule match_len_differ [OF assms])
  show "match_len xs ys \<le> i" if "i < length xs \<and> xs ! i \<noteq> ys ! i" for i
    by (rule ccontr) (use that match_len_agree [of i xs ys] in simp)
qed

subsection \<open>Properties\<close>

text \<open>
  C14: Writing a buffer through a vector and reading it back through the same vector returns the
  bytes written, for any offset inside the vector, as long as its elements do not overlap; the call
  reports how many bytes fitted, and memory outside the vector is unchanged.
\<close>

theorem iov_write_read_roundtrip:
  assumes "distinct (iov_addrs vs)" "offset \<le> iov_size vs" "bytes \<le> length buf"
  shows "\<exists>m'. iov_from_buf vs offset buf bytes m = Some (min bytes (iov_size vs - offset), m') \<and>
    iov_to_buf vs offset bytes m' =
      Some (min bytes (iov_size vs - offset), take (min bytes (iov_size vs - offset)) buf) \<and>
    (\<forall>a. a \<notin> set (iov_addrs vs) \<longrightarrow> m' a = m a)"
proof -
  let ?w = "take bytes (drop offset (iov_addrs vs))" and ?n = "min bytes (iov_size vs - offset)"
  have len: "length ?w = ?n" by simp
  have "store_at ?w buf m = store_at ?w (take ?n buf) m"
    using store_at_append [of ?w "take ?n buf" "[]" "drop ?n buf" m] len assms(3) by simp
  moreover have "map (store_at ?w (take ?n buf) m) ?w = take ?n buf"
    using assms(1,3) len by (intro store_at_distinct) auto
  moreover have "set ?w \<subseteq> set (iov_addrs vs)" by (meson order_trans set_drop_subset set_take_subset)
  ultimately show ?thesis
    using assms by (auto simp: iov_from_buf_spec iov_to_buf_spec intro: store_at_outside)
qed

theorem iov_write_read_roundtrip_witness:
  "\<exists>m'. iov_from_buf [\<lparr>iov_base = 10, iov_len = 2\<rparr>, \<lparr>iov_base = 4, iov_len = 3\<rparr>] 1 [7, 8, 9] 3 (\<lambda>_. 0) = Some (3, m') \<and>
     iov_to_buf [\<lparr>iov_base = 10, iov_len = 2\<rparr>, \<lparr>iov_base = 4, iov_len = 3\<rparr>] 1 3 m' = Some (3, [7, 8, 9]) \<and>
     m' 12 = 0"
  using iov_write_read_roundtrip
    [of "[\<lparr>iov_base = 10, iov_len = 2\<rparr>, \<lparr>iov_base = 4, iov_len = 3\<rparr>]" 1 3 "[7, 8, 9]" "\<lambda>_. 0"]
  by (auto simp: upt_rec)

text \<open>
  C15: The ways to take a window of a vector agree: copying the window, appending it to an empty
  growable vector, and discarding from the front and then from the back all describe the same
  addresses, those of the vector without its first \<open>offset\<close> bytes, cut to \<open>bytes\<close>.
\<close>

theorem iov_windows_agree:
  assumes "offset + bytes \<le> iov_size vs" "0 < bytes" "length vs \<le> cnt"
  shows "\<exists>ds q. iov_copy cnt vs offset bytes = Some ds \<and>
    qemu_iovec_concat_iov (qemu_iovec_init (int cnt)) vs offset bytes = Some (bytes, q) \<and>
    iov_addrs ds = take bytes (drop offset (iov_addrs vs)) \<and>
    iov_addrs (iov q) = iov_addrs ds \<and>
    iov_addrs (snd (iov_discard_back (snd (iov_discard_front vs offset)) (iov_size vs - offset - bytes))) = iov_addrs ds"
proof -
  have ok: "qiov_ok (qemu_iovec_init (int cnt))" by (simp add: qiov_ok_def qemu_iovec_init_def)
  obtain q where q: "qemu_iovec_concat_iov (qemu_iovec_init (int cnt)) vs offset bytes =
      Some (min bytes (iov_size vs - offset), q)"
    "iov_addrs (iov q) = take bytes (drop offset (iov_addrs vs))"
    using qemu_iovec_concat_iov_spec [OF ok, of offset vs bytes] assms(1) by (auto simp: qemu_iovec_init_def)
  have "iov_size (snd (iov_discard_front vs offset)) = iov_size vs - offset"
    using arg_cong [OF iov_discard_front_spec(2) [of vs offset], of length] by simp
  then have "iov_addrs (snd (iov_discard_back (snd (iov_discard_front vs offset)) (iov_size vs - offset - bytes))) =
      take bytes (drop offset (iov_addrs vs))"
    using assms(1) by (simp add: iov_discard_back_spec iov_discard_front_spec)
  moreover have "iov_copy cnt vs offset bytes = Some (snd (iov_copy_loop cnt vs offset bytes)) \<and>
      iov_addrs (snd (iov_copy_loop cnt vs offset bytes)) = take bytes (drop offset (iov_addrs vs))"
    using iov_copy_loop_spec [OF assms(3), of bytes offset] assms(1,2) by (auto simp: iov_copy_def split: prod.splits)
  ultimately show ?thesis using q assms(1) by auto
qed

theorem iov_windows_agree_witness:
  "\<exists>ds. iov_copy 2 [\<lparr>iov_base = 10, iov_len = 2\<rparr>, \<lparr>iov_base = 4, iov_len = 3\<rparr>] 1 2 = Some ds \<and> iov_addrs ds = [11, 4]"
proof -
  have "take 2 (drop 1 (iov_addrs [\<lparr>iov_base = 10, iov_len = 2\<rparr>, \<lparr>iov_base = 4, iov_len = 3\<rparr>])) = [11, 4]"
    by code_simp
  with iov_windows_agree [of 1 2 "[\<lparr>iov_base = 10, iov_len = 2\<rparr>, \<lparr>iov_base = 4, iov_len = 3\<rparr>]" 2]
  show ?thesis by auto
qed

text \<open>
  Comparing two vectors of the same shape returns -1 exactly when they hold the same bytes, and
  otherwise the offset of the first byte that differs.
\<close>

lemma iovec_compare_first_mismatch:
  assumes "same_shape (iov a) (iov b)"
  shows "qemu_iovec_compare m a b =
    Some (if map m (iov_addrs (iov a)) = map m (iov_addrs (iov b)) then - 1
          else int (LEAST i. i < iov_size (iov a) \<and> m (iov_addrs (iov a) ! i) \<noteq> m (iov_addrs (iov b) ! i)))"
proof -
  let ?x = "map m (iov_addrs (iov a))" and ?y = "map m (iov_addrs (iov b))"
  have "length ?x = length ?y" using same_shape_size [OF assms] by simp
  then show ?thesis
    using match_len_least [of ?x ?y] same_shape_size [OF assms]
    by (auto simp: qemu_iovec_compare_def qemu_iovec_compare_loop_spec(2) [OF assms] Let_def cong: conj_cong)
qed

text \<open>
  C13: Cloning a vector whose elements may overlap keeps the relation between them: there is one
  address translation under which the clone is the image of the source, it preserves the order of
  addresses, and it stays inside the buffer of \<open>size\<close> bytes.
\<close>

theorem clone_keeps_overlaps:
  assumes "qsort_ok qsort" "qiov_ok dest" "iov dest = []"
  shows "\<exists>dest' f. qemu_iovec_clone qsort dest src buf = Some dest' \<and> qiov_ok dest' \<and>
    iov_addrs (iov dest') = map f (iov_addrs (iov src)) \<and> strict_mono_on (set (iov_addrs (iov src))) f \<and>
    set (iov_addrs (iov dest')) \<subseteq> {buf..<buf + iov_size (iov src)}"
proof -
  let ?vs = "iov src"
  let ?s = "qsort (\<lambda>(k, v, d). iov_base v) (sort_elems ?vs)"
  let ?p = "clone_place ?s 0 buf"
  have s: "mset ?s = mset (sort_elems ?vs)" "sorted (map (\<lambda>(k, v, d). iov_base v) ?s)"
    using assms(1) by (simp_all add: qsort_ok_def)
  obtain d where d: "qsort (\<lambda>(k, v, d). k) ?p = map (\<lambda>k. (k, ?vs ! k, d k)) [0..<length ?vs]"
    "\<forall>k < length ?vs. (k, ?vs ! k, d k) \<in> set ?p"
    using clone_by_index [OF assms(1), of ?vs buf] by blast
  have wrt: "sorted_wrt order_agree ?p" by (rule clone_place_agree [OF s(2), of 0]) auto
  have agree: "order_agree (j, ?vs ! j, d j) (k, ?vs ! k, d k)" if "j < length ?vs" "k < length ?vs" for j k
    by (rule sorted_wrt_all [OF wrt]) (rule order_agree_refl, erule order_agree_sym, use d(2) that in simp_all)
  obtain f where f: "\<forall>k < length ?vs. \<forall>a \<in> elem_addrs (k, ?vs ! k, d k). f a = clone_to (k, ?vs ! k, d k) a"
    "strict_mono_on (set (iov_addrs ?vs)) f"
    using clone_translation [OF agree] by blast
  let ?xs = "map (\<lambda>k. (d k, iov_len (?vs ! k))) [0..<length ?vs]"
  have "map2 (\<lambda>(k, v, d) w. (d, iov_len w)) (map (\<lambda>k. (k, ?vs ! k, d k)) [0..<length ?vs]) ?vs = ?xs"
    by (rule nth_equalityI) simp_all
  then obtain dest' where dest': "qemu_iovec_clone qsort dest src buf = Some dest'" "qiov_ok dest'"
    "iov_addrs (iov dest') = concat (map (\<lambda>(d, l). [d..<d + l]) ?xs)"
    using clone_add_spec [OF assms(2), of ?xs] assms(3) by (auto simp: qemu_iovec_clone_def d(1))
  have part: "[d k..<d k + iov_len (?vs ! k)] = map f [iov_base (?vs ! k)..<iov_base (?vs ! k) + iov_len (?vs ! k)]"
    if "k < length ?vs" for k
    using f(1) that by (intro nth_equalityI) (auto simp: elem_addrs_def clone_to_def)
  have img: "iov_addrs (iov dest') = map f (iov_addrs ?vs)"
    unfolding dest'(3) iov_addrs_concat [of ?vs] map_concat map_map comp_def prod.case
    by (intro arg_cong [where f = concat] map_cong refl part) simp
  have "(\<Sum>(k, v, d) \<leftarrow> ?s. iov_len v) = iov_size ?vs"
    using arg_cong [OF s(1), of "\<lambda>M. sum_mset (image_mset (\<lambda>(k, v, d). iov_len v) M)"]
    unfolding mset_map [symmetric] sum_mset_sum_list sum_list_sort_elems .
  then have "buf \<le> d k \<and> d k + iov_len (?vs ! k) \<le> buf + iov_size ?vs" if "k < length ?vs" for k
    using clone_place_end [of k "?vs ! k" "d k" ?s 0 buf] clone_place_at [OF s(2), of 0 0 buf k "?vs ! k" "d k"] d(2) that
    by auto
  then have "set (iov_addrs (iov dest')) \<subseteq> {buf..<buf + iov_size ?vs}"
    unfolding dest'(3) by fastforce
  with dest' img f(2) show ?thesis by blast
qed

theorem clone_keeps_overlaps_witness:
  "\<exists>dest' f. qemu_iovec_clone sort_key (qemu_iovec_init 2)
       (qemu_iovec_init_external [\<lparr>iov_base = 10, iov_len = 4\<rparr>, \<lparr>iov_base = 8, iov_len = 4\<rparr>]) 100 = Some dest' \<and>
     iov_addrs (iov dest') = map f ([10, 11, 12, 13] @ [8, 9, 10, 11 :: nat]) \<and>
     set (iov_addrs (iov dest')) \<subseteq> {100..<108}"
proof -
  let ?src = "qemu_iovec_init_external [\<lparr>iov_base = 10, iov_len = 4\<rparr>, \<lparr>iov_base = 8, iov_len = 4\<rparr>]"
  have l: "iov_addrs (iov ?src) = [10, 11, 12, 13] @ [8, 9, 10, 11]" "100 + iov_size (iov ?src) = 108" by code_simp+
  have "qsort_ok sort_key" by (simp add: qsort_ok_def)
  moreover have "qiov_ok (qemu_iovec_init 2)" "iov (qemu_iovec_init 2) = []"
    by (simp_all add: qiov_ok_def qemu_iovec_init_def)
  ultimately show ?thesis
    using clone_keeps_overlaps [of sort_key "qemu_iovec_init 2" ?src 100] unfolding l by blast
qed

end
