(* ===== verification/Dma.thy ===== *)
theory Dma
  imports Iov Plugin_Interface
begin

text \<open>
  \<open>dma-helpers.c\<close>: scatter/gather DMA between guest memory and a block device, with the plugin
  hooks in \<open>dma_blk_io\<close>. Guest addresses and lengths are 64-bit words (\<open>dma_addr_t\<close>).

  \<open>dma_memory_map\<close> is a parameter: it may map less than asked for, or fail and succeed later, so
  it takes the number of the call. The calls that leave the component (mapping, unmapping, the block
  request, the completion callback, waiting for a map client) are recorded in a trace. The block
  request is asynchronous: \<open>dma_step\<close> lists what can happen next to a transfer.
\<close>

subsection \<open>Scatter/gather lists\<close>

record ScatterGatherEntry =
  sg_base :: u64
  sg_len :: u64

record QEMUSGList =
  sg :: "ScatterGatherEntry list"
  sg_nalloc :: int
  sg_size :: u64

definition qemu_sglist_init :: "int \<Rightarrow> QEMUSGList" where
  "qemu_sglist_init alloc_hint = \<lparr>sg = [], sg_nalloc = alloc_hint, sg_size = 0\<rparr>"

definition qemu_sglist_add :: "QEMUSGList \<Rightarrow> u64 \<Rightarrow> u64 \<Rightarrow> QEMUSGList" where
  "qemu_sglist_add qsg base len =
     qsg\<lparr>sg_nalloc := (if int (length (sg qsg)) = sg_nalloc qsg then 2 * sg_nalloc qsg + 1 else sg_nalloc qsg),
         sg := sg qsg @ [\<lparr>sg_base = base, sg_len = len\<rparr>], sg_size := sg_size qsg + len\<rparr>"

definition qemu_sglist_destroy :: "QEMUSGList \<Rightarrow> QEMUSGList" where
  "qemu_sglist_destroy qsg = \<lparr>sg = [], sg_nalloc = 0, sg_size = 0\<rparr>"

subsection \<open>Block transfers\<close>

datatype dma_event =
    EvMap u64 u64 nat
  | EvUnmap nat nat
  | EvIO u64 "iovec list" nat
  | EvWait
  | EvComplete c_int

record DMAAIOCB =
  dsg :: QEMUSGList
  sector_num :: u64
  sg_cur_index :: nat
  sg_cur_byte :: u64
  diov :: QEMUIOVector
  acb :: bool
  bh :: bool
  waiting :: bool
  maps :: nat
  dtrace :: "dma_event list"

text \<open>Call number, guest address and length to host address and mapped length.\<close>

type_synonym map_fn = "nat \<Rightarrow> u64 \<Rightarrow> u64 \<Rightarrow> (nat \<times> u64) option"

definition dma_blk_unmap :: "DMAAIOCB \<Rightarrow> DMAAIOCB option" where
  "dma_blk_unmap dbs =
     do {
       q \<leftarrow> qemu_iovec_reset (diov dbs);
       Some (dbs\<lparr>diov := q,
                 dtrace := dtrace dbs @ map (\<lambda>v. EvUnmap (iov_base v) (iov_len v)) (iov (diov dbs))\<rparr>)
     }"

definition dma_complete :: "DMAAIOCB \<Rightarrow> c_int \<Rightarrow> DMAAIOCB option" where
  "dma_complete dbs ret =
     do {
       dbs1 \<leftarrow> dma_blk_unmap dbs;
       q \<leftarrow> qemu_iovec_destroy (diov dbs1);
       Some (dbs1\<lparr>dtrace := dtrace dbs1 @ [EvComplete ret], diov := q, bh := False\<rparr>)
     }"

text \<open>The mapping loop. It need not end: a mapping of no bytes is tried again for ever.\<close>

partial_function (option) dma_map_loop :: "map_fn \<Rightarrow> DMAAIOCB \<Rightarrow> DMAAIOCB option" where
  "dma_map_loop mapf dbs =
     (if sg_cur_index dbs < length (sg (dsg dbs))
      then let e = sg (dsg dbs) ! sg_cur_index dbs;
               cur_addr = sg_base e + sg_cur_byte dbs;
               cur_len = sg_len e - sg_cur_byte dbs
           in case mapf (maps dbs) cur_addr cur_len of
                None \<Rightarrow> Some (dbs\<lparr>maps := Suc (maps dbs)\<rparr>)
              | Some r \<Rightarrow>
                  Option.bind (qemu_iovec_add (diov dbs) (fst r) (unat (snd r)))
                    (\<lambda>q. let byte = sg_cur_byte dbs + snd r;
                             wrap = (byte = sg_len e)
                         in dma_map_loop mapf
                              (dbs\<lparr>diov := q, maps := Suc (maps dbs),
                                   sg_cur_byte := (if wrap then 0 else byte),
                                   sg_cur_index := (if wrap then Suc (sg_cur_index dbs) else sg_cur_index dbs),
                                   dtrace := dtrace dbs @ [EvMap cur_addr (snd r) (fst r)]\<rparr>))
      else Some dbs)"

declare dma_map_loop.simps [code]

definition dma_blk_cb :: "map_fn \<Rightarrow> DMAAIOCB \<Rightarrow> c_int \<Rightarrow> DMAAIOCB option" where
  "dma_blk_cb mapf dbs0 ret =
     (let dbs = dbs0\<lparr>acb := False, sector_num := sector_num dbs0 + word_of_nat (qsize (diov dbs0) div 512)\<rparr>
      in if sg_cur_index dbs = length (sg (dsg dbs)) \<or> ret <s 0 then dma_complete dbs ret
         else do {
           dbs1 \<leftarrow> dma_blk_unmap dbs;
           dbs2 \<leftarrow> dma_map_loop mapf dbs1;
           (if qsize (diov dbs2) = 0
            then Some (dbs2\<lparr>waiting := True, dtrace := dtrace dbs2 @ [EvWait]\<rparr>)
            else do {
              q \<leftarrow> (if qsize (diov dbs2) mod 512 \<noteq> 0
                   then qemu_iovec_discard_back (diov dbs2) (qsize (diov dbs2) mod 512) else Some (diov dbs2));
              Some (dbs2\<lparr>diov := q, acb := True,
                         dtrace := dtrace dbs2 @ [EvIO (sector_num dbs2) (iov q) (qsize q div 512)]\<rparr>)
            })
         })"

definition reschedule_dma :: "map_fn \<Rightarrow> DMAAIOCB \<Rightarrow> DMAAIOCB option" where
  "reschedule_dma mapf dbs = dma_blk_cb mapf (dbs\<lparr>bh := False\<rparr>) 0"

definition continue_after_map_failure :: "DMAAIOCB \<Rightarrow> DMAAIOCB" where
  "continue_after_map_failure dbs = dbs\<lparr>bh := True\<rparr>"

text \<open>
  \<open>dma_blk_io\<close> sets the request up, runs the callback once and then calls the plugin hook with the
  first element of the list; an empty list has no first element.
\<close>

datatype DMADirection = DMA_DIRECTION_TO_DEVICE | DMA_DIRECTION_FROM_DEVICE

definition dma_init :: "QEMUSGList \<Rightarrow> u64 \<Rightarrow> DMAAIOCB" where
  "dma_init qsg sec =
     \<lparr>dsg = qsg, sector_num = sec, sg_cur_index = 0, sg_cur_byte = 0,
      diov = qemu_iovec_init (int (length (sg qsg))), acb = False, bh = False, waiting = False, maps = 0, dtrace = []\<rparr>"

definition dma_blk_io ::
  "('env, 's) plugin_interface_t option \<Rightarrow> 'env \<Rightarrow> map_fn \<Rightarrow> QEMUSGList \<Rightarrow> u64 \<Rightarrow> DMADirection \<Rightarrow> 's \<Rightarrow>
   (DMAAIOCB \<times> 's) option" where
  "dma_blk_io plugin env mapf qsg sec dir ps =
     do {
       dbs \<leftarrow> dma_blk_cb mapf (dma_init qsg sec) 0;
       e \<leftarrow> rd (sg qsg) 0;
       ps' \<leftarrow> dispatch plugin env
                (if dir = DMA_DIRECTION_TO_DEVICE then BlkWrite sec (sg_base e) (sg_len e)
                 else BlkRead sec (sg_base e) (sg_len e)) ps;
       Some (dbs, ps')
     }"

definition dma_blk_read ::
  "('env, 's) plugin_interface_t option \<Rightarrow> 'env \<Rightarrow> map_fn \<Rightarrow> QEMUSGList \<Rightarrow> u64 \<Rightarrow> 's \<Rightarrow> (DMAAIOCB \<times> 's) option" where
  "dma_blk_read plugin env mapf qsg sec ps = dma_blk_io plugin env mapf qsg sec DMA_DIRECTION_FROM_DEVICE ps"

definition dma_blk_write ::
  "('env, 's) plugin_interface_t option \<Rightarrow> 'env \<Rightarrow> map_fn \<Rightarrow> QEMUSGList \<Rightarrow> u64 \<Rightarrow> 's \<Rightarrow> (DMAAIOCB \<times> 's) option" where
  "dma_blk_write plugin env mapf qsg sec ps = dma_blk_io plugin env mapf qsg sec DMA_DIRECTION_TO_DEVICE ps"

text \<open>What can happen to a transfer: its block request completes, its map client is called, its
  bottom half runs.\<close>

inductive dma_step :: "map_fn \<Rightarrow> DMAAIOCB \<Rightarrow> DMAAIOCB \<Rightarrow> bool" for mapf where
  io_done: "acb dbs \<Longrightarrow> dma_blk_cb mapf dbs ret = Some dbs' \<Longrightarrow> dma_step mapf dbs dbs'"
| map_client: "waiting dbs \<Longrightarrow> dma_step mapf dbs (continue_after_map_failure (dbs\<lparr>waiting := False\<rparr>))"
| bottom_half: "bh dbs \<Longrightarrow> reschedule_dma mapf dbs = Some dbs' \<Longrightarrow> dma_step mapf dbs dbs'"

inductive dma_reachable :: "map_fn \<Rightarrow> QEMUSGList \<Rightarrow> u64 \<Rightarrow> DMAAIOCB \<Rightarrow> bool" for mapf qsg sec where
  start: "dma_blk_cb mapf (dma_init qsg sec) 0 = Some dbs \<Longrightarrow> dma_reachable mapf qsg sec dbs"
| step: "dma_reachable mapf qsg sec dbs \<Longrightarrow> dma_step mapf dbs dbs' \<Longrightarrow> dma_reachable mapf qsg sec dbs'"

inductive_cases dma_stepE: "dma_step mapf dbs dbs'"

subsection \<open>Synchronous helpers\<close>

text \<open>\<open>address_space_rw\<close> in the write direction is a parameter: address, bytes and memory to an
  error flag and the new memory.\<close>

function dma_memory_set_loop ::
  "(u64 \<Rightarrow> buffer \<Rightarrow> 'm \<Rightarrow> bool \<times> 'm) \<Rightarrow> u64 \<Rightarrow> byte \<Rightarrow> u64 \<Rightarrow> bool \<Rightarrow> 'm \<Rightarrow> bool \<times> 'm" where
  "dma_memory_set_loop rw addr c len err m =
     (if len > 0
      then let l = (if len < 512 then len else 512);
               (e, m') = rw addr (replicate (unat l) c) m
           in dma_memory_set_loop rw (addr + l) c (len - l) (err \<or> e) m'
      else (err, m))"
  by pat_completeness auto
termination
proof (relation "measure (\<lambda>(rw, addr, c, len, err, m). unat len)")
  fix len l :: u64
  assume "len > 0" and l: "l = (if len < 512 then len else 512)"
  then have "l \<le> len" "l \<noteq> 0" by (auto simp: not_less)
  then have "unat (len - l) = unat len - unat l" "unat l \<noteq> 0" "unat l \<le> unat len"
    by (simp_all only: unat_sub word_le_nat_alt unsigned_eq_0_iff simp_thms)
  then show "((rw, addr + l, c, len - l, err \<or> e, m'), (rw, addr, c, len, err, m)) \<in>
      measure (\<lambda>(rw, addr, c, len, err, m). unat len)" for rw addr c err e m m' by simp
qed simp

declare dma_memory_set_loop.simps [simp del]

definition dma_memory_set ::
  "(u64 \<Rightarrow> buffer \<Rightarrow> 'm \<Rightarrow> bool \<times> 'm) \<Rightarrow> u64 \<Rightarrow> byte \<Rightarrow> u64 \<Rightarrow> 'm \<Rightarrow> bool \<times> 'm" where
  "dma_memory_set rw addr c len m = dma_memory_set_loop rw addr c len False m"

text \<open>\<open>dma_buf_rw\<close>: the accesses it makes, as (guest address, offset in the buffer, length).\<close>

fun dma_buf_rw_loop ::
  "ScatterGatherEntry list \<Rightarrow> nat \<Rightarrow> c_int \<Rightarrow> u64 \<Rightarrow> (u64 \<times> (u64 \<times> nat \<times> nat) list) option" where
  "dma_buf_rw_loop es ptr len resid =
     (if 0 <s len
      then case es of
             [] \<Rightarrow> None
           | e # es' \<Rightarrow>
               let xfer = ucast (min (scast len) (sg_len e)) :: c_int
               in do {
                    (r, acc) \<leftarrow> dma_buf_rw_loop es' (ptr + unat xfer) (len - xfer) (resid - scast xfer);
                    Some (r, (sg_base e, ptr, unat xfer) # acc)
                  }
      else Some (resid, []))"

declare dma_buf_rw_loop.simps [simp del]

definition dma_buf_rw :: "c_int \<Rightarrow> QEMUSGList \<Rightarrow> (u64 \<times> (u64 \<times> nat \<times> nat) list) option" where
  "dma_buf_rw len qsg = dma_buf_rw_loop (sg qsg) 0 (ucast (min (scast len :: u64) (sg_size qsg))) (sg_size qsg)"

end
