(* ===== verification/Dma_Transfer.thy ===== *)
theory Dma_Transfer
  imports Dma Plugin_Properties
begin

text \<open>
  The life of a DMA transfer: the mapping loop, one callback, and whole transfers through any number
  of completed requests, failed mappings and bottom halves. The invariant relates the trace of a
  transfer to the list of guest bytes of its scatter/gather list.
\<close>

subsection \<open>The guest bytes of a list and the cursor\<close>

definition sg_bytes :: "ScatterGatherEntry list \<Rightarrow> nat list" where
  "sg_bytes es = concat (map (\<lambda>e. [unat (sg_base e)..<unat (sg_base e) + unat (sg_len e)]) es)"

lemma sg_bytes_simps [simp]:
  "sg_bytes [] = []" "sg_bytes (e # es) = [unat (sg_base e)..<unat (sg_base e) + unat (sg_len e)] @ sg_bytes es"
  "sg_bytes (es @ es') = sg_bytes es @ sg_bytes es'"
  by (simp_all add: sg_bytes_def)

text \<open>Elements that stay inside the 64-bit address space and are not empty.\<close>

definition sg_ok :: "ScatterGatherEntry list \<Rightarrow> bool" where
  "sg_ok es \<longleftrightarrow> list_all (\<lambda>e. sg_len e \<noteq> 0 \<and> unat (sg_base e) + unat (sg_len e) \<le> 2 ^ 64) es"

definition sg_pos :: "DMAAIOCB \<Rightarrow> nat" where
  "sg_pos dbs = length (sg_bytes (take (sg_cur_index dbs) (sg (dsg dbs)))) + unat (sg_cur_byte dbs)"

definition cur_ok :: "DMAAIOCB \<Rightarrow> bool" where
  "cur_ok dbs \<longleftrightarrow>
     (if sg_cur_index dbs < length (sg (dsg dbs))
      then sg_cur_byte dbs < sg_len (sg (dsg dbs) ! sg_cur_index dbs)
      else sg_cur_index dbs = length (sg (dsg dbs)) \<and> sg_cur_byte dbs = 0)"

text \<open>What \<open>dma_memory_map\<close> promises: it maps a non-empty prefix of the range asked for, and guest
  address \<open>a\<close> is found at host address \<open>host a\<close>.\<close>

definition map_ok :: "(nat \<Rightarrow> nat) \<Rightarrow> map_fn \<Rightarrow> bool" where
  "map_ok host mapf \<longleftrightarrow>
     (\<forall>n a l h k. mapf n a l = Some (h, k) \<longrightarrow>
        k \<noteq> 0 \<and> k \<le> l \<and> (\<forall>i < unat k. host (unat a + i) = h + i))"

text \<open>Mappings end on sector boundaries.\<close>

definition maps_sectors :: "map_fn \<Rightarrow> bool" where
  "maps_sectors mapf \<longleftrightarrow> (\<forall>n a l h k. mapf n a l = Some (h, k) \<longrightarrow> 512 dvd unat k)"

lemma sg_slice:
  assumes "i < length es" "b + k \<le> unat (sg_len (es ! i))"
  shows "take k (drop (length (sg_bytes (take i es)) + b) (sg_bytes es)) =
    [unat (sg_base (es ! i)) + b..<unat (sg_base (es ! i)) + b + k]"
proof -
  have "es = take i es @ es ! i # drop (Suc i) es" using assms(1) by (simp add: id_take_nth_drop)
  then have "sg_bytes es = sg_bytes (take i es) @
      [unat (sg_base (es ! i))..<unat (sg_base (es ! i)) + unat (sg_len (es ! i))] @ sg_bytes (drop (Suc i) es)"
    by (metis sg_bytes_simps(2,3))
  then show ?thesis using assms(2) by (simp add: take_upt)
qed

lemma take_drop_add: "take j (drop p xs) @ take k (drop (p + j) xs) = take (j + k) (drop p xs)"
  by (simp add: take_add add.commute)

definition sg_left :: "DMAAIOCB \<Rightarrow> nat" where
  "sg_left dbs = length (sg_bytes (sg (dsg dbs))) - sg_pos dbs"

lemma sg_pos_less:
  assumes "i < length es" "b < unat (sg_len (es ! i))"
  shows "length (sg_bytes (take i es)) + b < length (sg_bytes es)"
proof -
  have "es = take i es @ es ! i # drop (Suc i) es" using assms(1) by (simp add: id_take_nth_drop)
  then have "length (sg_bytes es) = length (sg_bytes (take i es)) + unat (sg_len (es ! i)) + length (sg_bytes (drop (Suc i) es))"
    by (metis (no_types, lifting) sg_bytes_simps(2,3) length_append length_upt diff_add_inverse add.assoc)
  with assms(2) show ?thesis by simp
qed

text \<open>Trace events that only map.\<close>

fun is_map_event :: "dma_event \<Rightarrow> bool" where
  "is_map_event (EvMap a l h) = True"
| "is_map_event _ = False"

definition map_round :: "map_fn \<Rightarrow> (nat \<Rightarrow> nat) \<Rightarrow> DMAAIOCB \<Rightarrow> DMAAIOCB \<Rightarrow> bool" where
  "map_round mapf host dbs dbs' \<longleftrightarrow>
     cur_ok dbs' \<and> qiov_ok (diov dbs') \<and> sg_pos dbs \<le> sg_pos dbs' \<and>
     iov_addrs (iov (diov dbs')) = iov_addrs (iov (diov dbs)) @
       map host (take (sg_pos dbs' - sg_pos dbs) (drop (sg_pos dbs) (sg_bytes (sg (dsg dbs))))) \<and>
     (maps_sectors mapf \<longrightarrow> 512 dvd (sg_pos dbs' - sg_pos dbs)) \<and>
     dsg dbs' = dsg dbs \<and> sector_num dbs' = sector_num dbs \<and> acb dbs' = acb dbs \<and> bh dbs' = bh dbs \<and>
     waiting dbs' = waiting dbs \<and>
     (\<exists>es vs. dtrace dbs' = dtrace dbs @ es \<and> iov (diov dbs') = iov (diov dbs) @ vs \<and>
        map (\<lambda>e. case e of EvMap a l h \<Rightarrow> (h, unat l) | _ \<Rightarrow> (0, 0)) es = map (\<lambda>v. (iov_base v, iov_len v)) vs \<and>
        list_all is_map_event es)"

text \<open>One successful mapping.\<close>

definition dma_mapped :: "DMAAIOCB \<Rightarrow> nat \<Rightarrow> u64 \<Rightarrow> QEMUIOVector \<Rightarrow> DMAAIOCB" where
  "dma_mapped dbs h k q =
     (let e = sg (dsg dbs) ! sg_cur_index dbs; byte = sg_cur_byte dbs + k; wrap = (byte = sg_len e)
      in dbs\<lparr>diov := q, maps := Suc (maps dbs),
             sg_cur_byte := (if wrap then 0 else byte),
             sg_cur_index := (if wrap then Suc (sg_cur_index dbs) else sg_cur_index dbs),
             dtrace := dtrace dbs @ [EvMap (sg_base e + sg_cur_byte dbs) k h]\<rparr>)"

lemma dma_map_loop_mapped:
  assumes "sg_cur_index dbs < length (sg (dsg dbs))"
    and "mapf (maps dbs) (sg_base (sg (dsg dbs) ! sg_cur_index dbs) + sg_cur_byte dbs)
           (sg_len (sg (dsg dbs) ! sg_cur_index dbs) - sg_cur_byte dbs) = Some (h, k)"
    and "qemu_iovec_add (diov dbs) h (unat k) = Some q"
  shows "dma_map_loop mapf dbs = dma_map_loop mapf (dma_mapped dbs h k q)"
  using assms by (subst dma_map_loop.simps) (simp add: dma_mapped_def Let_def)

lemma dma_mapped_round:
  assumes ok: "map_ok host mapf" "sg_ok (sg (dsg dbs))" "cur_ok dbs" "qiov_ok (diov dbs)"
    and i: "sg_cur_index dbs < length (sg (dsg dbs))"
    and m: "mapf (maps dbs) (sg_base (sg (dsg dbs) ! sg_cur_index dbs) + sg_cur_byte dbs)
           (sg_len (sg (dsg dbs) ! sg_cur_index dbs) - sg_cur_byte dbs) = Some (h, k)"
    and q: "qemu_iovec_add (diov dbs) h (unat k) = Some q"
  shows "map_round mapf host dbs (dma_mapped dbs h k q)" (is ?round)
    "sg_left (dma_mapped dbs h k q) < sg_left dbs" (is ?less)
proof -
  let ?e = "sg (dsg dbs) ! sg_cur_index dbs" and ?b = "sg_cur_byte dbs" and ?d = "dma_mapped dbs h k q"
  have b: "?b < sg_len ?e" using ok(3) i by (simp add: cur_ok_def)
  have e: "sg_len ?e \<noteq> 0" "unat (sg_base ?e) + unat (sg_len ?e) \<le> 2 ^ 64"
    using ok(2) i by (simp_all add: sg_ok_def list_all_length)
  have k: "k \<noteq> 0" "k \<le> sg_len ?e - ?b" "\<forall>j < unat k. host (unat (sg_base ?e + ?b) + j) = h + j"
    using ok(1) m unfolding map_ok_def by blast+
  have ub: "unat ?b < unat (sg_len ?e)" using b by (simp add: word_less_nat_alt)
  have "unat (sg_len ?e - ?b) = unat (sg_len ?e) - unat ?b" using b by (intro unat_sub) simp
  then have uk: "unat k \<noteq> 0" "unat ?b + unat k \<le> unat (sg_len ?e)"
    using k(1,2) ub by (simp_all add: word_le_nat_alt unsigned_eq_0_iff)
  have ul: "unat (sg_len ?e) < 2 ^ 64" using unat_less_pow [of "sg_len ?e"] by simp
  have sum: "unat (sg_base ?e + ?b) = unat (sg_base ?e) + unat ?b" "unat (?b + k) = unat ?b + unat k"
    using e(2) ub uk ul by (subst unat_add_lem [THEN iffD1]; simp)+
  have wrap: "?b + k = sg_len ?e \<longleftrightarrow> unat ?b + unat k = unat (sg_len ?e)"
    by (simp only: word_unat_eq_iff sum)
  have f: "dsg ?d = dsg dbs" "diov ?d = q" "sector_num ?d = sector_num dbs" "acb ?d = acb dbs" "bh ?d = bh dbs"
    "waiting ?d = waiting dbs" "dtrace ?d = dtrace dbs @ [EvMap (sg_base ?e + ?b) k h]"
    by (simp_all add: dma_mapped_def Let_def)
  have takeS: "sg_bytes (take (Suc (sg_cur_index dbs)) (sg (dsg dbs))) =
      sg_bytes (take (sg_cur_index dbs) (sg (dsg dbs))) @ [unat (sg_base ?e)..<unat (sg_base ?e) + unat (sg_len ?e)]"
    using i by (simp add: take_Suc_conv_app_nth)
  have pos: "sg_pos ?d = sg_pos dbs + unat k"
    using takeS wrap sum by (auto simp: sg_pos_def f(1)) (auto simp: dma_mapped_def Let_def)
  have cur: "cur_ok ?d"
    using i wrap sum uk ok(2) ok(3) unfolding cur_ok_def f(1)
    by (auto simp: dma_mapped_def Let_def sg_ok_def list_all_length word_less_nat_alt unat_pos_iff)
  have lt: "sg_pos dbs < length (sg_bytes (sg (dsg dbs)))" unfolding sg_pos_def by (rule sg_pos_less [OF i ub])
  show ?less using lt uk(1) by (simp add: sg_left_def pos f(1))
  obtain q' where "qemu_iovec_add (diov dbs) h (unat k) = Some q'" "qiov_ok q'"
    "iov_addrs (iov q') = iov_addrs (iov (diov dbs)) @ [h..<h + unat k]"
    using qemu_iovec_add_spec [OF ok(4)] by blast
  with q have q': "qiov_ok q" "iov_addrs (iov q) = iov_addrs (iov (diov dbs)) @ [h..<h + unat k]" by simp_all
  have "iov q = iov (diov dbs) @ [\<lparr>iov_base = h, iov_len = unat k\<rparr>]"
    using q by (auto simp: qemu_iovec_add_def split: if_splits)
  moreover have "map host (take (unat k) (drop (sg_pos dbs) (sg_bytes (sg (dsg dbs))))) = [h..<h + unat k]"
    unfolding sg_pos_def sg_slice [OF i uk(2)] using k(3) sum(1) by (intro nth_equalityI) simp_all
  ultimately show ?round
    using cur q' m unfolding map_round_def f pos by (auto simp: maps_sectors_def)
qed

lemma map_round_trans:
  assumes "map_round mapf host a b" "map_round mapf host b c"
  shows "map_round mapf host a c"
proof -
  have pos: "sg_pos a \<le> sg_pos b" "sg_pos b \<le> sg_pos c" and dsg: "dsg b = dsg a"
    using assms by (simp_all add: map_round_def)
  let ?X = "sg_bytes (sg (dsg a))"
  have p: "sg_pos c - sg_pos a = (sg_pos b - sg_pos a) + (sg_pos c - sg_pos b)" "sg_pos a + (sg_pos b - sg_pos a) = sg_pos b"
    using pos by simp_all
  have "take (sg_pos b - sg_pos a) (drop (sg_pos a) ?X) @ take (sg_pos c - sg_pos b) (drop (sg_pos b) ?X) =
      take (sg_pos c - sg_pos a) (drop (sg_pos a) ?X)"
    using take_drop_add [of "sg_pos b - sg_pos a" "sg_pos a" ?X "sg_pos c - sg_pos b"] p by simp
  then have "iov_addrs (iov (diov c)) = iov_addrs (iov (diov a)) @
      map host (take (sg_pos c - sg_pos a) (drop (sg_pos a) ?X))"
    using assms dsg by (auto simp: map_round_def simp flip: map_append)
  moreover have "maps_sectors mapf \<longrightarrow> 512 dvd (sg_pos b - sg_pos a) \<and> 512 dvd (sg_pos c - sg_pos b)"
    using assms unfolding map_round_def by blast
  then have "maps_sectors mapf \<longrightarrow> 512 dvd (sg_pos c - sg_pos a)" unfolding p(1) by (blast intro: dvd_add)
  moreover obtain es vs es' vs' where t: "dtrace b = dtrace a @ es" "iov (diov b) = iov (diov a) @ vs"
    "map (\<lambda>e. case e of EvMap a l h \<Rightarrow> (h, unat l) | _ \<Rightarrow> (0, 0)) es = map (\<lambda>v. (iov_base v, iov_len v)) vs"
    "list_all is_map_event es" "dtrace c = dtrace b @ es'" "iov (diov c) = iov (diov b) @ vs'"
    "map (\<lambda>e. case e of EvMap a l h \<Rightarrow> (h, unat l) | _ \<Rightarrow> (0, 0)) es' = map (\<lambda>v. (iov_base v, iov_len v)) vs'"
    "list_all is_map_event es'"
    using assms unfolding map_round_def by blast
  then have "\<exists>es vs. dtrace c = dtrace a @ es \<and> iov (diov c) = iov (diov a) @ vs \<and>
      map (\<lambda>e. case e of EvMap a l h \<Rightarrow> (h, unat l) | _ \<Rightarrow> (0, 0)) es = map (\<lambda>v. (iov_base v, iov_len v)) vs \<and>
      list_all is_map_event es"
    by (intro exI [of _ "es @ es'"] exI [of _ "vs @ vs'"]) simp
  ultimately show ?thesis
    using assms pos unfolding map_round_def by simp
qed

lemma map_round_refl:
  "cur_ok dbs \<Longrightarrow> qiov_ok (diov dbs) \<Longrightarrow> map_round mapf host dbs (dbs\<lparr>maps := n\<rparr>)"
  by (simp add: map_round_def cur_ok_def sg_pos_def)

lemma dma_map_loop_returns:
  assumes "map_ok host mapf"
  shows "sg_ok (sg (dsg dbs)) \<Longrightarrow> cur_ok dbs \<Longrightarrow> qiov_ok (diov dbs) \<Longrightarrow>
    \<exists>dbs'. dma_map_loop mapf dbs = Some dbs' \<and> map_round mapf host dbs dbs'"
proof (induction "sg_left dbs" arbitrary: dbs rule: less_induct)
  case less
  let ?e = "sg (dsg dbs) ! sg_cur_index dbs"
  show ?case
  proof (cases "sg_cur_index dbs < length (sg (dsg dbs))")
    case i: True
    show ?thesis
    proof (cases "mapf (maps dbs) (sg_base ?e + sg_cur_byte dbs) (sg_len ?e - sg_cur_byte dbs)")
      case None
      with i have "dma_map_loop mapf dbs = Some (dbs\<lparr>maps := Suc (maps dbs)\<rparr>)"
        by (subst dma_map_loop.simps) (simp add: Let_def)
      with map_round_refl less.prems(2,3) show ?thesis by blast
    next
      case (Some r)
      obtain h k where m: "mapf (maps dbs) (sg_base ?e + sg_cur_byte dbs) (sg_len ?e - sg_cur_byte dbs) = Some (h, k)"
        using Some by (cases r) auto
      obtain q where q: "qemu_iovec_add (diov dbs) h (unat k) = Some q"
        using qemu_iovec_add_spec [OF less.prems(3)] by blast
      note r = dma_mapped_round [OF assms less.prems i m q]
      have "\<exists>dbs'. dma_map_loop mapf (dma_mapped dbs h k q) = Some dbs' \<and> map_round mapf host (dma_mapped dbs h k q) dbs'"
        using r(1) less.prems(1) by (intro less.hyps [OF r(2)]) (simp_all add: map_round_def)
      then show ?thesis
        using dma_map_loop_mapped [of dbs mapf h k q, OF i m q] map_round_trans [OF r(1)] by auto
    qed
  next
    case False
    then have "dma_map_loop mapf dbs = Some (dbs\<lparr>maps := maps dbs\<rparr>)" by (subst dma_map_loop.simps) simp
    with map_round_refl less.prems(2,3) show ?thesis by blast
  qed
qed

subsection \<open>One callback\<close>

text \<open>What the callback does, case by case, on a state whose cursor and vector are well formed.\<close>

definition dma_ok :: "DMAAIOCB \<Rightarrow> bool" where
  "dma_ok dbs \<longleftrightarrow> sg_ok (sg (dsg dbs)) \<and> cur_ok dbs \<and> qiov_ok (diov dbs)"

definition unmap_events :: "QEMUIOVector \<Rightarrow> dma_event list" where
  "unmap_events q = map (\<lambda>v. EvUnmap (iov_base v) (iov_len v)) (iov q)"

definition dma_advance :: "DMAAIOCB \<Rightarrow> DMAAIOCB" where
  "dma_advance dbs = dbs\<lparr>acb := False, sector_num := sector_num dbs + word_of_nat (qsize (diov dbs) div 512)\<rparr>"

lemma dma_blk_unmap_spec:
  assumes "qiov_ok (diov dbs)"
  shows "\<exists>q. dma_blk_unmap dbs = Some (dbs\<lparr>diov := q, dtrace := dtrace dbs @ unmap_events (diov dbs)\<rparr>) \<and>
    qiov_ok q \<and> iov q = [] \<and> qsize q = 0 \<and> nalloc q = nalloc (diov dbs)"
  using assms by (auto simp: dma_blk_unmap_def qemu_iovec_reset_def qiov_ok_def unmap_events_def)

lemma dma_complete_spec:
  assumes "qiov_ok (diov dbs)"
  shows "\<exists>q. dma_complete dbs ret = Some (dbs\<lparr>diov := q, bh := False,
      dtrace := dtrace dbs @ unmap_events (diov dbs) @ [EvComplete ret]\<rparr>) \<and> qiov_ok q \<and> iov q = [] \<and> qsize q = 0"
  using assms
  by (intro exI [of _ "(diov dbs)\<lparr>iov := [], nalloc := 0, qsize := 0\<rparr>"])
     (simp add: dma_complete_def dma_blk_unmap_def qemu_iovec_reset_def qemu_iovec_destroy_def qiov_ok_def unmap_events_def)

lemma dma_blk_cb_complete:
  assumes "dma_ok dbs" "sg_cur_index dbs = length (sg (dsg dbs)) \<or> ret <s 0"
  obtains q where "dma_blk_cb mapf dbs ret = Some ((dma_advance dbs)\<lparr>diov := q, bh := False,
      dtrace := dtrace dbs @ unmap_events (diov dbs) @ [EvComplete ret]\<rparr>)" "qiov_ok q" "iov q = []" "qsize q = 0"
  using assms dma_complete_spec [of "dma_advance dbs" ret]
  by (auto simp: dma_blk_cb_def Let_def dma_ok_def dma_advance_def)

lemma dma_blk_cb_continue:
  assumes "map_ok host mapf" "dma_ok dbs" "sg_cur_index dbs \<noteq> length (sg (dsg dbs))" "\<not> ret <s 0"
  obtains q0 d where
    "map_round mapf host ((dma_advance dbs)\<lparr>diov := q0, dtrace := dtrace dbs @ unmap_events (diov dbs)\<rparr>) d"
    "iov q0 = []" "qiov_ok q0"
    "qsize (diov d) = 0 \<Longrightarrow> dma_blk_cb mapf dbs ret = Some (d\<lparr>waiting := True, dtrace := dtrace d @ [EvWait]\<rparr>)"
    "qsize (diov d) \<noteq> 0 \<Longrightarrow> \<exists>q. dma_blk_cb mapf dbs ret =
       Some (d\<lparr>diov := q, acb := True, dtrace := dtrace d @ [EvIO (sector_num d) (iov q) (qsize q div 512)]\<rparr>) \<and>
       qiov_ok q \<and> iov_addrs (iov q) = take (qsize (diov d) div 512 * 512) (iov_addrs (iov (diov d))) \<and>
       (512 dvd qsize (diov d) \<longrightarrow> q = diov d)"
proof -
  let ?a = "dma_advance dbs"
  have fields: "diov ?a = diov dbs" "dsg ?a = dsg dbs" "dtrace ?a = dtrace dbs" "sg_cur_index ?a = sg_cur_index dbs"
    "sg_cur_byte ?a = sg_cur_byte dbs"
    by (simp_all add: dma_advance_def)
  obtain q0 where q0: "dma_blk_unmap ?a = Some (?a\<lparr>diov := q0, dtrace := dtrace dbs @ unmap_events (diov dbs)\<rparr>)"
    "qiov_ok q0" "iov q0 = []"
    using dma_blk_unmap_spec [of ?a] assms(2) by (auto simp: dma_ok_def fields)
  let ?u = "?a\<lparr>diov := q0, dtrace := dtrace dbs @ unmap_events (diov dbs)\<rparr>"
  have "\<exists>d. dma_map_loop mapf ?u = Some d \<and> map_round mapf host ?u d"
    using assms(2) q0(2) by (intro dma_map_loop_returns [OF assms(1)]) (simp_all add: dma_ok_def cur_ok_def fields)
  then obtain d where d: "dma_map_loop mapf ?u = Some d" "map_round mapf host ?u d" by blast
  have cb: "dma_blk_cb mapf dbs ret =
      (if qsize (diov d) = 0
       then Some (d\<lparr>waiting := True, dtrace := dtrace d @ [EvWait]\<rparr>)
       else do {
         q \<leftarrow> (if qsize (diov d) mod 512 \<noteq> 0
              then qemu_iovec_discard_back (diov d) (qsize (diov d) mod 512) else Some (diov d));
         Some (d\<lparr>diov := q, acb := True, dtrace := dtrace d @ [EvIO (sector_num d) (iov q) (qsize q div 512)]\<rparr>)
       })"
    using assms(3,4) q0(1) d(1) fields unfolding dma_blk_cb_def Let_def dma_advance_def [symmetric] by simp
  have qd: "qiov_ok (diov d)" using d(2) by (simp add: map_round_def)
  have "\<exists>q. dma_blk_cb mapf dbs ret =
       Some (d\<lparr>diov := q, acb := True, dtrace := dtrace d @ [EvIO (sector_num d) (iov q) (qsize q div 512)]\<rparr>) \<and>
       qiov_ok q \<and> iov_addrs (iov q) = take (qsize (diov d) div 512 * 512) (iov_addrs (iov (diov d))) \<and>
       (512 dvd qsize (diov d) \<longrightarrow> q = diov d)" if "qsize (diov d) \<noteq> 0"
  proof (cases "qsize (diov d) mod 512 = 0")
    case True
    then have "qsize (diov d) div 512 * 512 = qsize (diov d)" by auto
    with True that cb qd qiov.sz_law [OF qd] show ?thesis by (intro exI [of _ "diov d"]) simp
  next
    case False
    from qiov.trim_blocks [OF qd, of 512] obtain q' where
      "qemu_iovec_discard_back (diov d) (qsize (diov d) mod 512) = Some q'" "qiov_ok q'"
      "iov_addrs (iov q') = take (qsize (diov d) div 512 * 512) (iov_addrs (iov (diov d)))" by blast
    with False that cb show ?thesis by (intro exI [of _ q']) (simp add: dvd_eq_mod_eq_0)
  qed
  with that [OF d(2) q0(3,2)] cb show thesis by simp
qed

lemma dma_blk_cb_returns:
  assumes "map_ok host mapf" "dma_ok dbs"
  shows "\<exists>dbs'. dma_blk_cb mapf dbs ret = Some dbs' \<and> dma_ok dbs' \<and> dsg dbs' = dsg dbs"
proof (cases "sg_cur_index dbs = length (sg (dsg dbs)) \<or> ret <s 0")
  case True
  from dma_blk_cb_complete [OF assms(2) this, of mapf] obtain q where
    "dma_blk_cb mapf dbs ret = Some ((dma_advance dbs)\<lparr>diov := q, bh := False,
      dtrace := dtrace dbs @ unmap_events (diov dbs) @ [EvComplete ret]\<rparr>)" "qiov_ok q" .
  with assms(2) show ?thesis by (simp add: dma_ok_def cur_ok_def dma_advance_def)
next
  case False
  from dma_blk_cb_continue [OF assms, of ret] False obtain q0 d where d:
    "map_round mapf host ((dma_advance dbs)\<lparr>diov := q0, dtrace := dtrace dbs @ unmap_events (diov dbs)\<rparr>) d"
    "qsize (diov d) = 0 \<Longrightarrow> dma_blk_cb mapf dbs ret = Some (d\<lparr>waiting := True, dtrace := dtrace d @ [EvWait]\<rparr>)"
    "qsize (diov d) \<noteq> 0 \<Longrightarrow> \<exists>q. dma_blk_cb mapf dbs ret =
       Some (d\<lparr>diov := q, acb := True, dtrace := dtrace d @ [EvIO (sector_num d) (iov q) (qsize q div 512)]\<rparr>) \<and> qiov_ok q"
    by metis
  have "dsg d = dsg dbs" "cur_ok d" "qiov_ok (diov d)" using d(1) by (simp_all add: map_round_def dma_advance_def)
  then show ?thesis using d(2,3) assms(2) by (cases "qsize (diov d) = 0") (auto simp: dma_ok_def cur_ok_def)
qed

subsection \<open>Whole transfers\<close>

definition io_events :: "dma_event list \<Rightarrow> (u64 \<times> iovec list \<times> nat) list" where
  "io_events tr = concat (map (\<lambda>e. case e of EvIO s vs n \<Rightarrow> [(s, vs, n)] | _ \<Rightarrow> []) tr)"

definition io_addrs :: "dma_event list \<Rightarrow> nat list" where
  "io_addrs tr = concat (map (\<lambda>(s, vs, n). iov_addrs vs) (io_events tr))"

definition mapped :: "dma_event list \<Rightarrow> (nat \<times> nat) list" where
  "mapped tr = concat (map (\<lambda>e. case e of EvMap a l h \<Rightarrow> [(h, unat l)] | _ \<Rightarrow> []) tr)"

definition unmapped :: "dma_event list \<Rightarrow> (nat \<times> nat) list" where
  "unmapped tr = concat (map (\<lambda>e. case e of EvUnmap h l \<Rightarrow> [(h, l)] | _ \<Rightarrow> []) tr)"

lemma trace_append [simp]:
  "io_events (t @ u) = io_events t @ io_events u" "io_addrs (t @ u) = io_addrs t @ io_addrs u"
  "mapped (t @ u) = mapped t @ mapped u" "unmapped (t @ u) = unmapped t @ unmapped u"
  by (simp_all add: io_events_def io_addrs_def mapped_def unmapped_def)

lemma trace_single [simp]:
  "io_events [EvIO s vs n] = [(s, vs, n)]" "io_events [EvWait] = []" "io_events [EvComplete r] = []" "io_events [] = []"
  "io_addrs [EvIO s vs n] = iov_addrs vs" "io_addrs [EvWait] = []" "io_addrs [EvComplete r] = []" "io_addrs [] = []"
  "mapped [EvIO s vs n] = []" "mapped [EvWait] = []" "mapped [EvComplete r] = []" "mapped [] = []"
  "unmapped [EvIO s vs n] = []" "unmapped [EvWait] = []" "unmapped [EvComplete r] = []" "unmapped [] = []"
  by (simp_all add: io_events_def io_addrs_def mapped_def unmapped_def)

lemma trace_unmap [simp]:
  "io_events (unmap_events q) = []" "io_addrs (unmap_events q) = []" "mapped (unmap_events q) = []"
  "unmapped (unmap_events q) = map (\<lambda>v. (iov_base v, iov_len v)) (iov q)" "EvComplete r \<notin> set (unmap_events q)"
proof -
  have "concat (map (\<lambda>e. case e of EvUnmap h l \<Rightarrow> [(h, l)] | _ \<Rightarrow> []) (map (\<lambda>v. EvUnmap (iov_base v) (iov_len v)) vs)) =
      map (\<lambda>v. (iov_base v, iov_len v)) vs" for vs
    by (induction vs) auto
  then show "unmapped (unmap_events q) = map (\<lambda>v. (iov_base v, iov_len v)) (iov q)"
    by (simp only: unmapped_def unmap_events_def)
qed (auto simp: io_events_def io_addrs_def mapped_def unmap_events_def)


text \<open>Requests for consecutive sectors from \<open>sec\<close> on, each as long as its vector.\<close>

fun io_chain :: "u64 \<Rightarrow> (u64 \<times> iovec list \<times> nat) list \<Rightarrow> bool" where
  "io_chain sec [] = True"
| "io_chain sec ((s, vs, n) # ios) \<longleftrightarrow> s = sec \<and> iov_size vs = n * 512 \<and> io_chain (sec + word_of_nat n) ios"


definition dma_inv :: "(nat \<Rightarrow> nat) \<Rightarrow> QEMUSGList \<Rightarrow> u64 \<Rightarrow> DMAAIOCB \<Rightarrow> bool" where
  "dma_inv host qsg sec dbs \<longleftrightarrow>
     dma_ok dbs \<and> dsg dbs = qsg \<and> 512 dvd sg_pos dbs \<and> sg_pos dbs \<le> length (sg_bytes (sg qsg)) \<and>
     io_addrs (dtrace dbs) = map host (take (sg_pos dbs) (sg_bytes (sg qsg))) \<and>
     io_chain sec (io_events (dtrace dbs)) \<and> 512 dvd qsize (diov dbs) \<and>
     sector_num dbs + word_of_nat (qsize (diov dbs) div 512) = sec + word_of_nat (sg_pos dbs div 512) \<and>
     mapped (dtrace dbs) = unmapped (dtrace dbs) @ map (\<lambda>v. (iov_base v, iov_len v)) (iov (diov dbs))"





lemma dma_init_inv:
  assumes "sg_ok (sg qsg)"
  shows "dma_inv host qsg sec (dma_init qsg sec)"
proof -
  have "cur_ok (dma_init qsg sec)"
    using assms by (auto simp: cur_ok_def dma_init_def sg_ok_def list_all_length word_less_nat_alt unat_pos_iff)
  then show ?thesis
    using assms by (simp add: dma_inv_def dma_ok_def dma_init_def sg_pos_def qiov_ok_def qemu_iovec_init_def)
qed

lemma dma_control [simp]:
  "dma_inv host qsg sec (dbs\<lparr>bh := b\<rparr>) \<longleftrightarrow> dma_inv host qsg sec dbs"
  "dma_inv host qsg sec (dbs\<lparr>waiting := b\<rparr>) \<longleftrightarrow> dma_inv host qsg sec dbs"
  "dma_ok (dbs\<lparr>bh := b\<rparr>) \<longleftrightarrow> dma_ok dbs" "dma_ok (dbs\<lparr>waiting := b\<rparr>) \<longleftrightarrow> dma_ok dbs"
  by (simp_all add: dma_inv_def dma_ok_def cur_ok_def sg_pos_def)


lemma dma_reachable_ok:
  assumes "map_ok host mapf" "sg_ok (sg qsg)" "dma_reachable mapf qsg sec dbs"
  shows "dma_ok dbs \<and> dsg dbs = qsg"
  using assms(3)
proof induction
  case (start dbs)
  have "dma_ok (dma_init qsg sec)" using dma_init_inv [OF assms(2), of host sec] by (simp add: dma_inv_def)
  with start dma_blk_cb_returns [OF assms(1), of "dma_init qsg sec" 0] show ?case by (auto simp: dma_init_def)
next
  case (step dbs dbs')
  have cb: "dma_ok d' \<and> dsg d' = dsg d" if "dma_ok d" "dma_blk_cb mapf d r = Some d'" for d r d'
    using dma_blk_cb_returns [OF assms(1) that(1), of r] that(2) by auto
  from step.hyps(2) show ?case
  proof (rule dma_stepE)
    fix ret assume "dma_blk_cb mapf dbs ret = Some dbs'"
    with cb [of dbs ret] step.IH show ?thesis by simp
  next
    assume "dbs' = continue_after_map_failure (dbs\<lparr>waiting := False\<rparr>)"
    with step.IH show ?thesis by (simp add: continue_after_map_failure_def)
  next
    assume "reschedule_dma mapf dbs = Some dbs'"
    with cb [of "dbs\<lparr>bh := False\<rparr>" 0] step.IH show ?thesis by (simp add: reschedule_dma_def)
  qed
qed

subsection \<open>Synchronous transfers\<close>

lemma dma_buf_rw_loop_spec:
  "unat len < 2 ^ 31 \<Longrightarrow> unat len \<le> length (sg_bytes es) \<Longrightarrow>
   \<exists>acc. dma_buf_rw_loop es ptr len resid = Some (resid - word_of_nat (unat len), acc) \<and>
     concat (map (\<lambda>(b, p, n). [unat b..<unat b + n]) acc) = take (unat len) (sg_bytes es) \<and>
     concat (map (\<lambda>(b, p, n). [p..<p + n]) acc) = [ptr..<ptr + unat len]"
proof (induction es arbitrary: ptr len resid)
  case Nil
  then show ?case by (subst dma_buf_rw_loop.simps) (simp add: sless_zero_iff)
next
  case (Cons e es)
  show ?case
  proof (cases "unat len = 0")
    case True
    then show ?thesis using Cons.prems by (subst dma_buf_rw_loop.simps) (simp add: sless_zero_iff)
  next
    case False
    define x where "x = (ucast (min (scast len :: u64) (sg_len e)) :: c_int)"
    have m: "unat (min (scast len :: u64) (sg_len e)) = min (unat len) (unat (sg_len e))"
      using unat_scast_small [OF Cons.prems(1)] by (auto simp: min_def word_le_nat_alt)
    have x: "unat x = min (unat len) (unat (sg_len e))"
      using Cons.prems(1) unfolding x_def unsigned_ucast_eq m by (intro take_bit_nat_eq_self) simp
    have "unat (len - x) = unat len - unat x" using x by (intro unat_sub) (simp add: word_le_nat_alt)
    then have l: "unat (len - x) < 2 ^ 31" "unat (len - x) \<le> length (sg_bytes es)" "unat len = unat x + unat (len - x)"
      using Cons.prems x by (auto simp: min_def)
    obtain acc where acc: "dma_buf_rw_loop es (ptr + unat x) (len - x) (resid - scast x) =
        Some (resid - scast x - word_of_nat (unat (len - x)), acc)"
      "concat (map (\<lambda>(b, p, n). [unat b..<unat b + n]) acc) = take (unat (len - x)) (sg_bytes es)"
      "concat (map (\<lambda>(b, p, n). [p..<p + n]) acc) = [ptr + unat x..<ptr + unat x + unat (len - x)]"
      using Cons.IH [OF l(1,2)] by blast
    have "dma_buf_rw_loop (e # es) ptr len resid =
        Some (resid - scast x - word_of_nat (unat (len - x)), (sg_base e, ptr, unat x) # acc)"
      using False Cons.prems(1) acc(1) by (subst dma_buf_rw_loop.simps) (simp add: sless_zero_iff x_def [symmetric] Let_def)
    moreover have "scast x = (word_of_nat (unat x) :: u64)"
      using x Cons.prems(1) by (intro scast_word_of_nat) simp
    then have "resid - scast x - word_of_nat (unat (len - x)) = resid - word_of_nat (unat len)"
      unfolding l(3) of_nat_add by (simp only: diff_diff_add)
    moreover have "[unat (sg_base e)..<unat (sg_base e) + unat x] @ take (unat (len - x)) (sg_bytes es) =
        take (unat len) (sg_bytes (e # es))"
      using x l(3) by (cases "unat len \<le> unat (sg_len e)") (auto simp: take_upt)
    moreover have "[ptr..<ptr + unat x] @ [ptr + unat x..<ptr + unat x + unat (len - x)] = [ptr..<ptr + unat len]"
      using l(3) upt_add_eq_append [of ptr "ptr + unat x" "unat (len - x)"] by (simp add: add.assoc)
    ultimately show ?thesis
      using acc(2,3) by (intro exI [of _ "(sg_base e, ptr, unat x) # acc"]) (simp del: sg_bytes_simps)
  qed
qed

lemma dma_memory_set_loop_spec:
  assumes "\<And>a xs ys m. rw a (xs @ ys) m =
      (let (e, m') = rw a xs m; (e', m'') = rw (a + word_of_nat (length xs)) ys m' in (e \<or> e', m''))"
    and "\<And>a m. rw a [] m = (False, m)"
  shows "dma_memory_set_loop rw addr c len err m =
    (let (e, m') = rw addr (replicate (unat len) c) m in (err \<or> e, m'))"
proof (induction "unat len" arbitrary: addr len err m rule: less_induct)
  case less
  show ?case
  proof (cases "len = 0")
    case True
    then show ?thesis using assms(2) by (subst dma_memory_set_loop.simps) simp
  next
    case False
    define l where "l = (if len < 512 then len else 512)"
    have l: "l \<le> len" "l \<noteq> 0" using False by (auto simp: l_def not_less)
    then have u: "unat (len - l) = unat len - unat l" "unat l \<noteq> 0" "unat l \<le> unat len"
      by (simp_all only: unat_sub word_le_nat_alt unsigned_eq_0_iff simp_thms)
    obtain e m' where r: "rw addr (replicate (unat l) c) m = (e, m')" by fastforce
    have "dma_memory_set_loop rw addr c len err m = dma_memory_set_loop rw (addr + l) c (len - l) (err \<or> e) m'"
      using False r by (subst dma_memory_set_loop.simps) (simp add: l_def [symmetric] word_neq_0_conv Let_def)
    also have "\<dots> = (let (e', m'') = rw (addr + l) (replicate (unat (len - l)) c) m' in ((err \<or> e) \<or> e', m''))"
      using u by (intro less) simp
    finally have step: "dma_memory_set_loop rw addr c len err m =
        (let (e', m'') = rw (addr + l) (replicate (unat (len - l)) c) m' in ((err \<or> e) \<or> e', m''))" .
    have "replicate (unat len) c = replicate (unat l) c @ replicate (unat (len - l)) c"
      using u by (simp add: replicate_add [symmetric])
    then show ?thesis
      using step r assms(1) [of addr "replicate (unat l) c" "replicate (unat (len - l)) c" m]
      by (simp add: Let_def case_prod_beta)
  qed
qed

subsection \<open>Properties\<close>

text \<open>Two concrete transfers of two elements: one whose mappings succeed, one whose second mapping
  fails once, in the middle of a sector.\<close>

definition demo_sg :: QEMUSGList where
  "demo_sg = qemu_sglist_add (qemu_sglist_add (qemu_sglist_init 2) 0x1000 0x200) 0x3000 0x400"

definition demo_map :: map_fn where
  "demo_map n a l = (if l AND 0x1ff = 0 \<and> l \<noteq> 0 then Some (unat a + 0x10000, l) else None)"

definition split_sg :: QEMUSGList where
  "split_sg = qemu_sglist_add (qemu_sglist_add (qemu_sglist_init 2) 0x1000 0x100) 0x3000 0x300"

definition split_map :: map_fn where
  "split_map n a l = (if n = 1 \<or> l = 0 then None else Some (unat a + 0x10000, l))"

lemmas dma_eval = dma_blk_cb_def dma_map_loop.simps dma_blk_unmap_def dma_complete_def qemu_iovec_reset_def
  qemu_iovec_add_def qemu_iovec_destroy_def qemu_iovec_discard_back_def iov_discard_back_def dma_init_def
  qemu_iovec_init_def qemu_sglist_add_def qemu_sglist_init_def Let_def

lemma demo_map_ok: "map_ok (\<lambda>a. a + 0x10000) demo_map" "maps_sectors demo_map" "map_ok (\<lambda>a. a + 0x10000) split_map"
proof -
  have m: "(0x1ff :: u64) = mask 9" by (simp add: mask_eq_exp_minus_1)
  have "512 dvd unat k" if "k AND 0x1ff = 0" for k :: u64
  proof -
    from that have "take_bit 9 k = 0" unfolding m take_bit_eq_mask .
    then have "take_bit 9 (unat k) = 0" by (metis unsigned_take_bit_eq unsigned_0)
    then show ?thesis by (simp add: take_bit_eq_mod dvd_eq_mod_eq_0)
  qed
  then show "maps_sectors demo_map" by (auto simp: maps_sectors_def demo_map_def split: if_splits)
qed (auto simp: map_ok_def demo_map_def split_map_def split: if_splits)

lemma demo_sg_ok: "sg_ok (sg demo_sg)" "sg_ok (sg split_sg)"
  by (simp_all add: sg_ok_def demo_sg_def split_sg_def qemu_sglist_add_def qemu_sglist_init_def)

definition demo_pending :: DMAAIOCB where
  "demo_pending =
     \<lparr>dsg = demo_sg, sector_num = 7, sg_cur_index = 2, sg_cur_byte = 0,
      diov = \<lparr>iov = [\<lparr>iov_base = 0x11000, iov_len = 0x200\<rparr>, \<lparr>iov_base = 0x13000, iov_len = 0x400\<rparr>], nalloc = 2, qsize = 0x600\<rparr>,
      acb = True, bh = False, waiting = False, maps = 2,
      dtrace = [EvMap 0x1000 0x200 0x11000, EvMap 0x3000 0x400 0x13000,
        EvIO 7 [\<lparr>iov_base = 0x11000, iov_len = 0x200\<rparr>, \<lparr>iov_base = 0x13000, iov_len = 0x400\<rparr>] 3]\<rparr>"

lemma demo_run:
  "dma_blk_cb demo_map (dma_init demo_sg 7) 0 = Some demo_pending"
  "\<exists>d. dma_blk_cb demo_map demo_pending 0 = Some d \<and> EvComplete 0 \<in> set (dtrace d)"
  by (simp_all add: dma_eval demo_sg_def demo_map_def demo_pending_def)



text \<open>
  C10: Every callback of a transfer returns: in each reachable state the mapping loop ends, no
  assertion fails, and the state stays well formed, for any completion code, also when mappings do
  not end on sector boundaries.
\<close>

theorem dma_callbacks_return:
  assumes "map_ok host mapf" "sg_ok (sg qsg)" "dma_reachable mapf qsg sec dbs"
  shows "\<exists>dbs'. dma_blk_cb mapf dbs ret = Some dbs' \<and> cur_ok dbs' \<and> qiov_ok (diov dbs')"
  using dma_reachable_ok [OF assms] dma_blk_cb_returns [OF assms(1), of dbs ret] by (auto simp: dma_ok_def)

theorem dma_callbacks_return_witness:
  "\<exists>dbs'. dma_blk_cb demo_map demo_pending (- 5) = Some dbs' \<and> cur_ok dbs' \<and> qiov_ok (diov dbs')"
  by (rule dma_callbacks_return [OF demo_map_ok(1) demo_sg_ok(1) dma_reachable.start [OF demo_run(1)]])


text \<open>
  C11: A block transfer and the plugin together: with the plugin loaded and a file traced, starting
  a transfer of a non-empty list always returns, the plugin keeps its invariant and has run exactly
  the block hook, with the first sector and the first element of the list only.
\<close>

theorem dma_blk_io_runs_hook:
  assumes "map_ok host mapf" "sg_ok (sg qsg)" "sg qsg = e # es" "plugin_inv ps" "file_traced ps"
  shows "\<exists>dbs ps'. dma_blk_io (Some my_interface) env mapf qsg sec dir ps = Some (dbs, ps') \<and>
    dma_reachable mapf qsg sec dbs \<and> plugin_inv ps' \<and>
    run_hooks (Some my_interface)
      [(env, if dir = DMA_DIRECTION_TO_DEVICE then BlkWrite sec (sg_base e) (sg_len e)
             else BlkRead sec (sg_base e) (sg_len e))] ps = Some ps'"
proof -
  let ?c = "if dir = DMA_DIRECTION_TO_DEVICE then BlkWrite sec (sg_base e) (sg_len e) else BlkRead sec (sg_base e) (sg_len e)"
  have "dma_ok (dma_init qsg sec)" using dma_init_inv [OF assms(2), of host sec] by (simp add: dma_inv_def)
  then obtain dbs where d: "dma_blk_cb mapf (dma_init qsg sec) 0 = Some dbs"
    using dma_blk_cb_returns [OF assms(1)] by blast
  have "\<forall>(env, c) \<in> set [(env, ?c)]. call_ok c \<and> (\<forall>p v. c \<noteq> HmpSet p v)" by (cases dir) simp_all
  then obtain ps' where ps': "run_hooks (Some my_interface) [(env, ?c)] ps = Some ps'" "plugin_inv ps'"
    using main_plugin.run_returns [OF assms(4,5)] by blast
  then have "dispatch (Some my_interface) env ?c ps = Some ps'"
    by (cases "dispatch (Some my_interface) env ?c ps") simp_all
  with d assms(3) have "dma_blk_io (Some my_interface) env mapf qsg sec dir ps = Some (dbs, ps')"
    by (simp add: dma_blk_io_def)
  with ps' dma_reachable.start [OF d] show ?thesis by blast
qed

theorem dma_blk_io_runs_hook_witness:
  "\<exists>dbs ps'. dma_blk_io (Some my_interface) demo_env demo_map demo_sg 1119016 DMA_DIRECTION_TO_DEVICE demo_traced = Some (dbs, ps') \<and>
     plugin_inv ps'"
proof -
  have "file_traced demo_traced"
    using demo_traced_table(2) by (simp add: file_table_def file_traced_def)
  moreover have "sg demo_sg = \<lparr>sg_base = 0x1000, sg_len = 0x200\<rparr> # [\<lparr>sg_base = 0x3000, sg_len = 0x400\<rparr>]"
    by (simp add: demo_sg_def qemu_sglist_add_def qemu_sglist_init_def)
  ultimately show ?thesis
    using dma_blk_io_runs_hook [OF demo_map_ok(1) demo_sg_ok(1) _ demo_traced_table(3)] by blast
qed

text \<open>
  Copying between a linear buffer and guest memory: for a list whose size field is the sum of
  its lengths, \<open>dma_buf_rw\<close> returns, accesses the first \<open>len\<close> bytes of the list (all of
  them when the list is shorter) in order against consecutive bytes of the buffer, and returns the
  number of bytes of the list it left.
\<close>

lemma dma_buf_rw_copies_prefix:
  assumes "unat len < 2 ^ 31" "unat (sg_size qsg) = length (sg_bytes (sg qsg))"
  shows "\<exists>acc. dma_buf_rw len qsg =
      Some (word_of_nat (length (sg_bytes (sg qsg)) - min (unat len) (length (sg_bytes (sg qsg)))), acc) \<and>
    concat (map (\<lambda>(b, p, n). [unat b..<unat b + n]) acc) = take (unat len) (sg_bytes (sg qsg)) \<and>
    concat (map (\<lambda>(b, p, n). [p..<p + n]) acc) = [0..<min (unat len) (length (sg_bytes (sg qsg)))]"
proof -
  let ?n = "length (sg_bytes (sg qsg))"
  define l where "l = (ucast (min (scast len :: u64) (sg_size qsg)) :: c_int)"
  have "unat (min (scast len :: u64) (sg_size qsg)) = min (unat len) ?n"
    using unat_scast_small [OF assms(1)] assms(2) by (auto simp: min_def word_le_nat_alt)
  then have l: "unat l = min (unat len) ?n"
    using assms(1) unfolding l_def unsigned_ucast_eq by (simp add: take_bit_nat_eq_self)
  have "sg_size qsg = word_of_nat ?n" unfolding assms(2) [symmetric] by simp
  then have "sg_size qsg - word_of_nat (unat l) = word_of_nat (?n - min (unat len) ?n)"
    unfolding l by (simp add: of_nat_diff)
  moreover have "take (unat l) (sg_bytes (sg qsg)) = take (unat len) (sg_bytes (sg qsg))"
    unfolding l by (simp add: min_def)
  moreover have "unat l < 2 ^ 31" "unat l \<le> ?n" using l assms(1) by simp_all
  ultimately show ?thesis
    using dma_buf_rw_loop_spec [of l "sg qsg" 0 "sg_size qsg"] l unfolding dma_buf_rw_def l_def [symmetric] by auto
qed

text \<open>
  Filling guest memory in chunks of 512 bytes is the same as one write of the whole range, for
  every memory whose writes can be split, errors of the parts included.
\<close>

lemma dma_memory_set_is_one_write:
  assumes "\<And>a xs ys m. rw a (xs @ ys) m =
      (let (e, m') = rw a xs m; (e', m'') = rw (a + word_of_nat (length xs)) ys m' in (e \<or> e', m''))"
    and "\<And>a m. rw a [] m = (False, m)"
  shows "dma_memory_set rw addr c len m = rw addr (replicate (unat len) c) m"
  using dma_memory_set_loop_spec [of rw addr c len False m, OF assms]
  by (simp add: dma_memory_set_def case_prod_beta)

end
