(* ===== verification/Net_Checksum.thy ===== *)
theory Net_Checksum
  imports Iov
begin

text \<open>
  \<open>net/checksum.c\<close>: the Internet checksum that the network cards insert. Sums are taken in
  32-bit words as in the code; \<open>be_sum\<close> is the reference, the sum of the big-endian 16-bit
  units of a byte list as a natural number. Buffers are host memory, so pointer arguments are
  addresses. The sum of a vector is the sum of the bytes it describes, and the checksum written
  into a TCP or UDP packet makes its verification succeed.
\<close>

subsection \<open>Operations\<close>

primrec net_checksum_loop :: "nat \<Rightarrow> host_mem \<Rightarrow> nat \<Rightarrow> int \<Rightarrow> int \<Rightarrow> u32 \<Rightarrow> u32" where
  "net_checksum_loop 0 m buf seq i acc = acc"
| "net_checksum_loop (Suc k) m buf seq i acc =
     net_checksum_loop k m buf seq (i + 1)
       (if odd i then acc + ucast (m (buf + nat (i - seq)))
        else acc + push_bit 8 (ucast (m (buf + nat (i - seq)))))"

definition net_checksum_add_cont :: "int \<Rightarrow> host_mem \<Rightarrow> nat \<Rightarrow> int \<Rightarrow> u32" where
  "net_checksum_add_cont len m buf seq = net_checksum_loop (nat len) m buf seq seq 0"

definition net_checksum_add :: "int \<Rightarrow> host_mem \<Rightarrow> nat \<Rightarrow> u32" where
  "net_checksum_add len m buf = net_checksum_add_cont len m buf 0"

lemma fold16_less:
  assumes "drop_bit 16 csum \<noteq> (0 :: u32)"
  shows "unat ((csum AND 0xFFFF) + drop_bit 16 csum) = unat csum mod 65536 + unat csum div 65536"
    and "unat csum mod 65536 + unat csum div 65536 < unat csum"
proof -
  have m: "(0xFFFF :: u32) = mask 16" by (simp add: mask_eq_exp_minus_1)
  have a: "unat (csum AND 0xFFFF) = unat csum mod 65536"
    unfolding m by (simp only: take_bit_eq_mask [symmetric] unsigned_take_bit_eq) (simp add: take_bit_eq_mod)
  have d: "unat (drop_bit 16 csum) = unat csum div 65536"
    by (simp only: unat_drop_bit_eq) (simp add: drop_bit_eq_div)
  have "unat csum < 2 ^ 32" using unat_less_pow [of csum] by simp
  then have "unat csum mod 65536 + unat csum div 65536 < 2 ^ 32" by simp
  then show "unat ((csum AND 0xFFFF) + drop_bit 16 csum) = unat csum mod 65536 + unat csum div 65536"
    by (subst unat_add_lem [THEN iffD1]) (simp_all add: a d)
  have "unat csum div 65536 \<noteq> 0" using assms d by (metis unat_eq_zero)
  then show "unat csum mod 65536 + unat csum div 65536 < unat csum"
    using div_mult_mod_eq [of "unat csum" 65536] by linarith
qed

function net_checksum_fold :: "u32 \<Rightarrow> u32" where
  "net_checksum_fold csum =
     (if drop_bit 16 csum \<noteq> 0 then net_checksum_fold ((csum AND 0xFFFF) + drop_bit 16 csum) else csum)"
  by pat_completeness auto
termination
  by (relation "measure unat") (simp_all add: fold16_less)

declare net_checksum_fold.simps [simp del]

definition net_checksum_finish :: "u32 \<Rightarrow> u16" where
  "net_checksum_finish csum = ucast (NOT (net_checksum_fold csum))"

definition net_checksum_tcpudp :: "u16 \<Rightarrow> u16 \<Rightarrow> host_mem \<Rightarrow> nat \<Rightarrow> nat \<Rightarrow> u16" where
  "net_checksum_tcpudp len proto m addrs buf =
     net_checksum_finish
       (net_checksum_add (uint len) m buf + net_checksum_add 8 m addrs + (ucast proto + ucast len))"

definition net_raw_checksum :: "host_mem \<Rightarrow> nat \<Rightarrow> int \<Rightarrow> u16" where
  "net_raw_checksum m data len = net_checksum_finish (net_checksum_add len m data)"

text \<open>The header fields the code reads: header length, payload length and protocol.\<close>

definition ip_hlen :: "host_mem \<Rightarrow> nat \<Rightarrow> nat" where
  "ip_hlen m data = unat (m (data + 14) AND 0x0f) * 4"

definition ip_plen :: "host_mem \<Rightarrow> nat \<Rightarrow> int" where
  "ip_plen m data = int (unat (m (data + 16)) * 256 + unat (m (data + 17))) - int (ip_hlen m data)"

definition csum_offset :: "byte \<Rightarrow> nat option" where
  "csum_offset proto = (if proto = 6 then Some 16 else if proto = 17 then Some 6 else None)"

definition net_checksum_calculate :: "host_mem \<Rightarrow> nat \<Rightarrow> host_mem" where
  "net_checksum_calculate m data =
     (if m (data + 14) AND 0xf0 \<noteq> 0x40 then m
      else let hlen = ip_hlen m data; plen = ip_plen m data; proto = m (data + 23) in
        (case csum_offset proto of
           None \<Rightarrow> m
         | Some off \<Rightarrow>
             if plen < int off + 2 then m
             else let p = data + 14 + hlen + off;
                      m1 = m(p := 0, p + 1 := 0);
                      cs = net_checksum_tcpudp (word_of_int plen) (ucast proto) m1 (data + 14 + 12) (data + 14 + hlen)
                  in m1(p := ucast (drop_bit 8 cs), p + 1 := ucast (cs AND 0xff))))"

primrec add_iov_loop :: "host_mem \<Rightarrow> iovec list \<Rightarrow> nat \<Rightarrow> nat \<Rightarrow> nat \<Rightarrow> u32 \<Rightarrow> nat \<Rightarrow> u32" where
  "add_iov_loop m [] iov_off sz iovec_off res seq = res"
| "add_iov_loop m (v # vs) iov_off sz iovec_off res seq =
     (if sz = 0 then res
      else if iov_off < iovec_off + iov_len v
      then let len = min (iovec_off + iov_len v - iov_off) sz;
               chunk_buf = iov_base v + (iov_off - iovec_off)
           in add_iov_loop m vs (iov_off + len) (sz - len) (iovec_off + iov_len v)
                (res + net_checksum_add_cont (int len) m chunk_buf (int seq)) (seq + len)
      else add_iov_loop m vs iov_off sz (iovec_off + iov_len v) res seq)"

definition net_checksum_add_iov :: "host_mem \<Rightarrow> iovec list \<Rightarrow> nat \<Rightarrow> nat \<Rightarrow> u32" where
  "net_checksum_add_iov m vs iov_off sz = add_iov_loop m vs iov_off sz 0 0 0"

subsection \<open>The reference sum\<close>

primrec be_sum :: "bool \<Rightarrow> buffer \<Rightarrow> nat" where
  "be_sum p [] = 0"
| "be_sum p (b # bs) = (if p then unat b else 256 * unat b) + be_sum (\<not> p) bs"

lemma be_sum_append: "be_sum p (xs @ ys) = be_sum p xs + be_sum (p \<noteq> odd (length xs)) ys"
proof (induction xs arbitrary: p)
  case (Cons b xs)
  have "(\<not> p) \<noteq> odd (length xs) \<longleftrightarrow> p \<noteq> odd (length (b # xs))" by simp
  then show ?case using Cons [of "\<not> p"] by (simp only: append_Cons be_sum.simps add.assoc)
qed simp

lemma be_sum_le: "be_sum p bs \<le> 65280 * length bs"
proof (induction bs arbitrary: p)
  case (Cons b bs)
  have "unat b < 256" using unat_less_pow [of b] by simp
  with Cons [of "\<not> p"] show ?case by (cases p) auto
qed simp

lemma mem_read_Suc: "mem_read m a (Suc k) = m a # mem_read m (Suc a) k"
  by (simp add: mem_read_def upt_conv_Cons del: upt_Suc)

lemma net_checksum_loop_sum:
  "seq \<le> i \<Longrightarrow> net_checksum_loop k m buf seq i acc =
     acc + of_nat (be_sum (odd i) (mem_read m (buf + nat (i - seq)) k))"
proof (induction k arbitrary: i acc)
  case (Suc k)
  have "nat (i + 1 - seq) = Suc (nat (i - seq))" using Suc.prems by simp
  then show ?case using Suc.prems
    by (simp add: Suc.IH mem_read_Suc push_bit_eq_mult ac_simps)
qed simp

lemma net_checksum_add_cont_sum:
  "net_checksum_add_cont len m buf seq = of_nat (be_sum (odd seq) (mem_read m buf (nat len)))"
  by (simp add: net_checksum_add_cont_def net_checksum_loop_sum)

lemma net_checksum_add_sum: "net_checksum_add len m buf = of_nat (be_sum False (mem_read m buf (nat len)))"
  by (simp add: net_checksum_add_def net_checksum_add_cont_sum)

text \<open>Folding keeps the sum modulo 65535 and ends in 16 bits; it gives 0 only for 0.\<close>

lemma net_checksum_fold_spec:
  "unat (net_checksum_fold csum) < 65536 \<and> unat (net_checksum_fold csum) mod 65535 = unat csum mod 65535 \<and>
   (net_checksum_fold csum = 0 \<longleftrightarrow> csum = 0)"
proof (induction csum rule: net_checksum_fold.induct)
  case (1 csum)
  show ?case
  proof (cases "drop_bit 16 csum = 0")
    case True
    then have "unat csum div 65536 = 0"
      using unat_drop_bit_eq [of 16 csum] by (simp add: drop_bit_eq_div)
    with True show ?thesis by (subst (1 2 3) net_checksum_fold.simps) (simp add: div_eq_0_iff)
  next
    case False
    let ?n = "(csum AND 0xFFFF) + drop_bit 16 csum"
    have n: "unat ?n = unat csum mod 65536 + unat csum div 65536" by (rule fold16_less(1) [OF False])
    have "unat csum = 65535 * (unat csum div 65536) + (unat csum mod 65536 + unat csum div 65536)"
      using div_mult_mod_eq [of "unat csum" 65536] by linarith
    then have "unat csum mod 65535 = unat ?n mod 65535" unfolding n by (metis mod_mult_self4)
    moreover have "unat ?n \<noteq> 0"
      using fold16_less(2) [OF False] n div_mult_mod_eq [of "unat csum" 65536] by linarith
    moreover have "csum \<noteq> 0" using False by auto
    ultimately show ?thesis using 1 [OF False] False
      by (subst (1 2 3) net_checksum_fold.simps) (simp add: unat_eq_zero [symmetric])
  qed
qed

lemma add_iov_loop_sum:
  assumes "iovec_off \<le> iov_off" "sz \<le> iov_size vs + iovec_off - iov_off"
  shows "add_iov_loop m vs iov_off sz iovec_off res seq =
     res + of_nat (be_sum (odd seq) (map m (take sz (drop (iov_off - iovec_off) (iov_addrs vs)))))"
  using assms
proof (induction vs arbitrary: iov_off sz iovec_off res seq)
  case (Cons v vs)
  let ?l = "iov_len v" and ?k = "iov_off - iovec_off"
  show ?case
  proof (cases "sz = 0 \<or> iovec_off + ?l \<le> iov_off")
    case True
    then show ?thesis using Cons.prems Cons.IH [of "iovec_off + ?l" iov_off sz res seq] by auto
  next
    case False
    let ?len = "min (iovec_off + ?l - iov_off) sz"
    let ?c = "mem_read m (iov_base v + ?k) ?len"
    have k: "?k < ?l" "?len = min (?l - ?k) sz" using False Cons.prems(1) by auto
    have "take sz (drop ?k (iov_addrs (v # vs))) =
        [iov_base v + ?k..<iov_base v + ?k + ?len] @ take (sz - ?len) (iov_addrs vs)"
      using take_drop_iov_Cons [OF k(1), of sz vs] by (simp only: k(2))
    then have A: "map m (take sz (drop ?k (iov_addrs (v # vs)))) = ?c @ map m (take (sz - ?len) (iov_addrs vs))"
      by (simp add: mem_read_def)
    have off: "sz - ?len = 0 \<or> iov_off + ?len = iovec_off + ?l"
      using False Cons.prems(1) by auto
    have step: "add_iov_loop m (v # vs) iov_off sz iovec_off res seq =
        add_iov_loop m vs (iov_off + ?len) (sz - ?len) (iovec_off + ?l) (res + of_nat (be_sum (odd seq) ?c)) (seq + ?len)"
      using False by (simp add: Let_def net_checksum_add_cont_sum)
    have rest: "add_iov_loop m vs (iov_off + ?len) (sz - ?len) (iovec_off + ?l) r (seq + ?len) =
        r + of_nat (be_sum (odd (seq + ?len)) (map m (take (sz - ?len) (iov_addrs vs))))" for r
    proof (cases "sz - ?len = 0")
      case True
      have "add_iov_loop m vs a 0 b r q = r" for a b q by (cases vs) simp_all
      then show ?thesis by (simp only: True take_0 list.map be_sum.simps) simp
    next
      case more: False
      from off more have e: "iov_off + ?len = iovec_off + ?l" by (simp only: simp_thms)
      then have "sz - ?len \<le> iov_size vs" using Cons.prems(2) by simp
      then show ?thesis
        using Cons.IH [of "iovec_off + ?l" "iovec_off + ?l" "sz - ?len" r "seq + ?len"] unfolding e by simp
    qed
    have par: "odd (seq + ?len) \<longleftrightarrow> odd seq \<noteq> odd (length ?c)" by simp
    show ?thesis unfolding step rest A be_sum_append of_nat_add par by (simp only: add.assoc)
  qed
qed simp

subsection \<open>The checksum of a packet\<close>

text \<open>What the receiver checks: the sum with the checksum in place folds to all ones.\<close>

lemma net_checksum_fold_multiple:
  assumes "unat csum mod 65535 = 0" "csum \<noteq> 0"
  shows "net_checksum_finish csum = 0"
proof -
  let ?f = "net_checksum_fold csum"
  from net_checksum_fold_spec [of csum] assms have f: "unat ?f < 65536" "unat ?f mod 65535 = 0" "unat ?f \<noteq> 0"
    by (auto simp: unat_eq_zero)
  from f(2) obtain k where k: "unat ?f = 65535 * k" by (meson dvdE mod_0_imp_dvd)
  with f(1,3) have "k = 1" by (cases k) auto
  with k have "unat ?f = unat (0xFFFF :: u32)" by simp
  then have "?f = 0xFFFF" by (rule unsigned_word_eqI)
  then show ?thesis by (simp add: net_checksum_finish_def)
qed

lemma net_checksum_finish_value:
  "unat (net_checksum_finish csum) = 65535 - unat (net_checksum_fold csum)"
proof -
  let ?f = "net_checksum_fold csum"
  have lt: "unat ?f < 2 ^ 16" using net_checksum_fold_spec [of csum] by simp
  have "ucast (NOT ?f) = (NOT (ucast ?f) :: u16)" by (rule bit_word_eqI) (simp add: bit_simps)
  moreover have "unat (ucast ?f :: u16) = unat ?f" using lt by (simp add: unsigned_ucast_eq take_bit_nat_eq_self)
  moreover have "unat (NOT w) = 65535 - unat w" for w :: u16
  proof -
    have "NOT w = - 1 - w" using word_add_not [of w] by (simp add: algebra_simps)
    moreover have "unat (- 1 :: u16) = 65535" by (simp add: unsigned_minus_1_eq_mask mask_eq_exp_minus_1)
    ultimately show ?thesis by (simp add: unat_sub word_n1_ge)
  qed
  ultimately show ?thesis by (simp add: net_checksum_finish_def)
qed

lemma unat_of_nat_u32: "n < 2 ^ 32 \<Longrightarrow> unat (of_nat n :: u32) = n"
  by (simp add: unsigned_of_nat take_bit_nat_eq_self)

lemma finish_makes_multiple:
  fixes T :: nat
  assumes "0 < T" "T + 65535 < 2 ^ 32"
  shows "net_checksum_finish (of_nat (T + unat (net_checksum_finish (of_nat T)))) = 0"
proof -
  let ?f = "unat (net_checksum_fold (of_nat T))"
  have uT: "unat (of_nat T :: u32) = T" using assms(2) by (simp add: unat_of_nat_u32)
  have f: "?f < 65536" "?f mod 65535 = T mod 65535" using net_checksum_fold_spec [of "of_nat T"] uT by simp_all
  have "(T + (65535 - ?f)) mod 65535 = 0"
  proof -
    have "(T + (65535 - ?f)) mod 65535 = (?f + (65535 - ?f)) mod 65535"
      using f(2) by (metis mod_add_left_eq)
    also have "\<dots> = 0" using f(1) by simp
    finally show ?thesis .
  qed
  moreover have "unat (of_nat (T + (65535 - ?f)) :: u32) = T + (65535 - ?f)"
    using assms(2) by (intro unat_of_nat_u32) simp
  moreover have "of_nat (T + (65535 - ?f)) \<noteq> (0 :: u32)" using calculation(2) assms(1) by (metis add_is_0 less_numeral_extra(3) unat_0)
  ultimately show ?thesis unfolding net_checksum_finish_value by (intro net_checksum_fold_multiple) simp_all
qed

text \<open>Storing a value big-endian at an even distance adds it to the sum of zeros there.\<close>

lemma be_sum_store16:
  assumes "even off" "off + 2 \<le> L" "m1 (buf + off) = 0" "m1 (buf + off + 1) = 0"
    "m2 = m1(buf + off := ucast (drop_bit 8 (c :: u16)), buf + off + 1 := ucast (c AND 0xff))"
  shows "be_sum False (mem_read m2 buf L) = be_sum False (mem_read m1 buf L) + unat c"
proof -
  obtain k where L: "L = off + (Suc (Suc k))" using assms(2) by (metis add_2_eq_Suc le_add_diff_inverse add.assoc)
  have pre: "mem_read m2 buf off = mem_read m1 buf off" unfolding assms(5) by (simp add: mem_read_def)
  have post: "mem_read m2 (buf + off + 2) k = mem_read m1 (buf + off + 2) k" unfolding assms(5) by (simp add: mem_read_def)
  have sp: "mem_read mm buf L = mem_read mm buf off @ mm (buf + off) # mm (buf + off + 1) # mem_read mm (buf + off + 2) k" for mm
    unfolding L mem_read_add by (simp add: mem_read_Suc)
  have hi: "unat (ucast (drop_bit 8 c) :: byte) = unat c div 256"
    using unat_less_pow [of c] unfolding unsigned_ucast_eq unat_drop_bit_eq
    by (simp add: drop_bit_eq_div take_bit_nat_eq_self less_mult_imp_div_less)
  have ff: "(0xff :: u16) = mask 8" by (simp add: mask_eq_exp_minus_1)
  have lo: "unat (ucast (c AND 0xff) :: byte) = unat c mod 256"
    unfolding ff take_bit_eq_mask [symmetric] unsigned_ucast_eq unsigned_take_bit_eq by (simp add: take_bit_eq_mod)
  show ?thesis using assms(1,3,4) unfolding sp be_sum_append pre post
    by (simp add: assms(5) hi lo)
qed

lemma tcpudp_sum:
  "net_checksum_tcpudp len proto m addrs buf = net_checksum_finish (of_nat
     (be_sum False (mem_read m buf (unat len)) + be_sum False (mem_read m addrs 8) + unat proto + unat len))"
proof -
  have "ucast w = (of_nat (unat w) :: u32)" for w :: u16 by simp
  then show ?thesis by (simp add: net_checksum_tcpudp_def net_checksum_add_sum add.assoc nat_uint_eq)
qed

text \<open>
  C40: Inserting the checksum of an IPv4 packet that carries TCP or UDP behind a full header makes the
  receiver's check succeed: the checksum over the payload, the addresses, protocol and length, taken
  again with the inserted value in place, is zero. Only the two bytes of the checksum change.\<close>

theorem net_checksum_calculate_verifies:
  assumes ip4: "m (data + 14) AND 0xf0 = 0x40" and hlen: "20 \<le> ip_hlen m data"
    and off: "csum_offset (m (data + 23)) = Some off" and plen: "int off + 2 \<le> ip_plen m data"
  shows "net_checksum_tcpudp (word_of_int (ip_plen m data)) (ucast (m (data + 23)))
      (net_checksum_calculate m data) (data + 26) (data + 14 + ip_hlen m data) = 0 \<and>
    (\<forall>x. x \<noteq> data + 14 + ip_hlen m data + off \<and> x \<noteq> data + 14 + ip_hlen m data + off + 1 \<longrightarrow>
       net_checksum_calculate m data x = m x)"
proof -
  let ?buf = "data + 14 + ip_hlen m data" and ?L = "nat (ip_plen m data)" and ?proto = "ucast (m (data + 23)) :: u16"
  let ?len = "word_of_int (ip_plen m data) :: u16"
  define m1 where "m1 = m(?buf + off := 0, ?buf + off + 1 := 0)"
  define cs where "cs = net_checksum_tcpudp ?len ?proto m1 (data + 26) ?buf"
  define m2 where "m2 = m1(?buf + off := ucast (drop_bit 8 cs), ?buf + off + 1 := ucast (cs AND 0xff))"
  have calc: "net_checksum_calculate m data = m2"
    using ip4 off plen by (simp add: net_checksum_calculate_def Let_def m2_def cs_def m1_def add.assoc)
  have "unat (m (data + 16)) < 256" "unat (m (data + 17)) < 256"
    using unat_less_pow [of "m (data + 16)"] unat_less_pow [of "m (data + 17)"] by simp_all
  then have "unat (m (data + 16)) * 256 + unat (m (data + 17)) < 65536" by linarith
  then have L: "?L < 65536" "off + 2 \<le> ?L" using plen unfolding ip_plen_def by linarith+
  have "?len = of_nat ?L" by (rule of_nat_nat [symmetric]) (use plen in linarith)
  then have len: "unat ?len = ?L" using L(1) by (simp only: unsigned_of_nat) (simp add: take_bit_nat_eq_self)
  define T where "T mm = be_sum False (mem_read mm ?buf ?L) + be_sum False (mem_read mm (data + 26) 8) +
    unat ?proto + unat ?len" for mm
  have even: "even off" using off by (auto simp: csum_offset_def split: if_splits)
  have pay: "be_sum False (mem_read m2 ?buf ?L) = be_sum False (mem_read m1 ?buf ?L) + unat cs"
    by (rule be_sum_store16 [OF even L(2) _ _ m2_def]) (simp_all add: m1_def)
  have adr: "mem_read m2 (data + 26) 8 = mem_read m1 (data + 26) 8"
    using hlen by (auto simp: m2_def mem_read_def)
  have T: "T m2 = T m1 + unat cs" unfolding T_def pay adr by simp
  have "unat (m (data + 23)) < 256" using unat_less_pow [of "m (data + 23)"] by simp
  then have "unat ?proto < 256" by (simp add: unsigned_ucast_eq take_bit_nat_eq_self)
  then have bound: "T m1 + 65535 < 2 ^ 32" "0 < T m1"
    using be_sum_le [of False "mem_read m1 ?buf ?L"] be_sum_le [of False "mem_read m1 (data + 26) 8"] L
    unfolding T_def len by simp_all (use plen in linarith)
  have cs: "cs = net_checksum_finish (of_nat (T m1))" unfolding cs_def tcpudp_sum T_def len ..
  have "net_checksum_tcpudp ?len ?proto m2 (data + 26) ?buf = net_checksum_finish (of_nat (T m2))"
    unfolding tcpudp_sum T_def len ..
  also have "\<dots> = 0" unfolding T cs by (rule finish_makes_multiple [OF bound(2,1)])
  finally show ?thesis unfolding calc by (simp add: m2_def m1_def)
qed

theorem net_checksum_calculate_verifies_witness:
  "net_checksum_tcpudp 8 17 (net_checksum_calculate ((\<lambda>_. 0)(14 := 0x45, 17 := 28, 23 := 17)) 0) 26 34 = 0"
  using net_checksum_calculate_verifies [of "(\<lambda>_. 0)(14 := 0x45, 17 := 28, 23 := 17)" 0 6]
  by (simp add: ip_hlen_def ip_plen_def csum_offset_def)

text \<open>
  The sum over a window of a scatter/gather vector is the sum over the bytes the vector describes
  there, wherever the window and the elements begin and end, on odd offsets too.\<close>

lemma net_checksum_add_iov_gathers:
  assumes "iov_off + n \<le> iov_size vs"
  shows "net_checksum_add_iov m vs iov_off n =
    of_nat (be_sum False (map m (take n (drop iov_off (iov_addrs vs)))))"
  using assms add_iov_loop_sum [of 0 iov_off n vs m 0 0] by (simp add: net_checksum_add_iov_def)

end
