(* ===== verification/E1000.thy ===== *)
theory E1000
  imports Net_Checksum Plugin_Interface
begin

text \<open>
  \<open>hw/net/e1000.c\<close>, the network card: its state, interrupts with mitigation, the PHY and its
  auto-negotiation, the serial EEPROM, reset and migration hooks. Register files are functions from
  indices to words; the registers keep the names of the code and the bit masks their values.
  Guest memory is a function from bus addresses to bytes: the card reaches it through
  \<open>pci_dma_read\<close> and \<open>pci_dma_write\<close>. What leaves the card (plugin hooks, frames on
  the wire, the interrupt pin, a flush of queued packets) is recorded in \<open>nic_trace\<close>.
\<close>

subsection \<open>Registers\<close>

abbreviation (input) CTRL :: nat where "CTRL \<equiv> 0x0"
abbreviation (input) STATUS :: nat where "STATUS \<equiv> 0x2"
abbreviation (input) EECD :: nat where "EECD \<equiv> 0x4"
abbreviation (input) EERD :: nat where "EERD \<equiv> 0x5"
abbreviation (input) MDIC :: nat where "MDIC \<equiv> 0x8"
abbreviation (input) VET :: nat where "VET \<equiv> 0xE"
abbreviation (input) ICR :: nat where "ICR \<equiv> 0x30"
abbreviation (input) ITR :: nat where "ITR \<equiv> 0x31"
abbreviation (input) ICS :: nat where "ICS \<equiv> 0x32"
abbreviation (input) IMS :: nat where "IMS \<equiv> 0x34"
abbreviation (input) IMC :: nat where "IMC \<equiv> 0x36"
abbreviation (input) RCTL :: nat where "RCTL \<equiv> 0x40"
abbreviation (input) TCTL :: nat where "TCTL \<equiv> 0x100"
abbreviation (input) LEDCTL :: nat where "LEDCTL \<equiv> 0x380"
abbreviation (input) PBA :: nat where "PBA \<equiv> 0x400"
abbreviation (input) RDBAL :: nat where "RDBAL \<equiv> 0xA00"
abbreviation (input) RDBAH :: nat where "RDBAH \<equiv> 0xA01"
abbreviation (input) RDLEN :: nat where "RDLEN \<equiv> 0xA02"
abbreviation (input) RDH :: nat where "RDH \<equiv> 0xA04"
abbreviation (input) RDT :: nat where "RDT \<equiv> 0xA06"
abbreviation (input) RDTR :: nat where "RDTR \<equiv> 0xA08"
abbreviation (input) RADV :: nat where "RADV \<equiv> 0xA0B"
abbreviation (input) TDBAL :: nat where "TDBAL \<equiv> 0xE00"
abbreviation (input) TDBAH :: nat where "TDBAH \<equiv> 0xE01"
abbreviation (input) TDLEN :: nat where "TDLEN \<equiv> 0xE02"
abbreviation (input) TDH :: nat where "TDH \<equiv> 0xE04"
abbreviation (input) TDT :: nat where "TDT \<equiv> 0xE06"
abbreviation (input) TXDCTL :: nat where "TXDCTL \<equiv> 0xE0A"
abbreviation (input) TADV :: nat where "TADV \<equiv> 0xE0B"
abbreviation (input) CRCERRS :: nat where "CRCERRS \<equiv> 0x1000"
abbreviation (input) MPC :: nat where "MPC \<equiv> 0x1004"
abbreviation (input) GPRC :: nat where "GPRC \<equiv> 0x101D"
abbreviation (input) GPTC :: nat where "GPTC \<equiv> 0x1020"
abbreviation (input) TORL :: nat where "TORL \<equiv> 0x1030"
abbreviation (input) TORH :: nat where "TORH \<equiv> 0x1031"
abbreviation (input) TOTL :: nat where "TOTL \<equiv> 0x1032"
abbreviation (input) TOTH :: nat where "TOTH \<equiv> 0x1033"
abbreviation (input) TPR :: nat where "TPR \<equiv> 0x1034"
abbreviation (input) TPT :: nat where "TPT \<equiv> 0x1035"
abbreviation (input) MTA :: nat where "MTA \<equiv> 0x1480"
abbreviation (input) RA :: nat where "RA \<equiv> 0x1500"
abbreviation (input) VFTA :: nat where "VFTA \<equiv> 0x1580"
abbreviation (input) WUFC :: nat where "WUFC \<equiv> 0x1602"
abbreviation (input) MANC :: nat where "MANC \<equiv> 0x1608"
abbreviation (input) SWSM :: nat where "SWSM \<equiv> 0x16D4"

abbreviation (input) PHY_CTRL :: nat where "PHY_CTRL \<equiv> 0x00"
abbreviation (input) PHY_STATUS :: nat where "PHY_STATUS \<equiv> 0x01"
abbreviation (input) PHY_ID1 :: nat where "PHY_ID1 \<equiv> 0x02"
abbreviation (input) PHY_ID2 :: nat where "PHY_ID2 \<equiv> 0x03"
abbreviation (input) PHY_AUTONEG_ADV :: nat where "PHY_AUTONEG_ADV \<equiv> 0x04"
abbreviation (input) PHY_LP_ABILITY :: nat where "PHY_LP_ABILITY \<equiv> 0x05"
abbreviation (input) PHY_AUTONEG_EXP :: nat where "PHY_AUTONEG_EXP \<equiv> 0x06"
abbreviation (input) PHY_1000T_CTRL :: nat where "PHY_1000T_CTRL \<equiv> 0x09"
abbreviation (input) PHY_1000T_STATUS :: nat where "PHY_1000T_STATUS \<equiv> 0x0A"

abbreviation (input) STATUS_LU :: u32 where "STATUS_LU \<equiv> 0x2"
abbreviation (input) RAH_AV :: u32 where "RAH_AV \<equiv> 0x80000000"

subsection \<open>State\<close>

record e1000_tx =
  tx_header :: host_mem
  vlan_header :: buffer
  tx_buf :: host_mem \<comment> \<open>\<open>vlan\<close> at 0, \<open>data\<close> at 4\<close>
  tx_size :: u16
  sum_needed :: byte
  vlan_needed :: bool
  ipcss :: byte
  ipcso :: byte
  ipcse :: u16
  tucss :: byte
  tucso :: byte
  tucse :: u16
  hdr_len :: byte
  tx_mss :: u16
  paylen :: u32
  tso_frames :: u16
  tx_tse :: bool
  tx_ip :: bool
  tx_tcp :: bool
  cptse :: bool

record eecd_regs =
  val_in :: u32
  bitnum_in :: u16
  bitnum_out :: u16
  reading :: bool
  old_eecd :: u32

datatype nic_event = EvHook hook_call | EvWire buffer | EvIrq bool | EvFlush

record E1000State =
  mac_reg :: "nat \<Rightarrow> u32"
  phy_reg :: "nat \<Rightarrow> u16"
  eeprom_data :: "nat \<Rightarrow> u16"
  rxbuf_size :: u32
  rxbuf_min_shift :: u32
  tx :: e1000_tx
  eecd_state :: eecd_regs
  autoneg_timer :: "int option"
  mit_timer :: "int option"
  mit_timer_on :: bool
  mit_irq_level :: bool
  mit_ide :: u32
  compat_flags :: u32
  link_is_down :: bool \<comment> \<open>\<open>link_down\<close> of the network client\<close>
  bus_master :: bool \<comment> \<open>\<open>PCI_COMMAND_MASTER\<close> in the configuration space\<close>
  gmem :: "u64 \<Rightarrow> byte"
  now_ns :: int
  nic_trace :: "nic_event list"

definition mac_set :: "nat \<Rightarrow> u32 \<Rightarrow> E1000State \<Rightarrow> E1000State" where
  "mac_set i v s = s\<lparr>mac_reg := (mac_reg s)(i := v)\<rparr>"

definition phy_set :: "nat \<Rightarrow> u16 \<Rightarrow> E1000State \<Rightarrow> E1000State" where
  "phy_set i v s = s\<lparr>phy_reg := (phy_reg s)(i := v)\<rparr>"

definition log_event :: "nic_event \<Rightarrow> E1000State \<Rightarrow> E1000State" where
  "log_event e s = s\<lparr>nic_trace := nic_trace s @ [e]\<rparr>"

definition start_autoneg :: "E1000State \<Rightarrow> E1000State" where
  "start_autoneg s = s\<lparr>autoneg_timer := Some (now_ns s div 1000000 + 500)\<rparr>"

subsection \<open>Link and PHY\<close>

definition e1000_link_down :: "E1000State \<Rightarrow> E1000State" where
  "e1000_link_down s =
     phy_set PHY_LP_ABILITY (phy_reg s PHY_LP_ABILITY AND NOT 0x4000)
      (phy_set PHY_STATUS (phy_reg s PHY_STATUS AND NOT 0x4 AND NOT 0x20)
        (mac_set STATUS (mac_reg s STATUS AND NOT STATUS_LU) s))"

definition e1000_link_up :: "E1000State \<Rightarrow> E1000State" where
  "e1000_link_up s =
     phy_set PHY_STATUS (phy_reg s PHY_STATUS OR 0x4) (mac_set STATUS (mac_reg s STATUS OR STATUS_LU) s)"

definition have_autoneg :: "E1000State \<Rightarrow> bool" where
  "have_autoneg s \<longleftrightarrow> compat_flags s AND 1 \<noteq> 0 \<and> phy_reg s PHY_CTRL AND 0x1000 \<noteq> 0"

definition set_phy_ctrl :: "u16 \<Rightarrow> E1000State \<Rightarrow> E1000State" where
  "set_phy_ctrl v s =
     (let s1 = phy_set PHY_CTRL (v AND NOT (0x3f OR 0x8000 OR 0x0200)) s
      in if have_autoneg s1 \<and> v AND 0x0200 \<noteq> 0 then start_autoneg (e1000_link_down s1) else s1)"

definition phy_regcap :: "nat \<Rightarrow> byte" where
  "phy_regcap a =
     (if a \<in> {PHY_STATUS, PHY_ID1, PHY_LP_ABILITY, PHY_1000T_STATUS, 0x15, PHY_ID2, 0x11, PHY_AUTONEG_EXP} then 1
      else if a \<in> {0x14, 0x10, PHY_CTRL, PHY_1000T_CTRL, PHY_AUTONEG_ADV} then 3 else 0)"

definition phy_reg_init :: "nat \<Rightarrow> u16" where
  "phy_reg_init = (\<lambda>_. 0)(
     PHY_CTRL := 0x0040 OR 0x0100 OR 0x1000,
     PHY_STATUS := 0x0001 OR 0x0004 OR 0x0008 OR 0x0040 OR 0x0100 OR 0x0800 OR 0x1000 OR 0x2000 OR 0x4000,
     PHY_ID1 := 0x141, PHY_AUTONEG_ADV := 0xde1, PHY_LP_ABILITY := 0x1e0,
     PHY_1000T_CTRL := 0x0e00, PHY_1000T_STATUS := 0x3c00,
     0x10 := 0x360, 0x11 := 0xac00, 0x14 := 0x0d60)"

definition mac_reg_init :: "nat \<Rightarrow> u32" where
  "mac_reg_init = (\<lambda>_. 0)(
     PBA := 0x00100030, LEDCTL := 0x602,
     CTRL := 0x00100000 OR 0x00040000 OR 0x200 OR 0x40,
     STATUS := 0x80000000 OR 0x00080000 OR 0x300 OR 0x400 OR 0x80 OR 0x1 OR STATUS_LU,
     MANC := 0x00200000 OR 0x00020000 OR 0x2000 OR 0x200 OR 0x100)"

subsection \<open>Interrupts\<close>

definition mit_update_delay :: "u32 \<Rightarrow> u32 \<Rightarrow> u32" where
  "mit_update_delay cur value = (if value \<noteq> 0 \<and> (cur = 0 \<or> value < cur) then value else cur)"

text \<open>The mitigation delay for the pending causes, and arming its timer.\<close>

definition mit_rearm :: "u32 \<Rightarrow> E1000State \<Rightarrow> E1000State" where
  "mit_rearm pending s =
     (let d0 = 0;
          d1 = (if mit_ide s \<noteq> 0 \<and> pending AND (0x2 OR 0x1) \<noteq> 0 then mit_update_delay d0 (mac_reg s TADV * 4) else d0);
          d2 = (if mac_reg s RDTR \<noteq> 0 \<and> pending AND 0x80 \<noteq> 0 then mit_update_delay d1 (mac_reg s RADV * 4) else d1);
          d3 = mit_update_delay d2 (mac_reg s ITR);
          s1 = (if d3 \<noteq> 0 then s\<lparr>mit_timer_on := True, mit_timer := Some (now_ns s + uint (d3 * 256))\<rparr> else s)
      in s1\<lparr>mit_ide := 0\<rparr>)"

definition set_interrupt_cause :: "u32 \<Rightarrow> E1000State \<Rightarrow> E1000State" where
  "set_interrupt_cause val s0 =
     (let s = mac_set ICS val (mac_set ICR val s0);
          pending_ints = mac_reg s IMS AND mac_reg s ICR
      in if \<not> mit_irq_level s \<and> pending_ints \<noteq> 0 \<and> mit_timer_on s then s
         else let s1 = (if \<not> mit_irq_level s \<and> pending_ints \<noteq> 0 \<and> compat_flags s AND 2 \<noteq> 0
                        then mit_rearm pending_ints s else s)
              in log_event (EvIrq (pending_ints \<noteq> 0)) (s1\<lparr>mit_irq_level := (pending_ints \<noteq> 0)\<rparr>))"

definition e1000_mit_timer :: "E1000State \<Rightarrow> E1000State" where
  "e1000_mit_timer s = set_interrupt_cause (mac_reg s ICR) (s\<lparr>mit_timer_on := False\<rparr>)"

definition set_ics :: "u32 \<Rightarrow> E1000State \<Rightarrow> E1000State" where
  "set_ics val s = set_interrupt_cause (val OR mac_reg s ICR) s"

definition e1000_autoneg_timer :: "E1000State \<Rightarrow> E1000State" where
  "e1000_autoneg_timer s =
     (if link_is_down s then s
      else let s1 = e1000_link_up s;
               s2 = phy_set PHY_LP_ABILITY (phy_reg s1 PHY_LP_ABILITY OR 0x4000) s1;
               s3 = phy_set PHY_STATUS (phy_reg s2 PHY_STATUS OR 0x20) s2
           in set_ics 0x4 s3)"

definition set_icr :: "u32 \<Rightarrow> E1000State \<Rightarrow> E1000State" where
  "set_icr val s = set_interrupt_cause (mac_reg s ICR AND NOT val) s"

definition set_imc :: "u32 \<Rightarrow> E1000State \<Rightarrow> E1000State" where
  "set_imc val s = set_ics 0 (mac_set IMS (mac_reg s IMS AND NOT val) s)"

definition set_ims :: "u32 \<Rightarrow> E1000State \<Rightarrow> E1000State" where
  "set_ims val s = set_ics 0 (mac_set IMS (mac_reg s IMS OR val) s)"

definition e1000_set_link_status :: "E1000State \<Rightarrow> E1000State" where
  "e1000_set_link_status s =
     (let s1 = (if link_is_down s then e1000_link_down s
                else if have_autoneg s \<and> phy_reg s PHY_STATUS AND 0x20 = 0 then start_autoneg s
                else e1000_link_up s)
      in if mac_reg s1 STATUS \<noteq> mac_reg s STATUS then set_ics 0x4 s1 else s1)"

subsection \<open>Reset and control\<close>

definition rxbufsize :: "u32 \<Rightarrow> u32" where
  "rxbufsize v0 =
     (let v = v0 AND (0x02000000 OR 0x00010000 OR 0x00020000 OR 0x00030000)
      in if v = 0x02010000 then 16384 else if v = 0x02020000 then 8192
         else if v = 0x02030000 then 4096 else if v = 0x00010000 then 1024
         else if v = 0x00020000 then 512 else if v = 0x00030000 then 256 else 2048)"

definition tx_zero :: e1000_tx where
  "tx_zero = \<lparr>tx_header = (\<lambda>_. 0), vlan_header = [0, 0, 0, 0], tx_buf = (\<lambda>_. 0), tx_size = 0, sum_needed = 0,
     vlan_needed = False, ipcss = 0, ipcso = 0, ipcse = 0, tucss = 0, tucso = 0, tucse = 0, hdr_len = 0,
     tx_mss = 0, paylen = 0, tso_frames = 0, tx_tse = False, tx_ip = False, tx_tcp = False, cptse = False\<rparr>"

definition e1000_reset :: "u16 \<Rightarrow> buffer \<Rightarrow> E1000State \<Rightarrow> E1000State" where
  "e1000_reset phy_id2 macaddr s =
     (let s1 = s\<lparr>autoneg_timer := None, mit_timer := None, mit_timer_on := False, mit_irq_level := False,
                  mit_ide := 0, phy_reg := phy_reg_init(PHY_ID2 := phy_id2), mac_reg := mac_reg_init,
                  rxbuf_min_shift := 1, tx := tx_zero\<rparr>;
          s2 = (if link_is_down s1 then e1000_link_down s1 else s1);
          b = (\<lambda>i. ucast (macaddr ! i) :: u32)
      in mac_set (RA + 1) (RAH_AV OR b 4 OR push_bit 8 (b 5))
           (mac_set RA (b 0 OR push_bit 8 (b 1) OR push_bit 16 (b 2) OR push_bit 24 (b 3)) s2))"

definition set_ctrl :: "u32 \<Rightarrow> E1000State \<Rightarrow> E1000State" where
  "set_ctrl val s = mac_set CTRL (val AND NOT 0x04000000) s"

definition set_rx_control :: "u32 \<Rightarrow> E1000State \<Rightarrow> E1000State" where
  "set_rx_control val s =
     log_event EvFlush ((mac_set RCTL val s)\<lparr>rxbuf_size := rxbufsize val, rxbuf_min_shift := (val div 0x100 AND 3) + 1\<rparr>)"

definition set_mdic :: "u32 \<Rightarrow> E1000State \<Rightarrow> E1000State" where
  "set_mdic val s =
     (let dat = val AND 0xFFFF;
          addr = unat (drop_bit 16 (val AND 0x001F0000));
          (val', s') =
            (if drop_bit 21 (val AND 0x03E00000) \<noteq> 1 then (mac_reg s MDIC OR 0x40000000, s)
             else if val AND 0x08000000 \<noteq> 0
             then if phy_regcap addr AND 1 = 0 then (val OR 0x40000000, s)
                  else ((val XOR dat) OR ucast (phy_reg s addr), s)
             else if val AND 0x04000000 \<noteq> 0
             then if phy_regcap addr AND 2 = 0 then (val OR 0x40000000, s)
                  else (val, if addr = PHY_CTRL then set_phy_ctrl (ucast dat) s else phy_set addr (ucast dat) s)
             else (val, s));
          s2 = mac_set MDIC (val' OR 0x10000000) s'
      in if val' AND 0x20000000 \<noteq> 0 then set_ics 0x200 s2 else s2)"

subsection \<open>EEPROM\<close>

definition get_eecd :: "E1000State \<Rightarrow> u32" where
  "get_eecd s =
     (let e = eecd_state s; ret = 0x100 OR 0x80 OR old_eecd e;
          w = eeprom_data s (unat (drop_bit 4 (bitnum_out e) AND 0x3f))
      in if \<not> reading e \<or> drop_bit (unat (bitnum_out e AND 0xf XOR 0xf)) w AND 1 \<noteq> 0 then ret OR 0x8 else ret)"

definition eecd_step :: "u32 \<Rightarrow> eecd_regs \<Rightarrow> eecd_regs" where
  "eecd_step val e =
     (let oldval = old_eecd e;
          e1 = e\<lparr>old_eecd := val AND (0x1 OR 0x2 OR 0x4 OR 0x30 OR 0x40)\<rparr>
      in if val AND 0x2 = 0 then e1
         else let e2 = (if (val XOR oldval) AND 0x2 \<noteq> 0
                        then e1\<lparr>val_in := 0, bitnum_in := 0, bitnum_out := 0, reading := False\<rparr> else e1)
         in if (val XOR oldval) AND 0x1 = 0 then e2
            else if val AND 0x1 = 0 then e2\<lparr>bitnum_out := bitnum_out e2 + 1\<rparr>
            else let v = push_bit 1 (val_in e2);
                     v1 = (if val AND 0x4 \<noteq> 0 then v OR 1 else v);
                     e3 = e2\<lparr>val_in := v1, bitnum_in := bitnum_in e2 + 1\<rparr>
                 in if bitnum_in e3 = 9 \<and> \<not> reading e3
                    then e3\<lparr>bitnum_out := ucast (push_bit 4 (v1 AND 0x3f) - 1), reading := (drop_bit 6 v1 AND 7 = 6)\<rparr>
                    else e3)"

definition set_eecd :: "u32 \<Rightarrow> E1000State \<Rightarrow> E1000State" where
  "set_eecd val s = s\<lparr>eecd_state := eecd_step val (eecd_state s)\<rparr>"

definition flash_eerd_read :: "E1000State \<Rightarrow> u32" where
  "flash_eerd_read s =
     (let r = mac_reg s EERD AND NOT 1; index = drop_bit 8 r
      in if mac_reg s EERD AND 1 = 0 then mac_reg s EERD
         else if index > 0x3F then 0x10 OR r
         else push_bit 16 (ucast (eeprom_data s (unat index))) OR 0x10 OR r)"

definition e1000_eeprom_template :: "u16 list" where
  "e1000_eeprom_template =
    [0x0000, 0x0000, 0x0000, 0x0000, 0xffff, 0x0000, 0x0000, 0x0000,
     0x3000, 0x1000, 0x6403, 0, 0x8086, 0, 0x8086, 0x3040,
     0x0008, 0x2000, 0x7e14, 0x0048, 0x1000, 0x00d8, 0x0000, 0x2700,
     0x6cc9, 0x3150, 0x0722, 0x040b, 0x0984, 0x0000, 0xc000, 0x0706,
     0x1008, 0x0000, 0x0f04, 0x7fff, 0x4d01, 0xffff, 0xffff, 0xffff,
     0xffff, 0xffff, 0xffff, 0xffff, 0xffff, 0xffff, 0xffff, 0xffff,
     0x0100, 0x4000, 0x121c, 0xffff, 0xffff, 0xffff, 0xffff, 0xffff,
     0xffff, 0xffff, 0xffff, 0xffff, 0xffff, 0xffff, 0xffff, 0x0000]"

text \<open>Filling the EEPROM when the card is realized: address, device id, checksum word.\<close>

definition eeprom_fill :: "buffer \<Rightarrow> u16 \<Rightarrow> u16 list" where
  "eeprom_fill macaddr device_id =
     (let mac = (\<lambda>i. push_bit 8 (ucast (macaddr ! (2 * i + 1))) OR ucast (macaddr ! (2 * i)) :: u16);
          d = e1000_eeprom_template[0 := mac 0, 1 := mac 1, 2 := mac 2, 11 := device_id, 13 := device_id]
      in d[0x3F := 0xBABA - sum_list (take 0x3F d)])"

subsection \<open>Migration\<close>

definition e1000_pre_save :: "E1000State \<Rightarrow> E1000State" where
  "e1000_pre_save s =
     (let s1 = (if mit_timer_on s then e1000_mit_timer s else s)
      in if link_is_down s1 \<and> have_autoneg s1 then phy_set PHY_STATUS (phy_reg s1 PHY_STATUS OR 0x20) s1 else s1)"

definition e1000_post_load :: "E1000State \<Rightarrow> E1000State" where
  "e1000_post_load s =
     (let s1 = (if compat_flags s AND 2 = 0
                then (mac_set ITR 0 (mac_set RDTR 0 (mac_set RADV 0 (mac_set TADV 0 s))))\<lparr>mit_irq_level := False\<rparr> else s);
          s2 = s1\<lparr>mit_ide := 0, mit_timer_on := False, link_is_down := (mac_reg s1 STATUS AND STATUS_LU = 0)\<rparr>
      in if have_autoneg s2 \<and> phy_reg s2 PHY_STATUS AND 0x20 = 0
         then start_autoneg (s2\<lparr>link_is_down := False\<rparr>) else s2)"

end
