(* ===== verification/E1000_Eeprom.thy ===== *)
theory E1000_Eeprom
  imports E1000
begin

text \<open>
  The serial EEPROM of the network card: the checksum word that is computed when the card is created,
  and the Microwire protocol a driver speaks through the EECD register. A driver selects the chip,
  clocks in the opcode 110 and a six-bit address, most significant bit first, and then clocks out the
  sixteen bits of the word.
\<close>

text \<open>
  The EEPROM of a new card is valid: its sixty-four words add up to 0xBABA modulo 65536, whatever
  the hardware address and the device.\<close>

lemma eeprom_fill_checksum:
  "sum_list (eeprom_fill macaddr device_id) = 0xBABA"
proof -
  have split: "sum_list (d[0x3F := 0xBABA - sum_list (take 0x3F d)]) = 0xBABA"
    if "length d = 64" for d :: "u16 list"
    using that by (subst upd_conv_take_nth_drop) simp_all
  show ?thesis unfolding eeprom_fill_def Let_def by (rule split) (simp add: e1000_eeprom_template_def)
qed

subsection \<open>The serial protocol\<close>

definition di :: "bool \<Rightarrow> u32" where
  "di b = (if b then 0x4 else 0)"

text \<open>Select the chip; clock one bit in; clock without data.\<close>

definition eeprom_select :: "E1000State \<Rightarrow> E1000State" where
  "eeprom_select s = set_eecd 0x2 (set_eecd 0 s)"

definition eeprom_clock :: "bool \<Rightarrow> E1000State \<Rightarrow> E1000State" where
  "eeprom_clock b s = set_eecd (0x2 OR di b) (set_eecd (0x3 OR di b) (set_eecd (0x2 OR di b) s))"

definition eeprom_command :: "bool list \<Rightarrow> E1000State \<Rightarrow> E1000State" where
  "eeprom_command bs s = fold eeprom_clock ([True, True, False] @ bs) (eeprom_select s)"

definition bits_value :: "bool list \<Rightarrow> nat" where
  "bits_value bs = foldl (\<lambda>v b. 2 * v + of_bool b) 0 bs"

text \<open>The effect of one clocked bit on the registers of the protocol, between two clocks.\<close>

definition clock_effect :: "bool \<Rightarrow> eecd_regs \<Rightarrow> eecd_regs" where
  "clock_effect b e =
     (let v = val_in e * 2 + of_bool b; n = bitnum_in e + 1
      in if n = 9 \<and> \<not> reading e
         then \<lparr>val_in = v, bitnum_in = n, bitnum_out = ucast (push_bit 4 (v AND 0x3f) - 1) + 1,
               reading = (drop_bit 6 v AND 7 = 6), old_eecd = 0x2 OR di b\<rparr>
         else \<lparr>val_in = v, bitnum_in = n, bitnum_out = bitnum_out e + 1, reading = reading e, old_eecd = 0x2 OR di b\<rparr>)"

lemma shift_in: "v * 2 OR 1 = v * 2 + (1 :: u32)"
  by (simp add: or_one_eq)

text \<open>With the chip selected before and after: data without a clock edge, rising edge, falling edge.\<close>

lemma eecd_step_data:
  "old_eecd e = 0x2 OR di b' \<Longrightarrow> eecd_step (0x2 OR di b) e = e\<lparr>old_eecd := 0x2 OR di b\<rparr>"
  by (cases b; cases b') (simp_all add: eecd_step_def di_def)

lemma eecd_step_rise:
  "old_eecd e = 0x2 OR di b \<Longrightarrow> eecd_step (0x3 OR di b) e =
    (let v = val_in e * 2 + of_bool b; e' = e\<lparr>old_eecd := 0x3 OR di b, val_in := v, bitnum_in := bitnum_in e + 1\<rparr>
     in if bitnum_in e + 1 = 9 \<and> \<not> reading e
        then e'\<lparr>bitnum_out := ucast (push_bit 4 (v AND 0x3f) - 1), reading := (drop_bit 6 v AND 7 = 6)\<rparr> else e')"
  by (cases b) (simp_all add: eecd_step_def di_def shift_in Let_def)

lemma eecd_step_fall:
  "old_eecd e = 0x3 OR di b \<Longrightarrow> eecd_step (0x2 OR di b) e = e\<lparr>old_eecd := 0x2 OR di b, bitnum_out := bitnum_out e + 1\<rparr>"
  by (cases b) (simp_all add: eecd_step_def di_def)

lemma eecd_step_clock:
  assumes "old_eecd e = 0x2 OR di b'"
  shows "eecd_step (0x2 OR di b) (eecd_step (0x3 OR di b) (eecd_step (0x2 OR di b) e)) = clock_effect b e"
proof -
  note d = eecd_step_data [OF assms, of b]
  show ?thesis unfolding d
    by (cases "bitnum_in e = 8"; cases "reading e")
      (simp_all add: eecd_step_rise eecd_step_fall clock_effect_def Let_def)
qed

lemma set_eecd_clock:
  assumes "old_eecd (eecd_state s) = 0x2 OR di b'"
  shows "eeprom_clock b s = s\<lparr>eecd_state := clock_effect b (eecd_state s)\<rparr>"
  using eecd_step_clock [OF assms, of b] by (simp add: eeprom_clock_def set_eecd_def)

text \<open>Bits clocked in before the ninth are collected; the ninth latches the address.\<close>

lemma fold_clock:
  assumes "old_eecd e = 0x2 OR di b'" "\<not> reading e" "bitnum_in e = of_nat k" "k + length bs \<le> 8"
  shows "\<exists>n b''. fold clock_effect bs e = \<lparr>val_in = foldl (\<lambda>v b. 2 * v + of_bool b) (val_in e) bs,
    bitnum_in = of_nat (k + length bs), bitnum_out = n, reading = False, old_eecd = 0x2 OR di b''\<rparr>"
  using assms
proof (induction bs arbitrary: e k b')
  case Nil
  then show ?case by (cases e) auto
next
  case (Cons b bs)
  have "of_nat (Suc k) \<noteq> (9 :: u16)"
  proof
    assume "of_nat (Suc k) = (9 :: u16)"
    then have "unat (of_nat (Suc k) :: u16) = 9" by simp
    then show False using Cons.prems(4) by (simp only: unsigned_of_nat) (simp add: take_bit_nat_eq_self)
  qed
  then have "clock_effect b e = \<lparr>val_in = 2 * val_in e + of_bool b, bitnum_in = of_nat (Suc k), bitnum_out = bitnum_out e + 1,
      reading = False, old_eecd = 0x2 OR di b\<rparr>"
    using Cons.prems by (simp add: clock_effect_def Let_def add.commute)
  then show ?case using Cons.IH [of "clock_effect b e" b "Suc k"] Cons.prems by simp
qed

lemma fold_set_clock:
  "old_eecd (eecd_state s) = 0x2 OR di b' \<Longrightarrow>
   fold eeprom_clock bs s = s\<lparr>eecd_state := fold clock_effect bs (eecd_state s)\<rparr>"
proof (induction bs arbitrary: s b')
  case (Cons b bs)
  have "old_eecd (clock_effect b e) = 0x2 OR di b" for e by (simp add: clock_effect_def Let_def)
  then show ?case using Cons.IH [of "s\<lparr>eecd_state := clock_effect b (eecd_state s)\<rparr>" b]
    by (simp add: set_eecd_clock [OF Cons.prems])
qed simp

lemma eeprom_select_state:
  "eeprom_select s = s\<lparr>eecd_state := \<lparr>val_in = 0, bitnum_in = 0, bitnum_out = 0, reading = False, old_eecd = 0x2 OR di False\<rparr>\<rparr>"
  by (simp add: eeprom_select_def set_eecd_def eecd_step_def Let_def di_def)

lemma word_bits_value: "foldl (\<lambda>v b. 2 * v + of_bool b) (0 :: u32) bs = of_nat (bits_value bs)"
  by (induction bs rule: rev_induct) (simp_all add: bits_value_def)

lemma bits_value_less: "bits_value bs < 2 ^ length bs"
  by (induction bs rule: rev_induct) (auto simp: bits_value_def of_bool_def)

lemma bits_value_read: "length bs = 6 \<Longrightarrow> bits_value ([True, True, False] @ bs) = 384 + bits_value bs"
  using foldl_mult_add [of 2 of_bool 6 bs] by (simp add: bits_value_def)

lemma read_latch:
  fixes a :: nat
  assumes "a < 64"
  defines "v \<equiv> of_nat (384 + a) :: u32"
  shows "drop_bit 6 v AND 7 = 6" "ucast (push_bit 4 (v AND 0x3f) - 1) + 1 = (of_nat (16 * a) :: u16)"
proof -
  have m: "(0x3f :: u32) = mask 6" "(7 :: u32) = mask 3" by (simp_all add: mask_eq_exp_minus_1)
  have v: "unat v = 384 + a" using assms by (simp only: v_def unsigned_of_nat) (simp add: take_bit_nat_eq_self)
  have "unat (drop_bit 6 v AND 7) = 6"
    unfolding m take_bit_eq_mask [symmetric] unsigned_take_bit_eq unat_drop_bit_eq v
    using assms by (simp add: take_bit_eq_mod drop_bit_eq_div)
  then show "drop_bit 6 v AND 7 = 6" by (intro unsigned_word_eqI) simp
  have "unat (v AND 0x3f) = a"
    unfolding m take_bit_eq_mask [symmetric] unsigned_take_bit_eq v
    using assms(1) mod_mult_self4 [of 64 6 a] by (simp add: take_bit_eq_mod)
  then have "v AND 0x3f = of_nat a" by (metis ucast_id of_nat_unat)
  then have "push_bit 4 (v AND 0x3f) = of_nat (16 * a)" by (simp only: push_bit_eq_mult) simp
  moreover have "ucast (of_nat (16 * a) - 1 :: u32) + 1 = (of_nat (16 * a) :: u16)"
  proof (cases a)
    case (Suc c)
    then have "of_nat (16 * a) - 1 = (of_nat (16 * c + 15) :: u32)" by simp
    moreover have "ucast (of_nat n :: u32) = (of_nat n :: u16)" for n
      by (rule bit_word_eqI) (simp add: bit_simps bit_of_nat_iff_bit)
    ultimately have "ucast (of_nat (16 * a) - 1 :: u32) + 1 = (of_nat (16 * c + 15) + 1 :: u16)" by (simp only:)
    then show ?thesis using Suc by simp
  next
    case 0
    have "ucast (- 1 :: u32) = (- 1 :: u16)" by (rule bit_word_eqI) (simp add: bit_simps)
    then show ?thesis using 0 by simp
  qed
  ultimately show "ucast (push_bit 4 (v AND 0x3f) - 1) + 1 = (of_nat (16 * a) :: u16)" by simp
qed

text \<open>After the command the chip reads, at the first bit of the word; every further clock moves on.\<close>

lemma eeprom_command_state:
  assumes "length bs = 6"
  shows "\<exists>e b'. eeprom_command bs s = s\<lparr>eecd_state := e\<rparr> \<and> reading e \<and> bitnum_out e = of_nat (16 * bits_value bs) \<and>
    old_eecd e = 0x2 OR di b'"
proof -
  let ?e0 = "\<lparr>val_in = 0, bitnum_in = 0, bitnum_out = 0, reading = False, old_eecd = 0x2 OR di False\<rparr>"
  define B where "B = [True, True, False] @ bs"
  define cs where "cs = butlast B"
  define l where "l = last B"
  have B: "B = cs @ [l]" unfolding cs_def l_def by (rule append_butlast_last_id [symmetric]) (simp add: B_def)
  have cs: "length cs = 8" using assms by (auto simp: cs_def B_def)
  obtain n b'' where f: "fold clock_effect cs ?e0 = \<lparr>val_in = foldl (\<lambda>v b. 2 * v + of_bool b) 0 cs,
    bitnum_in = 8, bitnum_out = n, reading = False, old_eecd = 0x2 OR di b''\<rparr>"
    using fold_clock [of ?e0 False 0 cs] cs by auto
  have "foldl (\<lambda>v b. 2 * v + of_bool b) 0 B = (of_nat (384 + bits_value bs) :: u32)"
    using word_bits_value [of B] bits_value_read [OF assms] by (simp add: B_def)
  then have v: "foldl (\<lambda>v b. 2 * v + of_bool b) 0 cs * 2 + of_bool l = (of_nat (384 + bits_value bs) :: u32)"
    by (simp add: B mult.commute)
  have a: "bits_value bs < 64" using bits_value_less [of bs] assms by simp
  have "fold clock_effect B ?e0 = clock_effect l (fold clock_effect cs ?e0)" by (simp add: B)
  also have "\<dots> = \<lparr>val_in = of_nat (384 + bits_value bs), bitnum_in = 9, bitnum_out = of_nat (16 * bits_value bs),
      reading = True, old_eecd = 0x2 OR di l\<rparr>"
    unfolding f clock_effect_def Let_def eecd_regs.simps v using read_latch [OF a] by simp
  finally have F: "fold clock_effect B ?e0 = \<lparr>val_in = of_nat (384 + bits_value bs), bitnum_in = 9,
      bitnum_out = of_nat (16 * bits_value bs), reading = True, old_eecd = 0x2 OR di l\<rparr>" .
  have "eeprom_command bs s = s\<lparr>eecd_state := fold clock_effect B ?e0\<rparr>"
    using fold_set_clock [of "eeprom_select s" False B] unfolding eeprom_command_def B_def [symmetric]
    by (simp add: eeprom_select_state)
  then show ?thesis using F by (intro exI [of _ "fold clock_effect B ?e0"] exI [of _ l]) (simp only: F eecd_regs.simps simp_thms)
qed

lemma eeprom_clocks:
  "reading (eecd_state s) \<Longrightarrow> old_eecd (eecd_state s) = 0x2 OR di b \<Longrightarrow> \<exists>e b'. (eeprom_clock False ^^ k) s = s\<lparr>eecd_state := e\<rparr> \<and>
   reading e \<and> bitnum_out e = bitnum_out (eecd_state s) + of_nat k \<and> old_eecd e = 0x2 OR di b'"
proof (induction k)
  case 0
  then show ?case by (intro exI [of _ "eecd_state s"]) auto
next
  case (Suc k)
  then obtain e b' where e: "(eeprom_clock False ^^ k) s = s\<lparr>eecd_state := e\<rparr>" "reading e"
    "bitnum_out e = bitnum_out (eecd_state s) + of_nat k" "old_eecd e = 0x2 OR di b'" by blast
  then have "(eeprom_clock False ^^ Suc k) s = s\<lparr>eecd_state := clock_effect False e\<rparr>"
    using set_eecd_clock [of "s\<lparr>eecd_state := e\<rparr>" b' False] by simp
  then show ?case using e(2,3) by (auto simp: clock_effect_def Let_def algebra_simps intro!: exI [of _ False])
qed

lemma out_position:
  assumes "a < 64" "k < 16"
  defines "x \<equiv> of_nat (16 * a + k) :: u16"
  shows "unat (drop_bit 4 x AND 0x3f) = a" "unat (x AND 0xf XOR 0xf) = 15 - k"
proof -
  have m: "(0x3f :: u16) = mask 6" "(0xf :: u16) = mask 4" by (simp_all add: mask_eq_exp_minus_1)
  have x: "unat x = 16 * a + k" using assms by (simp only: x_def unsigned_of_nat) (simp add: take_bit_nat_eq_self)
  show "unat (drop_bit 4 x AND 0x3f) = a"
    unfolding m take_bit_eq_mask [symmetric] unsigned_take_bit_eq unat_drop_bit_eq x
    using assms(1,2) by (simp add: take_bit_eq_mod drop_bit_eq_div)
  have "unat (x AND 0xf) = k"
    unfolding m take_bit_eq_mask [symmetric] unsigned_take_bit_eq x using assms(2) by (simp add: take_bit_eq_mod)
  then have "x AND 0xf = of_nat k" by (metis ucast_id of_nat_unat)
  moreover have "k = 0 \<or> k = 1 \<or> k = 2 \<or> k = 3 \<or> k = 4 \<or> k = 5 \<or> k = 6 \<or> k = 7 \<or> k = 8 \<or> k = 9 \<or> k = 10 \<or> k = 11 \<or> k = 12 \<or> k = 13 \<or> k = 14 \<or> k = 15"
    using assms(2) by presburger
  then have "unat ((of_nat k :: u16) XOR 0xf) = 15 - k" by (elim disjE) simp_all
  ultimately show "unat (x AND 0xf XOR 0xf) = 15 - k" by simp
qed

text \<open>
  C39: The serial protocol reads the EEPROM: after selecting the chip and clocking in the read command
  with a six-bit address, the data-out bit of the EECD register shows bit 15 of the addressed word,
  and bit \<open>15 - k\<close> after \<open>k\<close> further clocks, whatever the card did before.\<close>

theorem eeprom_serial_read:
  assumes "length bs = 6" "k < 16"
  shows "(get_eecd ((eeprom_clock False ^^ k) (eeprom_command bs s)) AND 0x8 \<noteq> 0) =
    bit (eeprom_data s (bits_value bs)) (15 - k)"
proof -
  obtain e b where e: "eeprom_command bs s = s\<lparr>eecd_state := e\<rparr>" "reading e" "bitnum_out e = of_nat (16 * bits_value bs)"
    "old_eecd e = 0x2 OR di b" using eeprom_command_state [OF assms(1)] by blast
  obtain e' b' where e': "(eeprom_clock False ^^ k) (eeprom_command bs s) = s\<lparr>eecd_state := e'\<rparr>" "reading e'"
    "bitnum_out e' = of_nat (16 * bits_value bs + k)" "old_eecd e' = 0x2 OR di b'"
    using eeprom_clocks [of "s\<lparr>eecd_state := e\<rparr>" b k] e by auto
  have "bits_value bs < 64" using bits_value_less [of bs] assms(1) by simp
  note p = out_position [OF this assms(2), folded e'(3)]
  have one: "drop_bit j w AND 1 \<noteq> 0 \<longleftrightarrow> bit w j" for w :: u16 and j
    by (simp add: and_one_eq bit_iff_odd_drop_bit odd_iff_mod_2_eq_one)
  show ?thesis unfolding e'(1) get_eecd_def Let_def
    by (cases b') (simp_all add: e'(2,4) p one di_def)
qed

theorem eeprom_serial_read_witness:
  "get_eecd (eeprom_command [False, False, True, False, True, False] (E1000State.make (\<lambda>_. 0) (\<lambda>_. 0) (\<lambda>i. if i = 10 then 0x8403 else 0) 0 0 tx_zero
     \<lparr>val_in = 0, bitnum_in = 0, bitnum_out = 0, reading = False, old_eecd = 0\<rparr> None None False False 0 0 False False (\<lambda>_. 0) 0 [])) AND 0x8 \<noteq> 0"
  using eeprom_serial_read [of "[False, False, True, False, True, False]" 0 "E1000State.make (\<lambda>_. 0) (\<lambda>_. 0) (\<lambda>i. if i = 10 then 0x8403 else 0) 0 0 tx_zero
     \<lparr>val_in = 0, bitnum_in = 0, bitnum_out = 0, reading = False, old_eecd = 0\<rparr> None None False False 0 0 False False (\<lambda>_. 0) 0 []"]
  by (simp add: bits_value_def E1000State.make_def)

end
