(* ===== verification/E1000_Rings.thy ===== *)
theory E1000_Rings
  imports E1000
begin

text \<open>
  \<open>hw/net/e1000.c\<close>, the data paths: receiving a frame into the receive ring and sending what
  the transmit ring describes, and the register interface that drives them. A loop over guest data
  that may not end is a partial function, whose not returning is the value \<open>None\<close>.
\<close>

subsection \<open>Guest and host memory\<close>

definition pci_dma_read :: "(u64 \<Rightarrow> byte) \<Rightarrow> u64 \<Rightarrow> nat \<Rightarrow> buffer" where
  "pci_dma_read g a n = map (\<lambda>k. g (a + of_nat k)) [0..<n]"

definition pci_dma_write :: "u64 \<Rightarrow> buffer \<Rightarrow> (u64 \<Rightarrow> byte) \<Rightarrow> (u64 \<Rightarrow> byte)" where
  "pci_dma_write a bs g = (\<lambda>x. if unat (x - a) < length bs then bs ! unat (x - a) else g x)"

definition lduw_be_p :: "host_mem \<Rightarrow> nat \<Rightarrow> u16" where
  "lduw_be_p m a = push_bit 8 (ucast (m a)) OR ucast (m (a + 1))"

definition stw_be_p :: "nat \<Rightarrow> u16 \<Rightarrow> host_mem \<Rightarrow> host_mem" where
  "stw_be_p a v m = m(a := ucast (drop_bit 8 v), a + 1 := ucast v)"

definition ldl_be_p :: "host_mem \<Rightarrow> nat \<Rightarrow> u32" where
  "ldl_be_p m a = push_bit 16 (ucast (lduw_be_p m a)) OR ucast (lduw_be_p m (a + 2))"

definition stl_be_p :: "nat \<Rightarrow> u32 \<Rightarrow> host_mem \<Rightarrow> host_mem" where
  "stl_be_p a v m = stw_be_p (a + 2) (ucast v) (stw_be_p a (ucast (drop_bit 16 v)) m)"

subsection \<open>Receiving\<close>

definition vlan_enabled :: "E1000State \<Rightarrow> bool" where
  "vlan_enabled s \<longleftrightarrow> mac_reg s CTRL AND 0x40000000 \<noteq> 0"

definition vlan_rx_filter_enabled :: "E1000State \<Rightarrow> bool" where
  "vlan_rx_filter_enabled s \<longleftrightarrow> mac_reg s RCTL AND 0x00040000 \<noteq> 0"

definition is_vlan_packet :: "E1000State \<Rightarrow> host_mem \<Rightarrow> nat \<Rightarrow> bool" where
  "is_vlan_packet s m buf \<longleftrightarrow> lduw_be_p m (buf + 12) = ucast (mac_reg s VET)"

definition fcs_len :: "E1000State \<Rightarrow> nat" where
  "fcs_len s = (if mac_reg s RCTL AND 0x04000000 \<noteq> 0 then 0 else 4)"

definition receive_filter :: "E1000State \<Rightarrow> host_mem \<Rightarrow> nat \<Rightarrow> bool" where
  "receive_filter s m buf =
     (let rctl = mac_reg s RCTL; vid = lduw_be_p m (buf + 14);
          vfta = mac_reg s (VFTA + unat (drop_bit 5 vid AND 0x7f));
          sh = [4, 3, 2, 0] ! unat (drop_bit 12 rctl AND 3);
          f = drop_bit sh (push_bit 8 (ucast (m (buf + 5))) OR ucast (m (buf + 4)) :: u32) AND 0xfff
      in if is_vlan_packet s m buf \<and> vlan_rx_filter_enabled s \<and> vfta AND push_bit (unat (vid AND 0x1f)) 1 = 0 then False
         else if rctl AND 0x8 \<noteq> 0 then True
         else if m buf AND 1 \<noteq> 0 \<and> rctl AND 0x10 \<noteq> 0 then True
         else if rctl AND 0x8000 \<noteq> 0 \<and> mem_read m buf 6 = replicate 6 0xff then True
         else if list_ex (\<lambda>i. mac_reg s (RA + 2 * i + 1) AND RAH_AV \<noteq> 0 \<and>
                   mem_read m buf 6 = take 6 (bytes_of_u32 (mac_reg s (RA + 2 * i)) @ bytes_of_u32 (mac_reg s (RA + 2 * i + 1)))) [0..<16]
         then True
         else mac_reg s (MTA + unat (drop_bit 5 f)) AND push_bit (unat (f AND 0x1f)) 1 \<noteq> 0)"

definition e1000_has_rxbufs :: "E1000State \<Rightarrow> nat \<Rightarrow> bool" where
  "e1000_has_rxbufs s total_size =
     (let rdh = mac_reg s RDH; rdt = mac_reg s RDT
      in if total_size \<le> unat (rxbuf_size s) then rdh \<noteq> rdt
         else if rdh < rdt then total_size \<le> unat ((rdt - rdh) * rxbuf_size s)
         else if rdt < rdh then total_size \<le> unat ((mac_reg s RDLEN div 16 + rdt - rdh) * rxbuf_size s)
         else False)"

definition e1000_can_receive :: "E1000State \<Rightarrow> bool" where
  "e1000_can_receive s \<longleftrightarrow> mac_reg s STATUS AND STATUS_LU \<noteq> 0 \<and> mac_reg s RCTL AND 0x2 \<noteq> 0 \<and> bus_master s \<and>
     e1000_has_rxbufs s 1"

definition rx_desc_base :: "E1000State \<Rightarrow> u64" where
  "rx_desc_base s = push_bit 32 (ucast (mac_reg s RDBAH)) + ucast (mac_reg s RDBAL AND NOT 0xf)"

record e1000_rx_desc =
  rx_buffer_addr :: u64
  rx_length :: u16
  rx_csum :: u16
  rx_status :: byte
  rx_errors :: byte
  rx_special :: u16

definition u16_of_bytes :: "buffer \<Rightarrow> u16" where
  "u16_of_bytes bs = of_nat (le_value bs)"

definition bytes_of_u16 :: "u16 \<Rightarrow> buffer" where
  "bytes_of_u16 w = le_bytes 2 (unat w)"

definition rx_desc_of :: "buffer \<Rightarrow> e1000_rx_desc" where
  "rx_desc_of bs = \<lparr>rx_buffer_addr = u64_of_bytes (take 8 bs), rx_length = u16_of_bytes (take 2 (drop 8 bs)),
     rx_csum = u16_of_bytes (take 2 (drop 10 bs)), rx_status = bs ! 12, rx_errors = bs ! 13,
     rx_special = u16_of_bytes (take 2 (drop 14 bs))\<rparr>"

definition rx_desc_bytes :: "e1000_rx_desc \<Rightarrow> buffer" where
  "rx_desc_bytes d = bytes_of_u64 (rx_buffer_addr d) @ bytes_of_u16 (rx_length d) @ bytes_of_u16 (rx_csum d) @
     [rx_status d, rx_errors d] @ bytes_of_u16 (rx_special d)"

text \<open>The head of a ring moves on and wraps at its length in bytes.\<close>

definition ring_next :: "u32 \<Rightarrow> u32 \<Rightarrow> u32" where
  "ring_next h len = (if unat len \<le> unat (h + 1) * 16 then 0 else h + 1)"

text \<open>Copying a piece of the frame from the elements of the vector to guest memory: the next element
  is used when one is exhausted.\<close>

primrec rx_copy ::
  "iovec list \<Rightarrow> host_mem \<Rightarrow> nat \<Rightarrow> u64 \<Rightarrow> nat \<Rightarrow> (u64 \<Rightarrow> byte) \<Rightarrow> (iovec list \<times> nat \<times> (u64 \<Rightarrow> byte)) option" where
  "rx_copy [] m iov_ofs ba copy_size g = None"
| "rx_copy (v # vs) m iov_ofs ba copy_size g =
     (let n = min copy_size (iov_len v - iov_ofs);
          g' = pci_dma_write ba (mem_read m (iov_base v + iov_ofs) n) g
      in if copy_size - n = 0
         then Some (if iov_ofs + n = iov_len v then (vs, 0, g') else (v # vs, iov_ofs + n, g'))
         else rx_copy vs m 0 (ba + of_nat n) (copy_size - n) g')"

record rx_job =
  job_mem :: host_mem
  job_special :: u16
  job_status :: byte
  job_size :: nat
  job_total :: nat
  job_start :: u32

text \<open>One descriptor: copy the next piece, write the descriptor back. A null buffer is skipped.\<close>

definition rx_desc_step ::
  "rx_job \<Rightarrow> iovec list \<Rightarrow> nat \<Rightarrow> nat \<Rightarrow> E1000State \<Rightarrow> (iovec list \<times> nat \<times> nat \<times> E1000State) option" where
  "rx_desc_step j iovs iov_ofs desc_offset s =
     do {
       let desc_size = min (job_total j - desc_offset) (unat (rxbuf_size s));
       let base = rx_desc_base s + 16 * ucast (mac_reg s RDH);
       let desc = rx_desc_of (pci_dma_read (gmem s) base 16);
       let desc = desc\<lparr>rx_special := job_special j, rx_status := rx_status desc OR (job_status j OR 0x1)\<rparr>;
       (iovs', ofs', desc_offset', desc', g') \<leftarrow>
         (if rx_buffer_addr desc \<noteq> 0 then do {
            (iovs', ofs', g') \<leftarrow>
              (if desc_offset < job_size j
               then rx_copy iovs (job_mem j) iov_ofs (rx_buffer_addr desc)
                      (min (job_size j - desc_offset) (unat (rxbuf_size s))) (gmem s)
               else Some (iovs, iov_ofs, gmem s));
            let off' = desc_offset + desc_size;
            Some (iovs', ofs', off',
              desc\<lparr>rx_length := of_nat desc_size,
                   rx_status := (if job_total j \<le> off' then rx_status desc OR (0x2 OR 0x4) else rx_status desc AND NOT 0x2)\<rparr>, g')
          } else Some (iovs, iov_ofs, desc_offset, desc, gmem s));
       let s1 = s\<lparr>gmem := pci_dma_write base (rx_desc_bytes desc') g'\<rparr>;
       Some (iovs', ofs', desc_offset', mac_set RDH (ring_next (mac_reg s1 RDH) (mac_reg s1 RDLEN)) s1)
     }"

text \<open>The loop over descriptors; the left result is the wraparound of the ring, which ends the
  reception with an overrun.\<close>

partial_function (option) rx_loop ::
  "rx_job \<Rightarrow> iovec list \<Rightarrow> nat \<Rightarrow> nat \<Rightarrow> E1000State \<Rightarrow> (E1000State + E1000State) option" where
  "rx_loop j iovs iov_ofs desc_offset s =
     Option.bind (rx_desc_step j iovs iov_ofs desc_offset s) (\<lambda>(iovs', ofs', off', s').
       if mac_reg s' RDH = job_start j then Some (Inl (set_ics 0x40 s'))
       else if off' < job_total j then rx_loop j iovs' ofs' off' s'
       else Some (Inr s'))"

definition rx_finish :: "nat \<Rightarrow> E1000State \<Rightarrow> E1000State" where
  "rx_finish sz s =
     (let s1 = mac_set TPR (mac_reg s TPR + 1) (mac_set GPRC (mac_reg s GPRC + 1) s);
          n = mac_reg s1 TORL + of_nat sz + 4;
          s2 = (if n < mac_reg s1 TORL then mac_set TORH (mac_reg s1 TORH + 1) s1 else s1);
          s3 = mac_set TORL n s2;
          rdt = (if mac_reg s3 RDT < mac_reg s3 RDH then mac_reg s3 RDT + mac_reg s3 RDLEN div 16 else mac_reg s3 RDT);
          cause = (if unat (rdt - mac_reg s3 RDH) * 16 \<le> unat (drop_bit (unat (rxbuf_min_shift s3)) (mac_reg s3 RDLEN))
                   then 0x80 OR 0x10 else 0x80)
      in set_ics cause s3)"

text \<open>Padding short frames, and a contiguous copy of the header when the first element is too short
  for it. The automatic array \<open>min_buf\<close> is at the host address \<open>mb\<close>.\<close>

definition rx_pad :: "nat \<Rightarrow> host_mem \<Rightarrow> iovec list \<Rightarrow> iovec \<Rightarrow> (host_mem \<times> iovec list \<times> nat \<times> nat) option" where
  "rx_pad mb m iovs v0 =
     (let sz = iov_size iovs in
      if sz < 60
      then Option.bind (iov_to_buf iovs 0 sz m) (\<lambda>(n, bs).
             Some (mem_write m mb (bs @ replicate (60 - sz) 0), [\<lparr>iov_base = mb, iov_len = 60\<rparr>], mb, 60))
      else if iov_len v0 < 18
      then Option.bind (iov_to_buf iovs 0 18 m) (\<lambda>(n, bs). Some (mem_write m mb bs, iovs, mb, sz))
      else Some (m, iovs, iov_base v0, sz))"

primrec rx_skip :: "iovec list \<Rightarrow> nat \<Rightarrow> (iovec list \<times> nat) option" where
  "rx_skip [] iov_ofs = None"
| "rx_skip (v # vs) iov_ofs = (if iov_len v \<le> iov_ofs then rx_skip vs (iov_ofs - iov_len v) else Some (v # vs, iov_ofs))"

text \<open>Stripping the VLAN tag: memory, vector, offset, tag, status bit and size after it.\<close>

definition rx_vlan ::
  "E1000State \<Rightarrow> host_mem \<Rightarrow> iovec list \<Rightarrow> nat \<Rightarrow> nat \<Rightarrow> (host_mem \<times> iovec list \<times> nat \<times> u16 \<times> byte \<times> nat) option" where
  "rx_vlan s m iovs filter_buf sz =
     (if vlan_enabled s \<and> is_vlan_packet s m filter_buf
      then do {
        v0 \<leftarrow> rd iovs 0;
        let special = lduw_be_p m (filter_buf + 14);
        (if filter_buf = iov_base v0
         then Some (mem_write m (filter_buf + 4) (mem_read m filter_buf 12), iovs, 4, special, 0x8, sz - 4)
         else do {
           (n, m') \<leftarrow> iov_from_buf iovs 4 (mem_read m filter_buf 12) 12 m;
           (iovs', ofs') \<leftarrow> rx_skip iovs 4;
           Some (m', iovs', ofs', special, 0x8, sz - 4)
         })
      } else Some (m, iovs, 0, 0, 0, sz))"

definition e1000_receive_iov ::
  "nat \<Rightarrow> host_mem \<Rightarrow> iovec list \<Rightarrow> E1000State \<Rightarrow> (int \<times> host_mem \<times> E1000State) option" where
  "e1000_receive_iov mb m iovs s =
     do {
       v0 \<leftarrow> rd iovs 0;
       (if mac_reg s STATUS AND STATUS_LU = 0 \<or> mac_reg s RCTL AND 0x2 = 0 then Some (-1, m, s)
        else do {
          (m1, iov1, filter_buf, sz) \<leftarrow> rx_pad mb m iovs v0;
          (if (sz > 16384 \<or> sz > 1522 \<and> mac_reg s RCTL AND 0x20 = 0) \<and> mac_reg s RCTL AND 0x4 = 0
              \<or> \<not> receive_filter s m1 filter_buf
           then Some (int sz, m1, s)
           else do {
             (m2, iov2, iov_ofs, special, status, sz2) \<leftarrow> rx_vlan s m1 iov1 filter_buf sz;
             let total_size = sz2 + fcs_len s;
             (if \<not> e1000_has_rxbufs s total_size then Some (-1, m2, set_ics 0x40 s)
              else do {
                r \<leftarrow> rx_loop \<lparr>job_mem = m2, job_special = special, job_status = status, job_size = sz2,
                               job_total = total_size, job_start = mac_reg s RDH\<rparr> iov2 iov_ofs 0 s;
                (case r of Inl s' \<Rightarrow> Some (-1, m2, s') | Inr s' \<Rightarrow> Some (int sz2, m2, rx_finish sz2 s'))
              })
           })
        })
     }"

text \<open>The entry for one contiguous frame, with the plugin hook. \<open>lim\<close> bytes are readable at
  \<open>buf\<close>; the hook gets the pointer, so it can read that far.\<close>

definition e1000_receive ::
  "nat \<Rightarrow> host_mem \<Rightarrow> nat \<Rightarrow> nat \<Rightarrow> nat \<Rightarrow> E1000State \<Rightarrow> (int \<times> host_mem \<times> E1000State) option" where
  "e1000_receive mb m buf lim sz s =
     e1000_receive_iov mb m [\<lparr>iov_base = buf, iov_len = sz\<rparr>]
       (log_event (EvHook (NicRecv (mem_read m buf lim) (of_nat sz))) s)"

subsection \<open>Sending\<close>

definition tx_array :: nat where
  "tx_array = 0x10004"

text \<open>\<open>e1000_send_packet\<close> of \<open>sz\<close> bytes from offset \<open>off\<close> of the transmit buffer. In
  loopback mode the frame is received from where it lies, and the receiver may change it there.\<close>

definition e1000_send_packet :: "nat \<Rightarrow> nat \<Rightarrow> E1000State \<Rightarrow> E1000State option" where
  "e1000_send_packet off sz s =
     (let buf = tx_buf (tx s); lim = tx_array - off in
      if phy_reg s PHY_CTRL AND 0x4000 \<noteq> 0
      then do {
        (r, m', s') \<leftarrow> e1000_receive tx_array buf off lim sz s;
        Some (s'\<lparr>tx := (tx s')\<lparr>tx_buf := mem_write buf off (mem_read m' off sz)\<rparr>\<rparr>)
      }
      else Some (log_event (EvWire (mem_read buf off sz))
                  (log_event (EvHook (NicSend (mem_read buf off lim) (of_nat sz))) s)))"

definition putsum :: "nat \<Rightarrow> u32 \<Rightarrow> u32 \<Rightarrow> u32 \<Rightarrow> u32 \<Rightarrow> host_mem \<Rightarrow> host_mem" where
  "putsum dat n0 sloc css cse m =
     (let n = (if cse \<noteq> 0 \<and> cse < n0 then cse + 1 else n0)
      in if sloc < n - 1
         then stw_be_p (dat + unat sloc) (net_checksum_finish (net_checksum_add (sint (n - css)) m (dat + unat css))) m
         else m)"

text \<open>The header fields that change from segment to segment.\<close>

definition tso_headers :: "e1000_tx \<Rightarrow> e1000_tx" where
  "tso_headers tp =
     (let frames = ucast (tso_frames tp) :: u32; d = 4; b = tx_buf tp;
          css = unat (ipcss tp);
          b1 = (if tx_ip tp
                then let b' = stw_be_p (d + css + 2) (tx_size tp - ucast (ipcss tp)) b
                     in stw_be_p (d + css + 4) (lduw_be_p b' (d + css + 4) + ucast frames) b'
                else stw_be_p (d + css + 4) (tx_size tp - ucast (ipcss tp)) b);
          css = unat (tucss tp); len = tx_size tp - ucast (tucss tp);
          b2 = (if tx_tcp tp
                then let sofar = frames * ucast (tx_mss tp);
                         b' = stl_be_p (d + css + 4) (ldl_be_p b1 (d + css + 4) + sofar) b1
                     in if paylen tp - sofar > ucast (tx_mss tp)
                        then b'(d + css + 13 := b' (d + css + 13) AND NOT 9) else b'
                else stw_be_p (d + css + 4) len b1);
          b3 = (if sum_needed tp AND 0x2 \<noteq> 0
                then let sp = d + unat (tucso tp);
                         ph = ucast (lduw_be_p b2 sp) + ucast len :: u32;
                         ph' = drop_bit 16 ph + (ph AND 0xffff)
                     in stw_be_p sp (ucast ph') b2
                else b2)
      in tp\<lparr>tx_buf := b3, tso_frames := tso_frames tp + 1\<rparr>)"

definition tx_sums :: "e1000_tx \<Rightarrow> e1000_tx" where
  "tx_sums tp =
     (let n = ucast (tx_size tp);
          b1 = (if sum_needed tp AND 0x2 \<noteq> 0
                then putsum 4 n (ucast (tucso tp)) (ucast (tucss tp)) (ucast (tucse tp)) (tx_buf tp) else tx_buf tp);
          b2 = (if sum_needed tp AND 0x1 \<noteq> 0
                then putsum 4 n (ucast (ipcso tp)) (ucast (ipcss tp)) (ucast (ipcse tp)) b1 else b1)
      in tp\<lparr>tx_buf := b2\<rparr>)"

definition tx_count :: "E1000State \<Rightarrow> E1000State" where
  "tx_count s =
     (let s1 = mac_set GPTC (mac_reg s GPTC + 1) (mac_set TPT (mac_reg s TPT + 1) s);
          n = mac_reg s1 TOTL;
          s2 = mac_set TOTL (n + ucast (tx_size (tx s1))) s1
      in if mac_reg s2 TOTL < n then mac_set TOTH (mac_reg s2 TOTH + 1) s2 else s2)"

definition xmit_seg :: "E1000State \<Rightarrow> E1000State option" where
  "xmit_seg s =
     (let tp = (if tx_tse (tx s) \<and> cptse (tx s) then tso_headers (tx s) else tx s);
          tp1 = tx_sums tp
      in map_option tx_count
          (if vlan_needed tp1
           then let b = tx_buf tp1;
                    b1 = mem_write b 0 (mem_read b 4 4);
                    b2 = mem_write b1 4 (mem_read b1 8 8);
                    b3 = mem_write b2 12 (vlan_header tp1)
                in e1000_send_packet 0 (unat (tx_size tp1) + 4) (s\<lparr>tx := tp1\<lparr>tx_buf := b3\<rparr>\<rparr>)
           else e1000_send_packet 4 (unat (tx_size tp1)) (s\<lparr>tx := tp1\<rparr>)))"

text \<open>The loop of a segmented packet: fill up to the next segment boundary, send, restore the header.\<close>

definition tso_fill :: "u64 \<Rightarrow> u32 \<Rightarrow> u32 \<Rightarrow> E1000State \<Rightarrow> u32 \<times> E1000State" where
  "tso_fill addr split_size msh s =
     (let tp = tx s; sz0 = ucast (tx_size tp) :: u32;
          want = (if sz0 + split_size > msh then msh - sz0 else split_size);
          bytes = min (0x10000 - sz0) want;
          b = mem_write (tx_buf tp) (4 + unat sz0) (pci_dma_read (gmem s) addr (unat bytes));
          sz = sz0 + bytes; hl = ucast (hdr_len tp) :: u32;
          hdr = (if sz \<ge> hl \<and> sz0 < hl then mem_write (tx_header tp) 0 (mem_read b 4 (unat hl)) else tx_header tp)
      in (bytes, s\<lparr>tx := tp\<lparr>tx_buf := b, tx_header := hdr, tx_size := ucast sz\<rparr>\<rparr>))"

definition tso_restore :: "E1000State \<Rightarrow> E1000State" where
  "tso_restore s =
     (let tp = tx s
      in s\<lparr>tx := tp\<lparr>tx_buf := mem_write (tx_buf tp) 4 (mem_read (tx_header tp) 0 (unat (hdr_len tp))),
                    tx_size := ucast (hdr_len tp)\<rparr>\<rparr>)"

partial_function (option) tso_loop :: "u64 \<Rightarrow> u32 \<Rightarrow> u32 \<Rightarrow> E1000State \<Rightarrow> E1000State option" where
  "tso_loop addr split_size msh s =
     (let sz0 = ucast (tx_size (tx s)) :: u32; (bytes, s1) = tso_fill addr split_size msh s
      in Option.bind (if sz0 + bytes = msh then map_option tso_restore (xmit_seg s1) else Some s1)
           (\<lambda>s2. if split_size - bytes \<noteq> 0 then tso_loop (addr + ucast bytes) (split_size - bytes) msh s2 else Some s2))"

record e1000_tx_desc =
  buffer_addr :: u64
  lower :: u32
  upper :: u32

definition tx_desc_of :: "buffer \<Rightarrow> e1000_tx_desc" where
  "tx_desc_of bs = \<lparr>buffer_addr = u64_of_bytes (take 8 bs), lower = u32_of_bytes (take 4 (drop 8 bs)),
     upper = u32_of_bytes (take 4 (drop 12 bs))\<rparr>"

text \<open>A context descriptor is the same sixteen bytes read with other fields.\<close>

definition tx_context :: "e1000_tx_desc \<Rightarrow> e1000_tx \<Rightarrow> e1000_tx" where
  "tx_context dp tp =
     (let a = buffer_addr dp; op = lower dp; seg = upper dp;
          so = ucast (drop_bit 40 a) :: byte; ss = ucast (drop_bit 32 a) :: byte; tcp = (op AND 0x01000000 \<noteq> 0)
      in tp\<lparr>ipcss := ucast a, ipcso := ucast (drop_bit 8 a), ipcse := ucast (drop_bit 16 a),
            tucss := ss, tucso := (if so = 0 then ss + (if tcp then 16 else 6) else so), tucse := ucast (drop_bit 48 a),
            paylen := op AND 0xfffff, hdr_len := ucast (drop_bit 8 seg), tx_mss := ucast (drop_bit 16 seg),
            tx_ip := (op AND 0x02000000 \<noteq> 0), tx_tcp := tcp, tx_tse := (op AND 0x04000000 \<noteq> 0), tso_frames := 0\<rparr>)"

text \<open>The fields a data or legacy descriptor sets before its bytes are read.\<close>

definition tx_options :: "e1000_tx_desc \<Rightarrow> E1000State \<Rightarrow> e1000_tx" where
  "tx_options dp s =
     (let tp = tx s; l = lower dp;
          tp1 = (if l AND (0x20000000 OR 0x00100000) = 0x20000000 OR 0x00100000
                 then (if tx_size tp = 0 then tp\<lparr>sum_needed := ucast (drop_bit 8 (upper dp))\<rparr> else tp)
                       \<lparr>cptse := (l AND 0x04000000 \<noteq> 0)\<rparr>
                 else tp\<lparr>cptse := False\<rparr>)
      in if vlan_enabled s \<and> l AND 0x40000000 \<noteq> 0 \<and> (cptse tp1 \<or> l AND 0x01000000 \<noteq> 0)
         then tp1\<lparr>vlan_needed := True,
                  vlan_header := rev (bytes_of_u16 (ucast (mac_reg s VET))) @ rev (bytes_of_u16 (ucast (drop_bit 16 (upper dp))))\<rparr>
         else tp1)"

definition tx_plain :: "e1000_tx_desc \<Rightarrow> E1000State \<Rightarrow> E1000State" where
  "tx_plain dp s =
     (let tp = tx s; sz0 = ucast (tx_size tp) :: u32; n = min (0x10000 - sz0) (lower dp AND 0xffff)
      in s\<lparr>tx := tp\<lparr>tx_buf := mem_write (tx_buf tp) (4 + unat sz0) (pci_dma_read (gmem s) (buffer_addr dp) (unat n)),
                    tx_size := ucast (sz0 + n)\<rparr>\<rparr>)"

definition tx_eop :: "E1000State \<Rightarrow> E1000State option" where
  "tx_eop s =
     map_option (\<lambda>s1. s1\<lparr>tx := (tx s1)\<lparr>tso_frames := 0, sum_needed := 0, vlan_needed := False, tx_size := 0, cptse := False\<rparr>\<rparr>)
      (let tp = tx s
       in if tx_tse tp \<and> cptse tp \<and> tx_size tp < ucast (hdr_len tp) then Some s else xmit_seg s)"

definition process_tx_desc :: "e1000_tx_desc \<Rightarrow> E1000State \<Rightarrow> E1000State option" where
  "process_tx_desc dp s0 =
     (let l = lower dp; s = s0\<lparr>mit_ide := mit_ide s0 OR (l AND 0x80000000)\<rparr>
      in if l AND (0x20000000 OR 0x00100000) = 0x20000000 then Some (s\<lparr>tx := tx_context dp (tx s)\<rparr>)
         else let s1 = s\<lparr>tx := tx_options dp s\<rparr>; tp = tx s1
              in Option.bind
                   (if tx_tse tp \<and> cptse tp
                    then tso_loop (buffer_addr dp) (l AND 0xffff) (ucast (hdr_len tp) + ucast (tx_mss tp)) s1
                    else if cptse tp then Some s1
                    else Some (tx_plain dp s1))
                   (\<lambda>s2. if l AND 0x01000000 = 0 then Some s2 else tx_eop s2))"

definition txdesc_writeback :: "u64 \<Rightarrow> e1000_tx_desc \<Rightarrow> E1000State \<Rightarrow> u32 \<times> E1000State" where
  "txdesc_writeback base dp s =
     (if lower dp AND (0x08000000 OR 0x10000000) = 0 then (0, s)
      else let txd_upper = (upper dp OR 0x1) AND NOT (0x2 OR 0x4 OR 0x8)
           in (0x1, s\<lparr>gmem := pci_dma_write (base + 12) (bytes_of_u32 txd_upper) (gmem s)\<rparr>))"

definition tx_desc_base :: "E1000State \<Rightarrow> u64" where
  "tx_desc_base s = push_bit 32 (ucast (mac_reg s TDBAH)) + ucast (mac_reg s TDBAL AND NOT 0xf)"

text \<open>One round of the transmit loop: the descriptor at the head is processed and written back.\<close>

definition xmit_step :: "E1000State \<Rightarrow> (u32 \<times> E1000State) option" where
  "xmit_step s =
     do {
       let base = tx_desc_base s + 16 * ucast (mac_reg s TDH);
       let desc = tx_desc_of (pci_dma_read (gmem s) base 16);
       s1 \<leftarrow> process_tx_desc desc s;
       let (c, s2) = txdesc_writeback base desc s1;
       Some (c, mac_set TDH (ring_next (mac_reg s2 TDH) (mac_reg s2 TDLEN)) s2)
     }"

partial_function (option) xmit_loop :: "u32 \<Rightarrow> u32 \<Rightarrow> E1000State \<Rightarrow> (u32 \<times> E1000State) option" where
  "xmit_loop tdh_start cause s =
     (if mac_reg s TDH \<noteq> mac_reg s TDT
      then Option.bind (xmit_step s) (\<lambda>(c, s1).
             if mac_reg s1 TDH = tdh_start then Some (cause OR c, s1) else xmit_loop tdh_start (cause OR c) s1)
      else Some (cause, s))"

definition start_xmit :: "E1000State \<Rightarrow> E1000State option" where
  "start_xmit s =
     (if mac_reg s TCTL AND 0x2 = 0 then Some s
      else map_option (\<lambda>(cause, s1). set_ics cause s1) (xmit_loop (mac_reg s TDH) 0x2 s))"

subsection \<open>The register interface\<close>

definition set_tctl :: "nat \<Rightarrow> u32 \<Rightarrow> E1000State \<Rightarrow> E1000State option" where
  "set_tctl index val s =
     (let s1 = mac_set index val s in start_xmit (mac_set TDT (mac_reg s1 TDT AND 0xffff) s1))"

definition set_rdt :: "nat \<Rightarrow> u32 \<Rightarrow> E1000State \<Rightarrow> E1000State" where
  "set_rdt index val s =
     (let s1 = mac_set index (val AND 0xffff) s in if e1000_has_rxbufs s1 1 then log_event EvFlush s1 else s1)"

definition in_block :: "nat \<Rightarrow> nat \<Rightarrow> nat \<Rightarrow> bool" where
  "in_block base n i \<longleftrightarrow> base \<le> i \<and> i < base + n"

definition plain_write_regs :: "nat set" where
  "plain_write_regs = {PBA, EERD, SWSM, WUFC, TDBAL, TDBAH, TXDCTL, RDBAH, RDBAL, LEDCTL, VET}"

definition table_regs :: "nat \<Rightarrow> bool" where
  "table_regs i \<longleftrightarrow> in_block RA 32 i \<or> in_block MTA 128 i \<or> in_block VFTA 128 i"

definition e1000_mmio_write :: "u64 \<Rightarrow> u32 \<Rightarrow> E1000State \<Rightarrow> E1000State option" where
  "e1000_mmio_write addr val s =
     (let index = unat (drop_bit 2 (addr AND 0x1ffff))
      in if index = TCTL \<or> index = TDT then set_tctl index val s
         else Some (
           if index \<in> plain_write_regs \<or> table_regs index then mac_set index val s
           else if index = TDLEN \<or> index = RDLEN then mac_set index (val AND 0xfff80) s
           else if index = MDIC then set_mdic val s
           else if index = ICS then set_ics val s
           else if index \<in> {TDH, RDH, RDTR, RADV, TADV, ITR} then mac_set index (val AND 0xffff) s
           else if index = RDT then set_rdt index val s
           else if index = IMC then set_imc val s
           else if index = IMS then set_ims val s
           else if index = ICR then set_icr val s
           else if index = EECD then set_eecd val s
           else if index = RCTL then set_rx_control val s
           else if index = CTRL then set_ctrl val s
           else s))"

definition plain_read_regs :: "nat set" where
  "plain_read_regs = {PBA, RCTL, TDH, TXDCTL, WUFC, TDT, CTRL, LEDCTL, MANC, MDIC, SWSM, STATUS, TORL, TOTL, IMS, TCTL,
     RDH, RDT, VET, ICS, TDBAL, TDBAH, RDBAH, RDBAL, TDLEN, RDLEN, RDTR, RADV, TADV, ITR}"

definition e1000_mmio_read :: "u64 \<Rightarrow> E1000State \<Rightarrow> u32 \<times> E1000State" where
  "e1000_mmio_read addr s =
     (let index = unat (drop_bit 2 (addr AND 0x1ffff))
      in if index \<in> plain_read_regs \<or> in_block CRCERRS 5 index \<or> table_regs index then (mac_reg s index, s)
         else if index = TOTH \<or> index = TORH then (mac_reg s index, mac_set (index - 1) 0 (mac_set index 0 s))
         else if index \<in> {GPRC, GPTC, TPR, TPT} then (mac_reg s index, mac_set index 0 s)
         else if index = ICR then (mac_reg s ICR, set_interrupt_cause 0 s)
         else if index = EECD then (get_eecd s, s)
         else if index = EERD then (flash_eerd_read s, s)
         else (0, s))"

end
