(* ===== verification/E1000_Frame.thy ===== *)
theory E1000_Frame
  imports E1000_Rings
begin

text \<open>
  What the data paths of the network card leave alone. \<open>nic_evolves s s'\<close> says of two states of
  the card that only status, statistics and receive-head registers differ, that the interrupt
  bookkeeping stays consistent, and that every frame put on the wire was handed to the plugin hook.
  It is reflexive and transitive, and every operation from \<open>set_ics\<close> to \<open>start_xmit\<close>
  relates its argument to its result by it.
\<close>

definition moved :: "nat set" where
  "moved = {ICR, ICS, RDH, GPRC, TPR, TORL, TORH, TPT, GPTC, TOTL, TOTH}"

text \<open>The causes read the same in both registers, and the pin shows whether an enabled cause is
  pending unless the mitigation timer holds it back.\<close>

definition irq_ok :: "E1000State \<Rightarrow> bool" where
  "irq_ok s \<longleftrightarrow> mac_reg s ICS = mac_reg s ICR \<and>
     (mit_irq_level s = (mac_reg s IMS AND mac_reg s ICR \<noteq> 0) \<or> mit_timer_on s \<and> \<not> mit_irq_level s)"

fun wire_of :: "nic_event \<Rightarrow> buffer list" where
  "wire_of (EvWire w) = [w]"
| "wire_of (EvHook c) = []"
| "wire_of (EvIrq b) = []"
| "wire_of EvFlush = []"

fun sent_of :: "nic_event \<Rightarrow> buffer list" where
  "sent_of (EvHook (NicSend b z)) = [take (unat z) b]"
| "sent_of (EvHook (NicRecv b z)) = []"
| "sent_of (EvHook (HmpSet p v)) = []"
| "sent_of (EvHook (HmpReset p)) = []"
| "sent_of (EvHook (HmpToggle p)) = []"
| "sent_of (EvHook (BlkWrite a b c)) = []"
| "sent_of (EvHook (BlkRead a b c)) = []"
| "sent_of (EvWire w) = []"
| "sent_of (EvIrq b) = []"
| "sent_of EvFlush = []"

text \<open>Frames on the wire, and frames handed to the send hook of the plugin.\<close>

definition wires :: "nic_event list \<Rightarrow> buffer list" where
  "wires es = concat (map wire_of es)"

definition sends :: "nic_event list \<Rightarrow> buffer list" where
  "sends es = concat (map sent_of es)"

lemma wires_simps [simp]:
  "wires [] = []" "wires (es @ fs) = wires es @ wires fs" "wires (e # es) = wire_of e @ wires es"
  by (simp_all add: wires_def)

lemma sends_simps [simp]:
  "sends [] = []" "sends (es @ fs) = sends es @ sends fs" "sends (e # es) = sent_of e @ sends es"
  by (simp_all add: sends_def)

text \<open>Hook calls whose packet the plugin can read.\<close>

fun event_ok :: "nic_event \<Rightarrow> bool" where
  "event_ok (EvHook c) = (call_ok c \<and> (\<forall>p v. c \<noteq> HmpSet p v))"
| "event_ok (EvWire w) = True"
| "event_ok (EvIrq b) = True"
| "event_ok EvFlush = True"

definition nic_evolves :: "E1000State \<Rightarrow> E1000State \<Rightarrow> bool" where
  "nic_evolves s s' \<longleftrightarrow>
     (\<forall>i. i \<notin> moved \<longrightarrow> mac_reg s' i = mac_reg s i) \<and> phy_reg s' = phy_reg s \<and>
     eeprom_data s' = eeprom_data s \<and> link_is_down s' = link_is_down s \<and> (irq_ok s \<longrightarrow> irq_ok s') \<and>
     (\<exists>es. nic_trace s' = nic_trace s @ es \<and> wires es = sends es \<and> (\<forall>e \<in> set es. event_ok e))"

lemma nic_evolves_refl [simp]: "nic_evolves s s"
  by (simp add: nic_evolves_def exI [of _ "[]"])

lemma nic_evolves_trans [trans]:
  assumes "nic_evolves s t" "nic_evolves t u"
  shows "nic_evolves s u"
proof -
  from assms(1) obtain es where es: "nic_trace t = nic_trace s @ es" "wires es = sends es" "\<forall>e \<in> set es. event_ok e"
    by (auto simp: nic_evolves_def)
  from assms(2) obtain fs where fs: "nic_trace u = nic_trace t @ fs" "wires fs = sends fs" "\<forall>e \<in> set fs. event_ok e"
    by (auto simp: nic_evolves_def)
  from assms es fs show ?thesis
    unfolding nic_evolves_def by (intro conjI exI [of _ "es @ fs"]) auto
qed

text \<open>A change of fields the relation does not speak of.\<close>

lemma nic_evolves_same:
  assumes "mac_reg s' = mac_reg s" "phy_reg s' = phy_reg s" "eeprom_data s' = eeprom_data s"
    "link_is_down s' = link_is_down s" "mit_irq_level s' = mit_irq_level s" "mit_timer_on s' = mit_timer_on s"
    "nic_trace s' = nic_trace s"
  shows "nic_evolves s s'"
  using assms by (simp add: nic_evolves_def irq_ok_def)

lemma nic_evolves_mac_set:
  "i \<in> moved - {ICR, ICS} \<Longrightarrow> nic_evolves s (mac_set i v s)"
  unfolding nic_evolves_def irq_ok_def mac_set_def
  by (auto simp: moved_def)

lemma nic_evolves_log:
  "wire_of e = [] \<Longrightarrow> sent_of e = [] \<Longrightarrow> event_ok e \<Longrightarrow> nic_evolves s (log_event e s)"
  by (simp add: nic_evolves_def irq_ok_def log_event_def)

lemma mit_rearm_fields [simp]:
  "mac_reg (mit_rearm p s) = mac_reg s" "phy_reg (mit_rearm p s) = phy_reg s"
  "eeprom_data (mit_rearm p s) = eeprom_data s" "link_is_down (mit_rearm p s) = link_is_down s"
  "nic_trace (mit_rearm p s) = nic_trace s"
  by (simp_all add: mit_rearm_def Let_def)

lemma set_interrupt_cause_irq_ok: "irq_ok (set_interrupt_cause v s)"
  by (simp add: set_interrupt_cause_def Let_def irq_ok_def mac_set_def log_event_def)

lemma set_interrupt_cause_evolves: "nic_evolves s (set_interrupt_cause v s)"
  using set_interrupt_cause_irq_ok [of v s]
  by (simp add: nic_evolves_def) (auto simp: set_interrupt_cause_def Let_def mac_set_def log_event_def moved_def)

lemma set_ics_evolves: "nic_evolves s (set_ics v s)"
  by (simp add: set_ics_def set_interrupt_cause_evolves)

subsection \<open>Receiving\<close>

lemma rx_desc_step_evolves:
  "rx_desc_step j iovs ofs off s = Some (iovs', ofs', off', s') \<Longrightarrow> nic_evolves s s'"
proof -
  assume "rx_desc_step j iovs ofs off s = Some (iovs', ofs', off', s')"
  then obtain g v where s': "s' = mac_set RDH v (s\<lparr>gmem := g\<rparr>)"
    by (auto simp: rx_desc_step_def Let_def split: bind_splits if_splits)
  have "nic_evolves s (s\<lparr>gmem := g\<rparr>)" by (rule nic_evolves_same) simp_all
  also have "nic_evolves (s\<lparr>gmem := g\<rparr>) s'" unfolding s' by (rule nic_evolves_mac_set) (simp add: moved_def)
  finally show ?thesis .
qed

lemma rx_loop_evolves:
  assumes a: "rx_loop j iovs ofs off s = Some r"
  shows "case r of Inl s' \<Rightarrow> nic_evolves s s' | Inr s' \<Rightarrow> nic_evolves s s'"
proof (rule rx_loop.raw_induct [OF _ a])
  fix loop j iovs ofs off s r
  assume IH: "\<And>j iovs ofs off s r. loop j iovs ofs off s = Some r \<Longrightarrow>
      case r of Inl s' \<Rightarrow> nic_evolves s s' | Inr s' \<Rightarrow> nic_evolves s s'"
    and "rx_desc_step j iovs ofs off s \<bind> (\<lambda>(iovs', ofs', off', s').
       if mac_reg s' RDH = job_start j then Some (Inl (set_ics 0x40 s'))
       else if off' < job_total j then loop j iovs' ofs' off' s' else Some (Inr s')) = Some r"
  then obtain iovs' ofs' off' s1 where st: "rx_desc_step j iovs ofs off s = Some (iovs', ofs', off', s1)"
    and r: "(if mac_reg s1 RDH = job_start j then Some (Inl (set_ics 0x40 s1))
       else if off' < job_total j then loop j iovs' ofs' off' s1 else Some (Inr s1)) = Some r"
    by (auto split: bind_splits)
  have e: "nic_evolves s s1" by (rule rx_desc_step_evolves [OF st])
  show "case r of Inl s' \<Rightarrow> nic_evolves s s' | Inr s' \<Rightarrow> nic_evolves s s'"
  proof (cases "mac_reg s1 RDH = job_start j")
    case True
    then show ?thesis using r nic_evolves_trans [OF e set_ics_evolves] by auto
  next
    case False
    show ?thesis
    proof (cases "off' < job_total j")
      case True
      with False r have "case r of Inl s' \<Rightarrow> nic_evolves s1 s' | Inr s' \<Rightarrow> nic_evolves s1 s'" by (intro IH) simp
      then show ?thesis using nic_evolves_trans [OF e] by (auto split: sum.splits)
    next
      case f: False
      then show ?thesis using False r e by auto
    qed
  qed
qed

lemma rx_finish_evolves: "nic_evolves s (rx_finish n s)"
proof -
  have m: "nic_evolves t (mac_set i v t)" if "i \<in> {TPR, GPRC, TORH, TORL}" for t i v
    by (rule nic_evolves_mac_set) (use that in \<open>auto simp: moved_def\<close>)
  show ?thesis unfolding rx_finish_def Let_def
    by (rule nic_evolves_trans [OF _ set_ics_evolves], rule nic_evolves_trans [OF _ m], simp_all)
      (intro conjI impI; (rule nic_evolves_trans [OF _ m])+; simp)
qed

lemma receive_iov_evolves:
  assumes "e1000_receive_iov mb m iovs s = Some (r, m', s')"
  shows "nic_evolves s s'"
  using assms rx_loop_evolves set_ics_evolves nic_evolves_trans [OF _ rx_finish_evolves]
  by (fastforce simp: e1000_receive_iov_def Let_def split: bind_splits if_splits sum.splits)

lemma receive_evolves:
  assumes "e1000_receive mb m buf lim n s = Some (r, m', s')" "38 \<le> lim" "n \<le> lim" "n < 2 ^ 31"
  shows "nic_evolves s s'"
proof -
  let ?e = "EvHook (NicRecv (mem_read m buf lim) (of_nat n))"
  have "unat (of_nat n :: u64) = n" using assms(4) by (simp add: unsigned_of_nat take_bit_nat_eq_self)
  then have "event_ok ?e" using assms(2-4) by (simp add: packet_ok_def)
  then have "nic_evolves s (log_event ?e s)" by (intro nic_evolves_log) simp_all
  also have "nic_evolves \<dots> s'" using assms(1) by (intro receive_iov_evolves) (simp add: e1000_receive_def)
  finally show ?thesis .
qed

subsection \<open>Sending\<close>

lemma take_mem_read: "n \<le> k \<Longrightarrow> take n (mem_read m a k) = mem_read m a n"
  by (simp add: mem_read_def take_map take_upt)

lemma send_packet_evolves:
  assumes "e1000_send_packet off n s = Some s'" "off \<le> 4" "off + n \<le> tx_array"
  shows "nic_evolves s s'"
proof -
  let ?b = "tx_buf (tx s)" and ?lim = "tx_array - off"
  have n: "n \<le> ?lim" "38 \<le> ?lim" "n < 2 ^ 31" using assms(2,3) by (simp_all add: tx_array_def)
  show ?thesis
  proof (cases "phy_reg s PHY_CTRL AND 0x4000 \<noteq> 0")
    case True
    with assms(1) obtain r m1 s1 where r: "e1000_receive tx_array ?b off ?lim n s = Some (r, m1, s1)"
      and s': "s' = s1\<lparr>tx := (tx s1)\<lparr>tx_buf := mem_write ?b off (mem_read m1 off n)\<rparr>\<rparr>"
      by (auto simp: e1000_send_packet_def Let_def split: bind_splits)
    have "nic_evolves s s1" by (rule receive_evolves [OF r n(2,1,3)])
    also have "nic_evolves s1 s'" unfolding s' by (rule nic_evolves_same) simp_all
    finally show ?thesis .
  next
    case False
    have u: "unat (of_nat n :: u64) = n" using n(3) by (simp add: unsigned_of_nat take_bit_nat_eq_self)
    have "take n (mem_read ?b off ?lim) = mem_read ?b off n" by (rule take_mem_read [OF n(1)])
    then show ?thesis using assms(1) False n u
      by (simp add: e1000_send_packet_def Let_def nic_evolves_def log_event_def irq_ok_def packet_ok_def)
        (auto simp: irq_ok_def packet_ok_def)
  qed
qed

lemma nic_evolves_tx [simp]: "nic_evolves s (s\<lparr>tx := t\<rparr>)"
  by (rule nic_evolves_same) simp_all

lemma tx_count_evolves: "nic_evolves s (tx_count s)"
proof -
  have m: "nic_evolves t (mac_set i v t)" if "i \<in> {TPT, GPTC, TOTL, TOTH}" for t i v
    by (rule nic_evolves_mac_set) (use that in \<open>auto simp: moved_def\<close>)
  show ?thesis unfolding tx_count_def Let_def
    by (auto intro!: nic_evolves_trans [OF _ m])
qed

lemma tx_size_less: "unat (tx_size tp) < 65536"
  using unat_less_pow [of "tx_size tp"] by simp

lemma xmit_seg_evolves:
  assumes "xmit_seg s = Some s'"
  shows "nic_evolves s s'"
proof -
  from assms obtain off n t s1 where s1: "e1000_send_packet off n (s\<lparr>tx := t\<rparr>) = Some s1" "s' = tx_count s1"
    and b: "off \<le> 4" "off + n \<le> tx_array"
  proof -
    let ?tp1 = "tx_sums (if tx_tse (tx s) \<and> cptse (tx s) then tso_headers (tx s) else tx s)"
    have "unat (tx_size ?tp1) < 65536" by (rule tx_size_less)
    then show ?thesis using assms that
      by (cases "vlan_needed ?tp1") (force simp: xmit_seg_def Let_def tx_array_def)+
  qed
  have "nic_evolves s (s\<lparr>tx := t\<rparr>)" by simp
  also have "nic_evolves \<dots> s1" by (rule send_packet_evolves [OF s1(1) b])
  also have "nic_evolves s1 s'" unfolding s1(2) by (rule tx_count_evolves)
  finally show ?thesis .
qed

lemma tso_fill_evolves: "tso_fill addr n msh s = (b, s') \<Longrightarrow> nic_evolves s s'"
  by (auto simp: tso_fill_def Let_def)

lemma tso_loop_evolves:
  assumes a: "tso_loop addr n msh s = Some s'"
  shows "nic_evolves s s'"
proof (rule tso_loop.raw_induct [OF _ a])
  fix loop addr n msh s s'
  assume IH: "\<And>addr n msh s s'. loop addr n msh s = Some s' \<Longrightarrow> nic_evolves s s'"
    and body: "(let sz0 = ucast (tx_size (tx s)) :: u32; (bytes, s1) = tso_fill addr n msh s
      in Option.bind (if sz0 + bytes = msh then map_option tso_restore (xmit_seg s1) else Some s1)
           (\<lambda>s2. if n - bytes \<noteq> 0 then loop (addr + ucast bytes) (n - bytes) msh s2 else Some s2)) = Some s'"
  obtain bytes s1 where f: "tso_fill addr n msh s = (bytes, s1)" by fastforce
  with body obtain s2 where s2: "(if ucast (tx_size (tx s)) + bytes = msh then map_option tso_restore (xmit_seg s1) else Some s1) = Some s2"
    and r: "(if n - bytes \<noteq> 0 then loop (addr + ucast bytes) (n - bytes) msh s2 else Some s2) = Some s'"
    by (auto simp: Let_def split: bind_splits)
  have "nic_evolves s s1" by (rule tso_fill_evolves [OF f])
  also have "nic_evolves s1 s2"
    using s2 nic_evolves_trans [OF xmit_seg_evolves nic_evolves_tx]
    by (auto simp: tso_restore_def Let_def split: if_splits)
  also have "nic_evolves s2 s'" using r IH by (auto split: if_splits)
  finally show "nic_evolves s s'" .
qed

lemma tx_eop_evolves: "tx_eop s = Some s' \<Longrightarrow> nic_evolves s s'"
  using nic_evolves_trans [OF xmit_seg_evolves nic_evolves_tx]
  by (auto simp: tx_eop_def Let_def split: if_splits)

lemma process_tx_desc_evolves:
  assumes "process_tx_desc dp s = Some s'"
  shows "nic_evolves s s'"
proof -
  define s0 where "s0 = s\<lparr>mit_ide := mit_ide s OR (lower dp AND 0x80000000)\<rparr>"
  have z: "nic_evolves s s0" unfolding s0_def by (rule nic_evolves_same) simp_all
  show ?thesis
  proof (cases "lower dp AND (0x20000000 OR 0x00100000) = 0x20000000")
    case True
    with assms have "s' = s0\<lparr>tx := tx_context dp (tx s0)\<rparr>" by (simp add: process_tx_desc_def Let_def s0_def)
    then show ?thesis using nic_evolves_trans [OF z nic_evolves_tx] by simp
  next
    case False
    define s1 where "s1 = s0\<lparr>tx := tx_options dp s0\<rparr>"
    let ?fill = "if tx_tse (tx s1) \<and> cptse (tx s1)
        then tso_loop (buffer_addr dp) (lower dp AND 0xffff) (ucast (hdr_len (tx s1)) + ucast (tx_mss (tx s1))) s1
        else if cptse (tx s1) then Some s1 else Some (tx_plain dp s1)"
    have "Option.bind ?fill (\<lambda>s2. if lower dp AND 0x01000000 = 0 then Some s2 else tx_eop s2) = Some s'"
      using False assms unfolding process_tx_desc_def Let_def s0_def s1_def by simp
    then obtain s2 where s2: "?fill = Some s2" "(if lower dp AND 0x01000000 = 0 then Some s2 else tx_eop s2) = Some s'"
      unfolding bind_eq_Some_conv by blast
    note z
    also have "nic_evolves s0 s1" unfolding s1_def by simp
    also have "nic_evolves s1 s2"
      using s2(1) tso_loop_evolves by (auto simp: tx_plain_def Let_def split: if_splits)
    also have "nic_evolves s2 s'" using s2(2) tx_eop_evolves by (auto split: if_splits)
    finally show ?thesis .
  qed
qed

text \<open>One round of the transmit loop keeps everything but the transmit head, which moves on.\<close>

lemma xmit_step_evolves:
  assumes "xmit_step s = Some (c, s')"
  shows "\<exists>t. nic_evolves s t \<and> s' = mac_set TDH (ring_next (mac_reg s TDH) (mac_reg s TDLEN)) t"
proof -
  let ?base = "tx_desc_base s + 16 * ucast (mac_reg s TDH)"
  let ?d = "tx_desc_of (pci_dma_read (gmem s) ?base 16)"
  from assms obtain s1 s2 where s1: "process_tx_desc ?d s = Some s1" "txdesc_writeback ?base ?d s1 = (c, s2)"
    "s' = mac_set TDH (ring_next (mac_reg s2 TDH) (mac_reg s2 TDLEN)) s2"
    by (auto simp: xmit_step_def Let_def split: bind_splits prod.splits)
  have "nic_evolves s s1" by (rule process_tx_desc_evolves [OF s1(1)])
  also have "nic_evolves s1 s2" using s1(2)
    by (auto simp: txdesc_writeback_def Let_def split: if_splits intro: nic_evolves_same)
  finally have e: "nic_evolves s s2" .
  then have "mac_reg s2 TDH = mac_reg s TDH" "mac_reg s2 TDLEN = mac_reg s TDLEN"
    by (auto simp: nic_evolves_def moved_def)
  with e s1(3) show ?thesis by auto
qed

end
