(* ===== verification/E1000_Transmit.thy ===== *)
theory E1000_Transmit
  imports E1000_Frame
begin

text \<open>
  When the transmit path of the network card returns. A segmented packet is finished whenever its
  segment size is not zero; the loop over the ring ends after at most one turn when the head lies in
  the ring, and never ends when head and tail both lie outside it.
\<close>

subsection \<open>Segmentation\<close>

lemma tso_fill_bytes:
  assumes f: "tso_fill addr n msh s = (b, s1)" and K: "unat msh < 2 ^ 17"
  defines "S \<equiv> unat (tx_size (tx s))" and "K \<equiv> unat msh" and "N \<equiv> unat n" and "B \<equiv> unat b"
  shows "B \<le> 65536 - S"
    and "K < S \<Longrightarrow> B = 65536 - S"
    and "S = K \<Longrightarrow> B = 0 \<or> B = 65536 - S \<and> B \<le> N"
    and "S < K \<Longrightarrow> B \<le> N \<and> (N = 0 \<or> 1 \<le> B) \<and> (S + B \<le> K \<or> B = 65536 - S)"
proof -
  let ?z = "ucast (tx_size (tx s)) :: u32"
  have z: "unat ?z = S" unfolding S_def using unat_less_pow [of "tx_size (tx s)"] by (simp add: unsigned_ucast_eq take_bit_nat_eq_self)
  have S: "S < 65536" unfolding S_def using unat_less_pow [of "tx_size (tx s)"] by simp
  have N: "N < 2 ^ 32" unfolding N_def using unat_less_pow [of n] by simp
  let ?w = "if ?z + n > msh then msh - ?z else n"
  have b: "b = min (0x10000 - ?z) ?w" using f by (simp add: tso_fill_def Let_def)
  have room: "unat (0x10000 - ?z) = 65536 - S" using S z by (simp add: unat_sub word_le_nat_alt)
  have B: "B = min (65536 - S) (unat ?w)" unfolding B_def b by (simp add: min_def word_le_nat_alt room)
  have sum: "unat (?z + n) = (S + N) mod 2 ^ 32" by (simp add: unat_word_ariths z N_def)
  have gt: "(?z + n > msh) \<longleftrightarrow> K < (S + N) mod 2 ^ 32" unfolding K_def sum [symmetric] by (simp add: word_less_nat_alt)
  have up: "unat (msh - ?z) = K - S" if "S \<le> K" using that z by (simp add: unat_sub word_le_nat_alt K_def)
  have down: "65536 \<le> unat (msh - ?z)" if "K < S"
  proof -
    have "\<not> ?z \<le> msh" using that z by (simp add: word_le_nat_alt K_def)
    then have "unat (msh - ?z) = 2 ^ 32 + K - S" using z by (simp add: unat_sub_if' word_le_nat_alt K_def)
    then show ?thesis using S by simp
  qed
  have nowrap: "(S + N) mod 2 ^ 32 = S + N \<or> 2 ^ 32 \<le> S + N" by (cases "S + N < 2 ^ 32") simp_all
  show "B \<le> 65536 - S" using B by simp
  show "B = 65536 - S" if "K < S"
  proof (cases "K < (S + N) mod 2 ^ 32")
    case True
    then show ?thesis using B down [OF that] gt S by (simp add: min_def)
  next
    case False
    then have "2 ^ 32 \<le> S + N" using nowrap that by auto
    then show ?thesis using B False gt S by (simp add: N_def min_def)
  qed
  show "B = 0 \<or> B = 65536 - S \<and> B \<le> N" if "S = K"
  proof (cases "K < (S + N) mod 2 ^ 32")
    case True
    then show ?thesis using B up that gt by simp
  next
    case False
    then have "N = 0 \<or> 2 ^ 32 \<le> S + N" using nowrap that by auto
    then show ?thesis using B False gt S by (auto simp: N_def min_def)
  qed
  show "B \<le> N \<and> (N = 0 \<or> 1 \<le> B) \<and> (S + B \<le> K \<or> B = 65536 - S)" if "S < K"
  proof (cases "K < (S + N) mod 2 ^ 32")
    case True
    moreover have "(S + N) mod 2 ^ 32 \<le> S + N" by simp
    ultimately have "K - S < N" using that by linarith
    then show ?thesis using B up that gt True S by (auto simp: min_def)
  next
    case False
    then have "unat ?w = N" using gt by (simp add: N_def)
    moreover have "S + N \<le> K \<or> 2 ^ 32 \<le> S + N" using False nowrap by auto
    ultimately show ?thesis using B S by (auto simp: min_def)
  qed
qed

lemma tso_fill_fields:
  assumes "tso_fill addr n msh s = (b, s1)"
  shows "tx_size (tx s1) = ucast (ucast (tx_size (tx s)) + b)" "hdr_len (tx s1) = hdr_len (tx s)"
    "tx_mss (tx s1) = tx_mss (tx s)" "phy_reg s1 = phy_reg s"
  using assms by (auto simp: tso_fill_def Let_def)

lemma tx_sums_fields [simp]:
  "hdr_len (tx_sums t) = hdr_len t" "tx_mss (tx_sums t) = tx_mss t" "tx_size (tx_sums t) = tx_size t"
  "tx_tse (tx_sums t) = tx_tse t" "vlan_needed (tx_sums t) = vlan_needed t"
  by (simp_all add: tx_sums_def Let_def)

lemma tso_headers_fields [simp]:
  "hdr_len (tso_headers t) = hdr_len t" "tx_mss (tso_headers t) = tx_mss t" "tx_size (tso_headers t) = tx_size t"
  "tx_tse (tso_headers t) = tx_tse t" "vlan_needed (tso_headers t) = vlan_needed t"
  by (simp_all add: tso_headers_def Let_def)

lemma tx_count_fields [simp]: "tx (tx_count s) = tx s" "phy_reg (tx_count s) = phy_reg s" "gmem (tx_count s) = gmem s"
  by (simp_all add: tx_count_def Let_def mac_set_def)

text \<open>Outside loopback mode a frame always leaves, and the segmentation parameters stay.\<close>

lemma xmit_seg_returns:
  assumes "phy_reg s PHY_CTRL AND 0x4000 = 0"
  shows "\<exists>s'. xmit_seg s = Some s' \<and> hdr_len (tx s') = hdr_len (tx s) \<and> tx_mss (tx s') = tx_mss (tx s) \<and>
    tx_tse (tx s') = tx_tse (tx s) \<and> phy_reg s' = phy_reg s \<and> gmem s' = gmem s"
  using assms by (simp add: xmit_seg_def e1000_send_packet_def Let_def log_event_def)

text \<open>What still has to be done: a size past the segment boundary, the bytes left, one empty round.\<close>

definition tso_rest :: "nat \<Rightarrow> nat \<Rightarrow> nat \<Rightarrow> nat" where
  "tso_rest K S N = (if K < S then 2 ^ 34 else 0) + 2 * N + (if S = K then 1 else 0)"

lemma tso_loop_returns:
  assumes "phy_reg s PHY_CTRL AND 0x4000 = 0" "tx_mss (tx s) \<noteq> 0"
    "msh = ucast (hdr_len (tx s)) + ucast (tx_mss (tx s))"
  shows "\<exists>s'. tso_loop addr n msh s = Some s'"
  using assms
proof (induction "tso_rest (unat msh) (unat (tx_size (tx s))) (unat n)" arbitrary: addr n s rule: less_induct)
  case less
  obtain b s1 where f: "tso_fill addr n msh s = (b, s1)" by fastforce
  note ff = tso_fill_fields [OF f]
  have H: "unat (hdr_len (tx s)) < 256" and M: "unat (tx_mss (tx s)) < 65536" "0 < unat (tx_mss (tx s))"
    using unat_less_pow [of "hdr_len (tx s)"] unat_less_pow [of "tx_mss (tx s)"] less.prems(2) by (simp_all add: unat_pos_iff)
  have K: "unat msh = unat (hdr_len (tx s)) + unat (tx_mss (tx s))"
    unfolding less.prems(3) using H M by (simp add: unat_word_ariths unsigned_ucast_eq take_bit_nat_eq_self)
  have K17: "unat msh < 2 ^ 17" unfolding K using H M by simp
  let ?S = "unat (tx_size (tx s))" and ?K = "unat msh" and ?N = "unat n" and ?B = "unat b"
  note bb = tso_fill_bytes [OF f K17]
  have S: "?S < 65536" "?N < 2 ^ 32" "?B \<le> 65536 - ?S" using unat_less_pow [of "tx_size (tx s)"] unat_less_pow [of n] bb(1) by simp_all
  have sz: "unat (ucast (tx_size (tx s)) + b) = ?S + ?B"
    using S by (simp add: unat_word_ariths unsigned_ucast_eq take_bit_nat_eq_self)
  have eq: "ucast (tx_size (tx s)) + b = msh \<longleftrightarrow> ?S + ?B = ?K" by (metis sz unsigned_word_eqI)
  obtain s2 where s2: "(if ucast (tx_size (tx s)) + b = msh then map_option tso_restore (xmit_seg s1) else Some s1) = Some s2"
    "hdr_len (tx s2) = hdr_len (tx s)" "tx_mss (tx s2) = tx_mss (tx s)" "phy_reg s2 = phy_reg s"
    "unat (tx_size (tx s2)) = (if ?S + ?B = ?K then unat (hdr_len (tx s)) else (?S + ?B) mod 65536)"
  proof (cases "?S + ?B = ?K")
    case True
    obtain t where "xmit_seg s1 = Some t" "hdr_len (tx t) = hdr_len (tx s1)" "tx_mss (tx t) = tx_mss (tx s1)" "phy_reg t = phy_reg s1"
      using xmit_seg_returns [of s1] less.prems(1) ff(4) by auto
    with True show ?thesis using that [of "tso_restore t"] ff eq H
      by (simp add: tso_restore_def Let_def unsigned_ucast_eq take_bit_nat_eq_self)
  next
    case False
    have "unat (tx_size (tx s1)) = (?S + ?B) mod 65536"
      unfolding ff(1) unsigned_ucast_eq sz by (simp add: take_bit_eq_mod)
    with False show ?thesis using that [of s1] ff eq by simp
  qed
  show ?case
  proof (cases "n - b = 0")
    case True
    then show ?thesis using s2(1) f by (subst tso_loop.simps) (simp add: Let_def)
  next
    case False
    have N2: "unat (n - b) < 2 ^ 32" "?B \<le> ?N \<Longrightarrow> unat (n - b) = ?N - ?B"
      using unat_less_pow [of "n - b"] by (simp_all add: unat_sub word_le_nat_alt)
    have "tso_rest ?K (unat (tx_size (tx s2))) (unat (n - b)) < tso_rest ?K ?S ?N"
    proof -
      consider "?K < ?S" | "?S = ?K" "?B = 0" | "?S = ?K" "?B = 65536 - ?S" "?B \<le> ?N" | "?S < ?K" using bb(3) by linarith
      then show ?thesis
      proof cases
        case 1
        then show ?thesis using bb(2) s2(5) S K M(2) N2(1) by (simp add: tso_rest_def)
      next
        case 2
        then show ?thesis using s2(5) K M(2) N2(2) by (simp add: tso_rest_def)
      next
        case 3
        then show ?thesis using s2(5) S K M(2) N2(2) by (simp add: tso_rest_def)
      next
        case 4
        then have B: "?B \<le> ?N" "?N = 0 \<or> 1 \<le> ?B" "?S + ?B \<le> ?K \<or> ?S + ?B = 65536" using bb(4) S by auto
        have "?N \<noteq> 0" using False B(1) N2(2) by (metis diff_is_0_eq' unat_eq_zero zero_le le_zero_eq)
        moreover have "unat (tx_size (tx s2)) \<le> ?K"
          using s2(5) B(3) K le_trans [OF mod_less_eq_dividend [of "?S + ?B" 65536]] by auto
        ultimately show ?thesis using B 4 N2(2) by (auto simp: tso_rest_def)
      qed
    qed
    from less.hyps [OF this] s2(2-4) less.prems obtain s' where "tso_loop (addr + ucast b) (n - b) msh s2 = Some s'" by fastforce
    then show ?thesis using s2(1) f False by (subst tso_loop.simps) (simp add: Let_def)
  qed
qed

lemma tx_options_fields [simp]:
  "hdr_len (tx_options d s) = hdr_len (tx s)" "tx_mss (tx_options d s) = tx_mss (tx s)" "tx_tse (tx_options d s) = tx_tse (tx s)"
  by (simp_all add: tx_options_def Let_def)

lemma tx_eop_returns: "phy_reg s PHY_CTRL AND 0x4000 = 0 \<Longrightarrow> \<exists>s'. tx_eop s = Some s'"
  using xmit_seg_returns [of s] by (auto simp: tx_eop_def Let_def)

lemma process_tx_desc_returns:
  assumes "phy_reg s PHY_CTRL AND 0x4000 = 0" "tx_tse (tx s) \<Longrightarrow> tx_mss (tx s) \<noteq> 0"
  shows "\<exists>s'. process_tx_desc d s = Some s'"
proof -
  define s1 where "s1 = s\<lparr>mit_ide := mit_ide s OR (lower d AND 0x80000000),
     tx := tx_options d (s\<lparr>mit_ide := mit_ide s OR (lower d AND 0x80000000)\<rparr>)\<rparr>"
  have f: "phy_reg s1 = phy_reg s" "tx_tse (tx s1) = tx_tse (tx s)" "tx_mss (tx s1) = tx_mss (tx s)"
    by (simp_all add: s1_def)
  let ?fill = "if tx_tse (tx s1) \<and> cptse (tx s1)
      then tso_loop (buffer_addr d) (lower d AND 0xffff) (ucast (hdr_len (tx s1)) + ucast (tx_mss (tx s1))) s1
      else if cptse (tx s1) then Some s1 else Some (tx_plain d s1)"
  have "\<exists>s2. ?fill = Some s2"
    using tso_loop_returns [of s1, OF _ _ refl] assms f by (auto split: if_splits)
  then obtain s2 where s2: "?fill = Some s2" by blast
  have "nic_evolves s1 s2"
    using s2 tso_loop_evolves by (auto simp: tx_plain_def Let_def split: if_splits)
  then have "phy_reg s2 PHY_CTRL AND 0x4000 = 0" using assms(1) f(1) by (simp add: nic_evolves_def)
  then obtain s3 where "tx_eop s2 = Some s3" using tx_eop_returns by blast
  then show ?thesis using s2 by (auto simp: process_tx_desc_def Let_def s1_def)
qed

subsection \<open>The transmit ring\<close>

definition ring_slots :: "u32 \<Rightarrow> nat" where
  "ring_slots len = (unat len + 15) div 16"

lemma ring_next_mod:
  assumes "unat h * 16 < unat len"
  shows "unat (ring_next h len) = (unat h + 1) mod ring_slots len" "unat (ring_next h len) * 16 < unat len"
proof -
  have "unat len < 2 ^ 32" using unat_less_pow [of len] by simp
  then have h: "unat (h + 1) = unat h + 1" using assms by (simp add: unat_word_ariths)
  have "ring_slots len = unat h + 1" if "unat len \<le> (unat h + 1) * 16" using assms that by (simp add: ring_slots_def)
  moreover have "unat h + 1 < ring_slots len" if "\<not> unat len \<le> (unat h + 1) * 16" using that by (simp add: ring_slots_def)
  ultimately show "unat (ring_next h len) = (unat h + 1) mod ring_slots len" by (simp add: ring_next_def h)
  show "unat (ring_next h len) * 16 < unat len" using assms by (simp add: ring_next_def h)
qed

primrec xmit_rounds :: "nat \<Rightarrow> E1000State \<Rightarrow> E1000State option" where
  "xmit_rounds 0 s = Some s"
| "xmit_rounds (Suc n) s = Option.bind (xmit_rounds n s) (\<lambda>t. map_option snd (xmit_step t))"

lemma xmit_step_fields:
  assumes "xmit_step s = Some (c, s')"
  shows "mac_reg s' TDH = ring_next (mac_reg s TDH) (mac_reg s TDLEN)" "mac_reg s' TDLEN = mac_reg s TDLEN"
    "mac_reg s' TDT = mac_reg s TDT" "phy_reg s' = phy_reg s"
  using xmit_step_evolves [OF assms] by (auto simp: mac_set_def nic_evolves_def moved_def)

text \<open>After \<open>k\<close> rounds the head is \<open>k\<close> slots on, modulo the ring.\<close>

lemma xmit_rounds_fields:
  assumes "unat (mac_reg s TDH) * 16 < unat (mac_reg s TDLEN)" "xmit_rounds k s = Some t"
  shows "mac_reg t TDLEN = mac_reg s TDLEN \<and> phy_reg t = phy_reg s \<and> unat (mac_reg t TDH) * 16 < unat (mac_reg t TDLEN) \<and>
    unat (mac_reg t TDH) = (unat (mac_reg s TDH) + k) mod ring_slots (mac_reg s TDLEN)"
  using assms(2)
proof (induction k arbitrary: t)
  case 0
  then show ?case using assms(1) by (simp add: ring_slots_def)
next
  case (Suc k)
  then obtain u c where u: "xmit_rounds k s = Some u" "xmit_step u = Some (c, t)" by (auto split: bind_splits)
  note IH = Suc.IH [OF u(1)] and f = xmit_step_fields [OF u(2)]
  from IH have "unat (mac_reg u TDH) * 16 < unat (mac_reg u TDLEN)" by blast
  note n = ring_next_mod [OF this]
  show ?case using IH n(2) unfolding f n(1) by (simp add: mod_Suc_eq f n(1))
qed

lemma xmit_loop_returns:
  assumes ring: "unat (mac_reg s TDH) * 16 < unat (mac_reg s TDLEN)" and lb: "phy_reg s PHY_CTRL AND 0x4000 = 0"
    and seg: "\<And>n t. xmit_rounds n s = Some t \<Longrightarrow> tx_tse (tx t) \<Longrightarrow> tx_mss (tx t) \<noteq> 0"
    and "xmit_rounds k s = Some t" "k < ring_slots (mac_reg s TDLEN)"
  shows "\<exists>r. xmit_loop (mac_reg s TDH) cause t = Some r"
  using assms(4,5)
proof (induction "ring_slots (mac_reg s TDLEN) - k" arbitrary: k t cause rule: less_induct)
  case less
  note f = xmit_rounds_fields [OF ring less.prems(1)]
  let ?desc = "tx_desc_of (pci_dma_read (gmem t) (tx_desc_base t + 16 * ucast (mac_reg t TDH)) 16)"
  obtain t0 where "process_tx_desc ?desc t = Some t0"
    using process_tx_desc_returns [of t ?desc] f lb seg [OF less.prems(1)] by auto
  then obtain c t' where st: "xmit_step t = Some (c, t')"
    by (cases "txdesc_writeback (tx_desc_base t + 16 * ucast (mac_reg t TDH)) ?desc t0") (auto simp: xmit_step_def Let_def)
  then have k: "xmit_rounds (Suc k) s = Some t'" using less.prems(1) by simp
  note f' = xmit_rounds_fields [OF ring k]
  show ?case
  proof (cases "mac_reg t TDH = mac_reg t TDT \<or> mac_reg t' TDH = mac_reg s TDH")
    case True
    then show ?thesis using st by (subst xmit_loop.simps) auto
  next
    case False
    have "Suc k \<noteq> ring_slots (mac_reg s TDLEN)"
    proof
      assume e: "Suc k = ring_slots (mac_reg s TDLEN)"
      have "unat (mac_reg s TDH) < ring_slots (mac_reg s TDLEN)" using ring by (simp add: ring_slots_def)
      then have "unat (mac_reg t' TDH) = unat (mac_reg s TDH)" using f' unfolding e by simp
      then show False using False by (metis unsigned_word_eqI)
    qed
    then have "Suc k < ring_slots (mac_reg s TDLEN)" using less.prems(2) by simp
    then obtain r where "xmit_loop (mac_reg s TDH) (cause OR c) t' = Some r" using less.hyps [OF _ k] by fastforce
    then show ?thesis using False st by (subst xmit_loop.simps) auto
  qed
qed

text \<open>
  C32: Transmission returns: with the head of the ring inside the ring, outside loopback mode, and
  with no segmentation context of segment size zero in force in any round, the loop over the
  descriptors ends, whatever the descriptors, the tail and guest memory say.\<close>

theorem start_xmit_returns:
  assumes "unat (mac_reg s TDH) * 16 < unat (mac_reg s TDLEN)" "phy_reg s PHY_CTRL AND 0x4000 = 0"
    and "\<And>n t. xmit_rounds n s = Some t \<Longrightarrow> tx_tse (tx t) \<Longrightarrow> tx_mss (tx t) \<noteq> 0"
  shows "\<exists>s'. start_xmit s = Some s'"
proof -
  have "0 < ring_slots (mac_reg s TDLEN)" using assms(1) by (simp add: ring_slots_def)
  then obtain r where "xmit_loop (mac_reg s TDH) 0x2 s = Some r"
    using xmit_loop_returns [OF assms, where k = 0] by fastforce
  then show ?thesis by (cases r) (auto simp: start_xmit_def)
qed

text \<open>A card as it is allocated, filled with zeros.\<close>

definition e1000_blank :: E1000State where
  "e1000_blank = \<lparr>mac_reg = (\<lambda>_. 0), phy_reg = (\<lambda>_. 0), eeprom_data = (\<lambda>_. 0), rxbuf_size = 0, rxbuf_min_shift = 0,
     tx = tx_zero, eecd_state = \<lparr>val_in = 0, bitnum_in = 0, bitnum_out = 0, reading = False, old_eecd = 0\<rparr>,
     autoneg_timer = None, mit_timer = None, mit_timer_on = False, mit_irq_level = False, mit_ide = 0,
     compat_flags = 0, link_is_down = False, bus_master = False, gmem = (\<lambda>_. 0), now_ns = 0, nic_trace = []\<rparr>"

text \<open>A ring of zero descriptors sends nothing.\<close>

lemma zero_descriptor: "tx_desc_of (pci_dma_read (\<lambda>_. 0) a 16) = \<lparr>buffer_addr = 0, lower = 0, upper = 0\<rparr>"
  by (simp add: tx_desc_of_def pci_dma_read_def u64_of_bytes_def u32_of_bytes_def map_replicate_const eval_nat_numeral)

lemma zero_ring_rounds:
  "xmit_rounds n s = Some t \<Longrightarrow> gmem s = (\<lambda>_. 0) \<Longrightarrow> \<not> tx_tse (tx s) \<Longrightarrow> gmem t = (\<lambda>_. 0) \<and> \<not> tx_tse (tx t)"
proof (induction n arbitrary: t)
  case (Suc n)
  then obtain u c where u: "xmit_rounds n s = Some u" "xmit_step u = Some (c, t)" by (auto split: bind_splits)
  with Suc have "gmem u = (\<lambda>_. 0)" "\<not> tx_tse (tx u)" by auto
  with u(2) show ?case
    by (auto simp: xmit_step_def zero_descriptor Let_def process_tx_desc_def txdesc_writeback_def tx_plain_def mac_set_def tx_options_def)
qed simp

theorem start_xmit_returns_witness:
  "\<exists>s'. start_xmit (mac_set TDLEN 0x80 (mac_set TDT 3 (mac_set TCTL 2 e1000_blank))) = Some s'"
  by (rule start_xmit_returns)
    (auto simp: mac_set_def e1000_blank_def tx_zero_def dest!: zero_ring_rounds)

text \<open>
  C33: Transmission never returns when the guest has placed the head and the tail of the ring outside
  the ring: the head wraps to the start, never meets the tail and never meets the head the loop began
  with, which is the only other way out.\<close>

theorem start_xmit_hangs_outside_ring:
  assumes "mac_reg s TCTL AND 0x2 \<noteq> 0" "mac_reg s TDH \<noteq> mac_reg s TDT"
    "unat (mac_reg s TDLEN) \<le> unat (mac_reg s TDH) * 16" "unat (mac_reg s TDLEN) \<le> unat (mac_reg s TDT) * 16"
    "mac_reg s TDH \<noteq> 0" "mac_reg s TDT \<noteq> 0"
  shows "start_xmit s = None"
proof -
  have out: "ring_next h len \<noteq> v" if "unat len \<le> unat v * 16" "v \<noteq> 0" for h len v
    using that by (auto simp: ring_next_def)
  have False if a: "xmit_loop ts c u = Some r" and p: "unat (mac_reg u TDLEN) \<le> unat ts * 16" "ts \<noteq> 0"
    "unat (mac_reg u TDLEN) \<le> unat (mac_reg u TDT) * 16" "mac_reg u TDT \<noteq> 0" "mac_reg u TDH \<noteq> mac_reg u TDT" for ts c u r
  proof -
    have "unat (mac_reg u TDLEN) \<le> unat ts * 16 \<longrightarrow> ts \<noteq> 0 \<longrightarrow> unat (mac_reg u TDLEN) \<le> unat (mac_reg u TDT) * 16 \<longrightarrow>
        mac_reg u TDT \<noteq> 0 \<longrightarrow> mac_reg u TDH = mac_reg u TDT"
    proof (rule xmit_loop.raw_induct [OF _ a])
      fix loop ts c u and r :: "u32 \<times> E1000State"
      assume IH: "\<And>ts c u r. loop ts c u = Some r \<Longrightarrow> unat (mac_reg u TDLEN) \<le> unat ts * 16 \<longrightarrow> ts \<noteq> 0 \<longrightarrow>
          unat (mac_reg u TDLEN) \<le> unat (mac_reg u TDT) * 16 \<longrightarrow> mac_reg u TDT \<noteq> 0 \<longrightarrow> mac_reg u TDH = mac_reg u TDT"
        and body: "(if mac_reg u TDH \<noteq> mac_reg u TDT
            then Option.bind (xmit_step u) (\<lambda>(c', s1). if mac_reg s1 TDH = ts then Some (c OR c', s1) else loop ts (c OR c') s1)
            else Some (c, u)) = Some r"
      show "unat (mac_reg u TDLEN) \<le> unat ts * 16 \<longrightarrow> ts \<noteq> 0 \<longrightarrow> unat (mac_reg u TDLEN) \<le> unat (mac_reg u TDT) * 16 \<longrightarrow>
        mac_reg u TDT \<noteq> 0 \<longrightarrow> mac_reg u TDH = mac_reg u TDT"
      proof (intro impI, rule ccontr)
        assume p: "unat (mac_reg u TDLEN) \<le> unat ts * 16" "ts \<noteq> 0" "unat (mac_reg u TDLEN) \<le> unat (mac_reg u TDT) * 16"
          "mac_reg u TDT \<noteq> 0" "mac_reg u TDH \<noteq> mac_reg u TDT"
        with body obtain c' v where v: "xmit_step u = Some (c', v)"
          and r: "(if mac_reg v TDH = ts then Some (c OR c', v) else loop ts (c OR c') v) = Some r"
          by (auto split: bind_splits)
        note f = xmit_step_fields [OF v]
        have "mac_reg v TDH \<noteq> ts" "mac_reg v TDH \<noteq> mac_reg v TDT" unfolding f using out p(1-4) by auto
        with r IH [of ts "c OR c'" v r] p f show False by simp
      qed
    qed
    then show False using p by blast
  qed
  then have "xmit_loop (mac_reg s TDH) 0x2 s = None" using assms by (metis not_Some_eq)
  then show ?thesis using assms(1) by (simp add: start_xmit_def)
qed

theorem start_xmit_hangs_outside_ring_witness:
  "start_xmit (mac_set TDT 2 (mac_set TDH 1 (mac_set TCTL 2 e1000_blank))) = None"
  by (rule start_xmit_hangs_outside_ring) (simp_all add: mac_set_def e1000_blank_def)

end
