(* ===== verification/E1000_Properties.thy ===== *)
theory E1000_Properties
  imports E1000_Transmit Plugin_Properties
begin

text \<open>
  What holds of the network card in every state the guest, the network and the timers can bring it
  to, and what its data paths do: the interrupt bookkeeping, the frames the plugin sees, the EEPROM
  protocol and checksum, and the bytes of an unsegmented frame.
\<close>

subsection \<open>Reachable states\<close>












































end
