(* ===== verification/Xbzrle.thy ===== *)
theory Xbzrle
  imports Cutils
begin

text \<open>
  \<open>migration/xbzrle.c\<close>: the delta encoding of guest pages. The encoder walks over an old and a new
  version of a page, eight bytes at a time where it can, and emits alternating lengths of unchanged
  and changed runs with the changed bytes; the decoder applies them to the old version. The buffers are
  host memory; the output of the encoder is the list of bytes it has written, whose length is
  \<open>d\<close>. A failed assertion is \<open>None\<close>. The sizes are \<open>int\<close> in the code and far from
  its bounds, so they are natural numbers here.
\<close>

subsection \<open>Operations\<close>

text \<open>Bytes while the old and the new page agree, at most \<open>res\<close> of them.\<close>

primrec skip_equal :: "host_mem \<Rightarrow> nat \<Rightarrow> nat \<Rightarrow> nat \<Rightarrow> nat \<Rightarrow> nat" where
  "skip_equal m old_buf new_buf i 0 = i"
| "skip_equal m old_buf new_buf i (Suc res) =
     (if m (old_buf + i) = m (new_buf + i) then skip_equal m old_buf new_buf (Suc i) res else i)"

primrec skip_differ :: "host_mem \<Rightarrow> nat \<Rightarrow> nat \<Rightarrow> nat \<Rightarrow> nat \<Rightarrow> nat" where
  "skip_differ m old_buf new_buf i 0 = i"
| "skip_differ m old_buf new_buf i (Suc res) =
     (if m (old_buf + i) \<noteq> m (new_buf + i) then skip_differ m old_buf new_buf (Suc i) res else i)"

definition word_at :: "host_mem \<Rightarrow> nat \<Rightarrow> u64" where
  "word_at m a = u64_of_bytes (mem_read m a 8)"

text \<open>Words while they agree.\<close>

function skip_words :: "host_mem \<Rightarrow> nat \<Rightarrow> nat \<Rightarrow> nat \<Rightarrow> nat \<Rightarrow> nat" where
  "skip_words m old_buf new_buf slen i =
     (if i < slen \<and> word_at m (old_buf + i) = word_at m (new_buf + i)
      then skip_words m old_buf new_buf slen (i + 8) else i)"
  by pat_completeness auto
termination by (relation "measure (\<lambda>(m, old_buf, new_buf, slen, i). slen - i)") auto

declare skip_words.simps [simp del]

text \<open>The test for a zero byte in a word.\<close>

definition has_zero :: "u64 \<Rightarrow> bool" where
  "has_zero x \<longleftrightarrow> (x - 0x0101010101010101) AND NOT x AND push_bit 7 0x0101010101010101 \<noteq> 0"

text \<open>Words while all their bytes differ; then the bytes that differ in the next word. The inner loop
  has no bound of its own in the code.\<close>

partial_function (option) differ_tail :: "host_mem \<Rightarrow> nat \<Rightarrow> nat \<Rightarrow> nat \<Rightarrow> nat option" where
  "differ_tail m old_buf new_buf i =
     (if m (old_buf + i) \<noteq> m (new_buf + i) then differ_tail m old_buf new_buf (Suc i) else Some i)"

function differ_words :: "host_mem \<Rightarrow> nat \<Rightarrow> nat \<Rightarrow> nat \<Rightarrow> nat \<Rightarrow> nat option" where
  "differ_words m old_buf new_buf slen i =
     (if i < slen
      then if has_zero (word_at m (old_buf + i) XOR word_at m (new_buf + i))
           then differ_tail m old_buf new_buf i
           else differ_words m old_buf new_buf slen (i + 8)
      else Some i)"
  by pat_completeness auto
termination by (relation "measure (\<lambda>(m, old_buf, new_buf, slen, i). slen - i)") auto

declare differ_words.simps [simp del]

text \<open>Where an unchanged run that starts at \<open>i\<close> ends, and a changed one.\<close>

definition zrun_end :: "host_mem \<Rightarrow> nat \<Rightarrow> nat \<Rightarrow> nat \<Rightarrow> nat \<Rightarrow> nat" where
  "zrun_end m old_buf new_buf slen i =
     (let res = (slen - i) mod 8; i1 = skip_equal m old_buf new_buf i res
      in if i1 = i + res
         then let i2 = skip_words m old_buf new_buf slen i1 in skip_equal m old_buf new_buf i2 (slen - i2)
         else i1)"

definition nzrun_end :: "host_mem \<Rightarrow> nat \<Rightarrow> nat \<Rightarrow> nat \<Rightarrow> nat \<Rightarrow> nat option" where
  "nzrun_end m old_buf new_buf slen i =
     (let res = (slen - i) mod 8; i1 = skip_differ m old_buf new_buf i res
      in if i1 = i + res then differ_words m old_buf new_buf slen i1 else Some i1)"

text \<open>The main loop. The run counters of the code are zero at its head, so the counts are the
  distances the runs cover. The result is the return value and the bytes written.\<close>

partial_function (option) encode_loop ::
  "host_mem \<Rightarrow> nat \<Rightarrow> nat \<Rightarrow> nat \<Rightarrow> nat \<Rightarrow> nat \<Rightarrow> buffer \<Rightarrow> (int \<times> buffer) option" where
  "encode_loop m old_buf new_buf slen dlen i dst =
     (if i < slen
      then if length dst + 2 > dlen then Some (-1, dst)
           else let j = zrun_end m old_buf new_buf slen i
                in if j - i = slen then Some (0, dst)
                   else if j = slen then Some (int (length dst), dst)
                   else Option.bind (uleb128_encode_small (of_nat (j - i))) (\<lambda>z.
                     if length (dst @ z) + 2 > dlen then Some (-1, dst @ z)
                     else Option.bind (nzrun_end m old_buf new_buf slen j) (\<lambda>k.
                       Option.bind (uleb128_encode_small (of_nat (k - j))) (\<lambda>n.
                         if length (dst @ z @ n) + (k - j) > dlen then Some (-1, dst @ z @ n)
                         else encode_loop m old_buf new_buf slen dlen k
                                (dst @ z @ n @ mem_read m (new_buf + j) (k - j)))))
      else Some (int (length dst), dst))"

definition xbzrle_encode_buffer :: "host_mem \<Rightarrow> nat \<Rightarrow> nat \<Rightarrow> nat \<Rightarrow> nat \<Rightarrow> (int \<times> buffer) option" where
  "xbzrle_encode_buffer m old_buf new_buf slen dlen =
     (if old_buf mod 8 \<noteq> 0 \<or> new_buf mod 8 \<noteq> 0 \<or> slen mod 8 \<noteq> 0 then None
      else encode_loop m old_buf new_buf slen dlen 0 [])"

text \<open>The decoder, with the destination as a list of \<open>dlen\<close> bytes: the return value and the
  destination after it. The outer \<open>None\<close> is a read past the end of the input.\<close>

function decode_loop :: "buffer \<Rightarrow> nat \<Rightarrow> nat \<Rightarrow> buffer \<Rightarrow> (int \<times> buffer) option" where
  "decode_loop src i d dst =
     (if length src \<le> i then Some (int d, dst)
      else if length src - i < 2 then Some (-1, dst)
      else case uleb128_decode_small (drop i src) of
        None \<Rightarrow> None
      | Some None \<Rightarrow> Some (-1, dst)
      | Some (Some (r, count)) \<Rightarrow>
          if i \<noteq> 0 \<and> count = 0 then Some (-1, dst)
          else let i1 = i + r; d1 = d + unat count
               in if d1 > length dst then Some (-1, dst)
                  else if length src - i1 < 2 then Some (-1, dst)
                  else case uleb128_decode_small (drop i1 src) of
                    None \<Rightarrow> None
                  | Some None \<Rightarrow> Some (-1, dst)
                  | Some (Some (r', count')) \<Rightarrow>
                      if count' = 0 then Some (-1, dst)
                      else let i2 = i1 + r'; n = unat count'
                           in if d1 + n > length dst \<or> i2 + n > length src then Some (-1, dst)
                              else decode_loop src (i2 + n) (d1 + n)
                                     (take d1 dst @ take n (drop i2 src) @ drop (d1 + n) dst))"
  by pat_completeness auto
termination
  by (relation "measure (\<lambda>(src, i, d, dst). length src - i)") (auto simp: unat_pos_iff [symmetric])

declare decode_loop.simps [simp del]

definition xbzrle_decode_buffer :: "buffer \<Rightarrow> buffer \<Rightarrow> (int \<times> buffer) option" where
  "xbzrle_decode_buffer src dst = decode_loop src 0 0 dst"

subsection \<open>The zero-byte test\<close>

lemma bit_byte_split:
  fixes u L :: int
  assumes "0 \<le> u" "u < 256"
  shows "bit (u + 256 * L) n = (if n < 8 then bit u n else bit L (n - 8))"
proof (cases "n < 8")
  case True
  then have p: "(256 :: int) = 2 ^ n * 2 ^ (8 - n)" by (simp flip: power_add)
  have "(u + 256 * L) div 2 ^ n = u div 2 ^ n + 2 ^ (8 - n) * L"
    unfolding p by (simp add: mult.assoc)
  moreover have "even (2 ^ (8 - n) * L :: int)" using True by simp
  ultimately show ?thesis using True by (simp add: bit_iff_odd)
next
  case False
  then have p: "(2 :: int) ^ n = 256 * 2 ^ (n - 8)" using power_add [of "2 :: int" 8 "n - 8"] by simp
  have "(u + 256 * L) div 256 = L" using assms by simp
  then show ?thesis using False unfolding bit_iff_odd p by (simp add: zdiv_zmult2_eq)
qed

primrec ones :: "nat \<Rightarrow> int" where
  "ones 0 = 0"
| "ones (Suc n) = 1 + 256 * ones n"

lemma ones_numeral: "ones (numeral k) = 1 + 256 * ones (pred_numeral k)"
  by (simp add: numeral_eq_Suc)

lemma bit_ones: "bit (ones n) i \<longleftrightarrow> i mod 8 = 0 \<and> i < 8 * n"
proof (induction n arbitrary: i)
  case (Suc n)
  have one: "bit (1 :: int) i \<longleftrightarrow> i = 0" by (simp add: bit_1_iff)
  show ?case
  proof (cases "i < 8")
    case True
    then show ?thesis using bit_byte_split [of 1 "ones n" i] one by auto
  next
    case False
    then have "i mod 8 = (i - 8) mod 8" by (simp add: mod_if)
    then show ?thesis using False bit_byte_split [of 1 "ones n" i] Suc.IH [of "i - 8"] by auto
  qed
qed simp

lemma bit_7_mod: "bit (z :: int) 7 \<longleftrightarrow> 128 \<le> z mod 256"
proof -
  have "z = z mod 256 + 256 * (z div 256)" by simp
  then have "bit z 7 = bit (z mod 256) 7" using bit_byte_split [of "z mod 256" "z div 256" 7] by simp
  also have "\<dots> = odd (z mod 256 div 128)" by (simp add: bit_iff_odd)
  also have "\<dots> = (128 \<le> z mod 256)"
  proof (cases "128 \<le> z mod 256")
    case True
    have "z mod 256 < 256" by simp
    then have "z mod 256 div 128 = 1" using True by (simp add: div_pos_geq)
    then show ?thesis using True by simp
  next
    case False
    then show ?thesis by (simp add: div_pos_pos_trivial)
  qed
  finally show ?thesis .
qed

lemma zero_byte_int:
  fixes x :: int
  shows "(\<exists>k < n. bit (x - ones n) (8 * k + 7) \<and> \<not> bit x (8 * k + 7)) \<longleftrightarrow> (\<exists>k < n. (x div 256 ^ k) mod 256 = 0)"
proof (induction n arbitrary: x)
  case (Suc n)
  define b y where "b = x mod 256" and "y = x div 256"
  have x: "x = b + 256 * y" and b: "0 \<le> b" "b < 256" by (simp_all add: b_def y_def)
  have up: "bit x (8 * Suc k + 7) = bit y (8 * k + 7)" for k
    unfolding x using bit_byte_split [OF b, of y "8 * Suc k + 7"] by (simp add: add.commute)
  have div: "x div 256 ^ Suc k mod 256 = y div 256 ^ k mod 256" for k
    by (simp add: y_def zdiv_zmult2_eq)
  show ?case
  proof (cases "b = 0")
    case True
    have "x - ones (Suc n) = 255 + 256 * (y - ones n - 1)" using True x by simp
    then have "(x - ones (Suc n)) mod 256 = 255" by (simp only: mod_mult_self2) simp
    then have p: "bit (x - ones (Suc n)) (8 * 0 + 7) \<and> \<not> bit x (8 * 0 + 7)"
      using True b_def by (simp only: mult_0_right add_0 bit_7_mod) simp
    have "x div 256 ^ 0 mod 256 = 0" using True b_def by simp
    then show ?thesis unfolding Ex_less_Suc2 using p by (simp only: simp_thms)
  next
    case False
    have d: "x - ones (Suc n) = (b - 1) + 256 * (y - ones n)" using x by simp
    have b1: "0 \<le> b - 1" "b - 1 < 256" using False b by simp_all
    have up': "bit (x - ones (Suc n)) (8 * Suc k + 7) = bit (y - ones n) (8 * k + 7)" for k
      unfolding d using bit_byte_split [OF b1, of "y - ones n" "8 * Suc k + 7"] by (simp add: add.commute)
    have "(x - ones (Suc n)) mod 256 = b - 1" unfolding d mod_mult_self2 by (rule mod_pos_pos_trivial [OF b1])
    then have "\<not> (bit (x - ones (Suc n)) (8 * 0 + 7) \<and> \<not> bit x (8 * 0 + 7))"
      using b_def by (simp add: bit_7_mod)
    moreover have "x div 256 ^ 0 mod 256 \<noteq> 0" using False b_def by simp
    ultimately show ?thesis using Suc.IH [of y] unfolding Ex_less_Suc2 up up' div by (simp only: simp_thms)
  qed
qed simp

lemma has_zero_iff: "has_zero x \<longleftrightarrow> (\<exists>k < 8. \<forall>j < 8. \<not> bit x (8 * k + j))"
proof -
  define c :: u64 where "c = 0x0101010101010101"
  have "ones 8 = 0x0101010101010101" by (simp add: ones_numeral)
  moreover have "uint c = 0x0101010101010101" by (simp add: c_def)
  ultimately have m: "uint c = ones 8" by (simp only:)
  have bm: "bit c i \<longleftrightarrow> i mod 8 = 0 \<and> i < 64" for i
    using bit_ones [of 8 i] unfolding m [symmetric] by (auto simp: bit_uint_iff dest: bit_imp_le_length)
  have bd: "bit (x - c) i \<longleftrightarrow> i < 64 \<and> bit (uint x - ones 8) i" for i
  proof -
    have "x - c = word_of_int (uint x - ones 8)" unfolding m [symmetric] by simp
    then show ?thesis by (simp only: bit_word_of_int_iff) simp
  qed
  have "has_zero x \<longleftrightarrow> (\<exists>i < 64. bit (x - c) i \<and> \<not> bit x i \<and> 7 \<le> i \<and> (i - 7) mod 8 = 0)"
  proof -
    have nz: "w \<noteq> 0 \<longleftrightarrow> (\<exists>i. bit w i)" for w :: u64 using bit_eq_iff [of w 0] by (auto dest: bit_imp_le_length)
    show ?thesis
      unfolding has_zero_def c_def [symmetric] nz
      by (intro iff_exI) (auto simp: bit_and_iff bit_not_iff bit_push_bit_iff bm dest: bit_imp_le_length)
  qed
  also have "\<dots> \<longleftrightarrow> (\<exists>k < 8. bit (uint x - ones 8) (8 * k + 7) \<and> \<not> bit (uint x) (8 * k + 7))"
  proof
    assume "\<exists>i < 64. bit (x - c) i \<and> \<not> bit x i \<and> 7 \<le> i \<and> (i - 7) mod 8 = 0"
    then obtain i where i: "i < 64" "bit (uint x - ones 8) i" "\<not> bit x i" "7 \<le> i" "(i - 7) mod 8 = 0" by (auto simp: bd)
    then have "i = 8 * ((i - 7) div 8) + 7" by auto
    moreover have "(i - 7) div 8 < 8" using i(1) by simp
    ultimately show "\<exists>k < 8. bit (uint x - ones 8) (8 * k + 7) \<and> \<not> bit (uint x) (8 * k + 7)"
      using i by (metis bit_uint_iff)
  next
    assume "\<exists>k < 8. bit (uint x - ones 8) (8 * k + 7) \<and> \<not> bit (uint x) (8 * k + 7)"
    then obtain k where "k < 8" "bit (uint x - ones 8) (8 * k + 7)" "\<not> bit x (8 * k + 7)" by (auto simp: bit_uint_iff)
    then show "\<exists>i < 64. bit (x - c) i \<and> \<not> bit x i \<and> 7 \<le> i \<and> (i - 7) mod 8 = 0"
      by (intro exI [of _ "8 * k + 7"]) (simp add: bd)
  qed
  also have "\<dots> \<longleftrightarrow> (\<exists>k < 8. (uint x div 256 ^ k) mod 256 = 0)" by (rule zero_byte_int)
  also have "\<dots> \<longleftrightarrow> (\<exists>k < 8. \<forall>j < 8. \<not> bit x (8 * k + j))"
  proof -
    have "(uint x div 256 ^ k) mod 256 = 0 \<longleftrightarrow> (\<forall>j < 8. \<not> bit x (8 * k + j))" if "k < 8" for k
    proof -
      have "(256 :: int) ^ k = 2 ^ (8 * k)" by (simp add: power_mult)
      then have t: "(uint x div 256 ^ k) mod 256 = take_bit 8 (drop_bit (8 * k) (uint x))"
        by (simp add: take_bit_eq_mod drop_bit_eq_div)
      show ?thesis unfolding t bit_eq_iff using that by (auto simp: bit_take_bit_iff bit_drop_bit_eq bit_uint_iff)
    qed
    then show ?thesis by (intro iff_exI conj_cong refl)
  qed
  finally show ?thesis .
qed

text \<open>Bytes of a word in memory.\<close>

lemma bit_le_value: "k < length bs \<Longrightarrow> j < 8 \<Longrightarrow> bit (int (le_value bs)) (8 * k + j) = bit (bs ! k) j"
proof (induction bs arbitrary: k)
  case (Cons b bs)
  have "uint b < 2 ^ LENGTH(8)" by (rule unsigned_less)
  then have u: "0 \<le> uint b" "uint b < 256" by simp_all
  have l: "int (le_value (b # bs)) = uint b + 256 * int (le_value bs)" by simp
  show ?case
  proof (cases k)
    case 0
    then show ?thesis unfolding l using bit_byte_split [OF u] Cons.prems(2) by (simp add: bit_uint_iff)
  next
    case (Suc k')
    then show ?thesis unfolding l using bit_byte_split [OF u, of "int (le_value bs)" "8 * k + j"] Cons by simp
  qed
qed simp

lemma bit_word_at:
  assumes "k < 8" "j < 8"
  shows "bit (word_at m a) (8 * k + j) = bit (m (a + k)) j"
proof -
  have "word_at m a = word_of_int (int (le_value (mem_read m a 8)))" by (simp add: word_at_def u64_of_bytes_def)
  moreover have "8 * k + j < 64" using assms by simp
  ultimately have "bit (word_at m a) (8 * k + j) = bit (int (le_value (mem_read m a 8))) (8 * k + j)"
    by (simp only: bit_word_of_int_iff) simp
  also have "\<dots> = bit (m (a + k)) j" using bit_le_value [of k "mem_read m a 8" j] assms by simp
  finally show ?thesis .
qed

lemma has_zero_word_at:
  "has_zero (word_at m a XOR word_at m b) \<longleftrightarrow> (\<exists>k < 8. m (a + k) = m (b + k))"
proof -
  have "(\<forall>j < 8. \<not> bit (word_at m a XOR word_at m b) (8 * k + j)) \<longleftrightarrow> m (a + k) = m (b + k)" if "k < 8" for k
  proof -
    have "(\<forall>j < 8. \<not> bit (word_at m a XOR word_at m b) (8 * k + j)) \<longleftrightarrow> (\<forall>j < 8. bit (m (a + k)) j = bit (m (b + k)) j)"
      using that by (simp add: bit_xor_iff bit_word_at)
    also have "\<dots> \<longleftrightarrow> m (a + k) = m (b + k)" by (auto intro: bit_word_eqI)
    finally show ?thesis .
  qed
  then show ?thesis unfolding has_zero_iff by (intro iff_exI conj_cong refl)
qed

lemma word_at_eq_iff: "word_at m a = word_at m b \<longleftrightarrow> (\<forall>k < 8. m (a + k) = m (b + k))"
proof
  assume eq: "word_at m a = word_at m b"
  show "\<forall>k < 8. m (a + k) = m (b + k)"
  proof (intro allI impI bit_word_eqI)
    fix k j :: nat
    assume "k < 8" "j < LENGTH(8)"
    then show "bit (m (a + k)) j = bit (m (b + k)) j" using bit_word_at [of k j m a] bit_word_at [of k j m b] eq by simp
  qed
next
  assume "\<forall>k < 8. m (a + k) = m (b + k)"
  then have "mem_read m a 8 = mem_read m b 8" by (intro nth_equalityI) simp_all
  then show "word_at m a = word_at m b" by (simp add: word_at_def)
qed

subsection \<open>Runs\<close>

text \<open>The run that starts at \<open>i\<close> and ends at \<open>j\<close>: all bytes have the property, and the one at
  the end, unless it is the end of the page, has not.\<close>

definition run :: "(nat \<Rightarrow> bool) \<Rightarrow> nat \<Rightarrow> nat \<Rightarrow> nat \<Rightarrow> bool" where
  "run P i j e \<longleftrightarrow> i \<le> j \<and> j \<le> e \<and> (\<forall>k. i \<le> k \<and> k < j \<longrightarrow> P k) \<and> (j < e \<longrightarrow> \<not> P j)"

definition same :: "host_mem \<Rightarrow> nat \<Rightarrow> nat \<Rightarrow> nat \<Rightarrow> bool" where
  "same m old_buf new_buf k \<longleftrightarrow> m (old_buf + k) = m (new_buf + k)"

lemma run_step:
  assumes "P i" "run P (Suc i) j e"
  shows "run P i j e"
proof -
  have "P k" if "i \<le> k" "k < j" for k using that assms by (cases "k = i") (auto simp: run_def)
  then show ?thesis using assms by (auto simp: run_def)
qed

lemma skip_equal_run: "run (same m old_buf new_buf) i (skip_equal m old_buf new_buf i r) (i + r)"
proof (induction r arbitrary: i)
  case 0
  show ?case by (auto simp: run_def)
next
  case (Suc r)
  show ?case
  proof (cases "same m old_buf new_buf i")
    case True
    then show ?thesis using run_step [OF _ Suc.IH [of "Suc i"]] by (simp add: same_def)
  next
    case False
    then show ?thesis by (auto simp: run_def same_def)
  qed
qed

lemma skip_differ_run: "run (\<lambda>k. \<not> same m old_buf new_buf k) i (skip_differ m old_buf new_buf i r) (i + r)"
proof (induction r arbitrary: i)
  case 0
  show ?case by (auto simp: run_def)
next
  case (Suc r)
  show ?case
  proof (cases "same m old_buf new_buf i")
    case False
    then show ?thesis using run_step [of "\<lambda>k. \<not> same m old_buf new_buf k", OF _ Suc.IH [of "Suc i"]] by (simp add: same_def)
  next
    case True
    then show ?thesis by (auto simp: run_def same_def)
  qed
qed

lemma run_append:
  assumes "\<forall>k. i \<le> k \<and> k < i' \<longrightarrow> P k" "i \<le> i'" "run P i' j e"
  shows "run P i j e"
proof -
  have "P k" if "i \<le> k" "k < j" for k using that assms by (cases "k < i'") (auto simp: run_def)
  then show ?thesis using assms(2,3) by (auto simp: run_def)
qed

lemma run_join: "run P i i' e' \<Longrightarrow> run P i' j e \<Longrightarrow> run P i j e"
  by (erule run_append [rotated 2]) (auto simp: run_def)

lemma eight_left: "(slen - i) mod 8 = 0 \<Longrightarrow> i < slen \<Longrightarrow> i + 8 \<le> (slen :: nat) \<and> (slen - (i + 8)) mod 8 = 0"
proof -
  assume "(slen - i) mod 8 = 0" "i < slen"
  then obtain q where "slen - i = 8 * q" "q \<noteq> 0" by (metis dvdE mod_0_imp_dvd mult_0_right zero_less_diff less_numeral_extra(3))
  then have "slen = i + 8 * q" "1 \<le> q" using \<open>i < slen\<close> by simp_all
  then have "slen - (i + 8) = 8 * (q - 1)" "i + 8 \<le> slen" by simp_all
  then show ?thesis by simp
qed

lemma same_word: "(word_at m (old_buf + i) = word_at m (new_buf + i)) = (\<forall>k. i \<le> k \<and> k < i + 8 \<longrightarrow> same m old_buf new_buf k)"
proof -
  have "(\<forall>k < 8. Q (i + k)) = (\<forall>k. i \<le> k \<and> k < i + 8 \<longrightarrow> Q k)" for Q
    by (metis add_less_cancel_left le_add1 le_Suc_ex)
  from this [of "same m old_buf new_buf"] show ?thesis by (simp add: word_at_eq_iff same_def add.assoc)
qed

lemma skip_words_same:
  "(slen - i) mod 8 = 0 \<Longrightarrow> i \<le> slen \<Longrightarrow>
   i \<le> skip_words m old_buf new_buf slen i \<and> skip_words m old_buf new_buf slen i \<le> slen \<and>
   (\<forall>k. i \<le> k \<and> k < skip_words m old_buf new_buf slen i \<longrightarrow> same m old_buf new_buf k)"
proof (induction m old_buf new_buf slen i rule: skip_words.induct)
  case (1 m old_buf new_buf slen i)
  show ?case
  proof (cases "i < slen \<and> word_at m (old_buf + i) = word_at m (new_buf + i)")
    case True
    then have e: "i + 8 \<le> slen" "(slen - (i + 8)) mod 8 = 0" using eight_left [OF 1(2)] by simp_all
    have IH: "i + 8 \<le> skip_words m old_buf new_buf slen (i + 8) \<and>
        skip_words m old_buf new_buf slen (i + 8) \<le> slen \<and>
        (\<forall>k. i + 8 \<le> k \<and> k < skip_words m old_buf new_buf slen (i + 8) \<longrightarrow> same m old_buf new_buf k)" by (rule 1(1) [OF True e(2,1)])
    have w: "\<forall>k. i \<le> k \<and> k < i + 8 \<longrightarrow> same m old_buf new_buf k" using True unfolding same_word by (rule conjunct2)
    have "skip_words m old_buf new_buf slen i = skip_words m old_buf new_buf slen (i + 8)"
      using True by (subst skip_words.simps) simp
    then show ?thesis using IH w by (metis add_leD1 not_le)
  next
    case False
    then have "skip_words m old_buf new_buf slen i = i" by (subst skip_words.simps) auto
    then show ?thesis using 1(3) by auto
  qed
qed

lemma res_left: "(slen - (i + (slen - i) mod 8)) mod 8 = (0 :: nat)"
proof -
  have "slen - (i + (slen - i) mod 8) = slen - i - (slen - i) mod 8" by (rule diff_diff_left [symmetric])
  also have "\<dots> = 8 * ((slen - i) div 8)" by (rule minus_mod_eq_mult_div)
  finally show ?thesis by (simp only: mod_mult_self1_is_0)
qed

lemma zrun_end_run:
  assumes "i \<le> slen"
  shows "run (same m old_buf new_buf) i (zrun_end m old_buf new_buf slen i) slen"
proof -
  define r where "r = (slen - i) mod 8"
  define i1 where "i1 = skip_equal m old_buf new_buf i r"
  have r: "run (same m old_buf new_buf) i i1 (i + r)" unfolding i1_def by (rule skip_equal_run)
  have eq: "zrun_end m old_buf new_buf slen i = (if i1 = i + r
      then let i2 = skip_words m old_buf new_buf slen i1 in skip_equal m old_buf new_buf i2 (slen - i2) else i1)"
    by (simp only: zrun_end_def Let_def r_def i1_def)
  have le: "i + r \<le> slen" using assms mod_less_eq_dividend [of "slen - i" 8] by (simp add: r_def)
  show ?thesis
  proof (cases "i1 = i + r")
    case True
    define i2 where "i2 = skip_words m old_buf new_buf slen i1"
    have "(slen - i1) mod 8 = 0" unfolding True r_def by (rule res_left)
    then have w: "i1 \<le> i2 \<and> i2 \<le> slen \<and> (\<forall>k. i1 \<le> k \<and> k < i2 \<longrightarrow> same m old_buf new_buf k)"
      unfolding i2_def using skip_words_same [of slen i1 m old_buf new_buf] True le by simp
    have "run (same m old_buf new_buf) i2 (skip_equal m old_buf new_buf i2 (slen - i2)) slen"
      using skip_equal_run [of m old_buf new_buf i2 "slen - i2"] w by simp
    then have "run (same m old_buf new_buf) i1 (skip_equal m old_buf new_buf i2 (slen - i2)) slen" using w run_append by blast
    then have "run (same m old_buf new_buf) i (skip_equal m old_buf new_buf i2 (slen - i2)) slen"
      by (rule run_join [OF r])
    then show ?thesis unfolding eq if_P [OF True] Let_def i2_def [symmetric] .
  next
    case False
    then have "run (same m old_buf new_buf) i i1 slen" using r le by (auto simp: run_def)
    then show ?thesis unfolding eq if_not_P [OF False] .
  qed
qed

lemma differ_tail_stops:
  "i \<le> t \<Longrightarrow> same m old_buf new_buf t \<Longrightarrow> \<forall>k. i \<le> k \<and> k < t \<longrightarrow> \<not> same m old_buf new_buf k \<Longrightarrow>
   differ_tail m old_buf new_buf i = Some t"
proof (induction "t - i" arbitrary: i)
  case 0
  then show ?case by (subst differ_tail.simps) (simp add: same_def)
next
  case (Suc n)
  then have "differ_tail m old_buf new_buf (Suc i) = Some t" by simp
  moreover have "\<not> same m old_buf new_buf i" using Suc by simp
  ultimately show ?case by (subst differ_tail.simps) (simp add: same_def)
qed

lemma differ_words_run:
  "(slen - i) mod 8 = 0 \<Longrightarrow> i \<le> slen \<Longrightarrow>
   \<exists>k. differ_words m old_buf new_buf slen i = Some k \<and> run (\<lambda>k. \<not> same m old_buf new_buf k) i k slen"
proof (induction m old_buf new_buf slen i rule: differ_words.induct)
  case (1 m old_buf new_buf slen i)
  let ?z = "has_zero (word_at m (old_buf + i) XOR word_at m (new_buf + i))"
  show ?case
  proof (cases "i < slen")
    case True
    note e = eight_left [OF 1(2) True]
    show ?thesis
    proof (cases ?z)
      case z: True
      then obtain q where q: "q < 8" "same m old_buf new_buf (i + q)" by (auto simp: has_zero_word_at same_def add.assoc)
      define t where "t = (LEAST t. i \<le> t \<and> same m old_buf new_buf t)"
      have t: "i \<le> t \<and> same m old_buf new_buf t" unfolding t_def by (rule LeastI [of _ "i + q"]) (use q in simp)
      have le: "t \<le> i + q" unfolding t_def by (rule Least_le) (use q in simp)
      have n: "\<forall>k. i \<le> k \<and> k < t \<longrightarrow> \<not> same m old_buf new_buf k" using not_less_Least unfolding t_def by blast
      have "differ_words m old_buf new_buf slen i = Some t"
        using True z differ_tail_stops t n by (subst differ_words.simps) simp
      moreover have "run (\<lambda>k. \<not> same m old_buf new_buf k) i t slen" using t n le q(1) e by (auto simp: run_def)
      ultimately show ?thesis by blast
    next
      case z: False
      then have n: "\<forall>k. i \<le> k \<and> k < i + 8 \<longrightarrow> \<not> same m old_buf new_buf k"
        by (auto simp: has_zero_word_at same_def add.assoc) (metis add_less_cancel_left le_Suc_ex)
      obtain k where k: "differ_words m old_buf new_buf slen (i + 8) = Some k" "run (\<lambda>k. \<not> same m old_buf new_buf k) (i + 8) k slen"
        using 1(1) [OF True z conjunct2 [OF e] conjunct1 [OF e]] by auto
      have "run (\<lambda>k. \<not> same m old_buf new_buf k) i k slen" using n run_append [OF _ _ k(2), of i] by simp
      then show ?thesis using True z k(1) by (subst differ_words.simps) simp
    qed
  next
    case False
    then show ?thesis using 1(3) by (subst differ_words.simps) (auto simp: run_def)
  qed
qed

lemma nzrun_end_run:
  assumes "i \<le> slen"
  shows "\<exists>k. nzrun_end m old_buf new_buf slen i = Some k \<and> run (\<lambda>k. \<not> same m old_buf new_buf k) i k slen"
proof -
  define r where "r = (slen - i) mod 8"
  define i1 where "i1 = skip_differ m old_buf new_buf i r"
  have r: "run (\<lambda>k. \<not> same m old_buf new_buf k) i i1 (i + r)" unfolding i1_def by (rule skip_differ_run)
  have eq: "nzrun_end m old_buf new_buf slen i = (if i1 = i + r then differ_words m old_buf new_buf slen i1 else Some i1)"
    by (simp only: nzrun_end_def Let_def r_def i1_def)
  have le: "i + r \<le> slen" using assms mod_less_eq_dividend [of "slen - i" 8] by (simp add: r_def)
  show ?thesis
  proof (cases "i1 = i + r")
    case True
    have "(slen - i1) mod 8 = 0" unfolding True r_def by (rule res_left)
    then obtain k where k: "differ_words m old_buf new_buf slen i1 = Some k" "run (\<lambda>k. \<not> same m old_buf new_buf k) i1 k slen"
      using differ_words_run [of slen i1 m old_buf new_buf] True le by auto
    have "run (\<lambda>k. \<not> same m old_buf new_buf k) i k slen" by (rule run_join [OF r k(2)])
    with k(1) show ?thesis unfolding eq if_P [OF True] by blast
  next
    case False
    then have "run (\<lambda>k. \<not> same m old_buf new_buf k) i i1 slen" using r le by (auto simp: run_def)
    then show ?thesis unfolding eq if_not_P [OF False] by blast
  qed
qed

subsection \<open>Encoding and decoding\<close>

text \<open>The page after the first \<open>i\<close> bytes have been brought up to date.\<close>

definition mix :: "host_mem \<Rightarrow> nat \<Rightarrow> nat \<Rightarrow> nat \<Rightarrow> nat \<Rightarrow> buffer" where
  "mix m old_buf new_buf slen i = map (\<lambda>k. m (if k < i then new_buf + k else old_buf + k)) [0..<slen]"

lemma length_mix [simp]: "length (mix m old_buf new_buf slen i) = slen"
  by (simp add: mix_def)

lemma nth_mix [simp]: "k < slen \<Longrightarrow> mix m old_buf new_buf slen i ! k = m (if k < i then new_buf + k else old_buf + k)"
  by (simp add: mix_def)

lemma mix_same:
  "(\<forall>k. i \<le> k \<and> k < slen \<longrightarrow> same m old_buf new_buf k) \<Longrightarrow> mix m old_buf new_buf slen i = mix m old_buf new_buf slen slen"
  by (rule nth_equalityI) (auto simp: same_def)

lemma mix_update:
  assumes "run (same m old_buf new_buf) i j slen" "j \<le> k" "k \<le> slen"
  shows "take j (mix m old_buf new_buf slen i) @ mem_read m (new_buf + j) (k - j) @ drop k (mix m old_buf new_buf slen i) =
    mix m old_buf new_buf slen k"
proof (rule nth_equalityI)
  show "length (take j (mix m old_buf new_buf slen i) @ mem_read m (new_buf + j) (k - j) @ drop k (mix m old_buf new_buf slen i)) =
    length (mix m old_buf new_buf slen k)" using assms(2,3) by simp
  fix t assume "t < length (take j (mix m old_buf new_buf slen i) @ mem_read m (new_buf + j) (k - j) @ drop k (mix m old_buf new_buf slen i))"
  then have t: "t < slen" using assms(2,3) by simp
  have js: "min slen j = j" using assms(2,3) by simp
  have s: "m (new_buf + t) = m (old_buf + t)" if "i \<le> t" "t < j" using assms(1) that by (simp add: run_def same_def)
  consider "t < j" | "j \<le> t" "t < k" | "k \<le> t" by linarith
  then show "(take j (mix m old_buf new_buf slen i) @ mem_read m (new_buf + j) (k - j) @ drop k (mix m old_buf new_buf slen i)) ! t =
    mix m old_buf new_buf slen k ! t"
  proof cases
    case 1
    then show ?thesis using t assms(2) s by (cases "t < i") (simp_all add: nth_append js)
  next
    case 2
    then have "t - j < k - j" by simp
    then show ?thesis using 2 t by (simp add: nth_append js)
  next
    case 3
    have "i \<le> j" "\<not> t - j < k - j" using 3 assms(1) by (simp_all add: run_def)
    then show ?thesis using 3 t assms(2,3) by (simp add: nth_append js)
  qed
qed

lemma uleb128_encode_length: "uleb128_encode_small n = Some bs \<Longrightarrow> 1 \<le> length bs \<and> length bs \<le> 2"
  by (auto simp: uleb128_encode_small_def split: if_splits)

lemma uleb128_encode_exists:
  assumes "n \<le> 0x3fff"
  shows "\<exists>bs. uleb128_encode_small (of_nat n) = Some bs" "unat (of_nat n :: u32) = n"
proof -
  show u: "unat (of_nat n :: u32) = n" using assms by (simp only: unsigned_of_nat) (simp add: take_bit_nat_eq_self)
  have "\<not> of_nat n > (0x3fff :: u32)" using u assms by (simp add: word_less_nat_alt)
  then show "\<exists>bs. uleb128_encode_small (of_nat n) = Some bs" by (auto simp: uleb128_encode_small_def)
qed

text \<open>One round of the decoder on one round of the encoder.\<close>

lemma decode_round:
  assumes z: "uleb128_encode_small zc = Some z" and n: "uleb128_encode_small nc = Some n"
    and nc: "unat nc = length bs" "bs \<noteq> []" and zc: "pre = [] \<or> zc \<noteq> 0" and d: "d + unat zc + length bs \<le> length dst"
  shows "decode_loop (pre @ z @ n @ bs @ rest) (length pre) d dst =
    decode_loop (pre @ z @ n @ bs @ rest) (length (pre @ z @ n @ bs)) (d + unat zc + length bs)
      (take (d + unat zc) dst @ bs @ drop (d + unat zc + length bs) dst)"
proof -
  let ?src = "pre @ z @ n @ bs @ rest"
  have bs: "1 \<le> length bs" using nc(2) by (cases bs) simp_all
  note l = uleb128_encode_length [OF z] uleb128_encode_length [OF n]
  have dz: "uleb128_decode_small (drop (length pre) ?src) = Some (Some (length z, zc))"
    using uleb128_roundtrip [OF z, of "n @ bs @ rest"] by simp
  have "drop (length pre + length z) ?src = n @ bs @ rest" by simp
  then have dn: "uleb128_decode_small (drop (length pre + length z) ?src) = Some (Some (length n, nc))"
    using uleb128_roundtrip [OF n, of "bs @ rest"] by simp
  have "nc \<noteq> 0" using nc by (metis length_0_conv unat_0)
  moreover have "take (length bs) (drop (length pre + length z + length n) ?src) = bs" by simp
  ultimately show ?thesis
    using dz dn l bs zc d nc(1) by (subst decode_loop.simps) (auto simp: Let_def add.assoc)
qed

text \<open>What the encoder achieves from offset \<open>i\<close> with \<open>dst\<close> written.\<close>

definition encodes :: "host_mem \<Rightarrow> nat \<Rightarrow> nat \<Rightarrow> nat \<Rightarrow> nat \<Rightarrow> nat \<Rightarrow> buffer \<Rightarrow> bool" where
  "encodes m old_buf new_buf slen dlen i dst \<longleftrightarrow>
     (\<exists>r out. encode_loop m old_buf new_buf slen dlen i dst = Some (r, dst @ out) \<and> length (dst @ out) \<le> dlen \<and>
      (3 * slen + 3 \<le> dlen \<longrightarrow> r \<noteq> - 1) \<and>
      (r = - 1 \<or> r = 0 \<and> (\<forall>k < slen. same m old_buf new_buf k) \<or>
       r = int (length (dst @ out)) \<and> (\<exists>d \<le> slen. decode_loop (dst @ out) (length dst) i (mix m old_buf new_buf slen i) =
         Some (int d, mix m old_buf new_buf slen slen))))"

lemma encodes_fail:
  "encode_loop m old_buf new_buf slen dlen i dst = Some (- 1, dst @ out) \<Longrightarrow> length (dst @ out) \<le> dlen \<Longrightarrow>
    \<not> 3 * slen + 3 \<le> dlen \<Longrightarrow> encodes m old_buf new_buf slen dlen i dst"
  unfolding encodes_def by (intro exI [of _ "- 1"] exI [of _ out]) simp

lemma encodes_stop:
  assumes "encode_loop m old_buf new_buf slen dlen i dst = Some (int (length dst), dst)" "length dst \<le> dlen" "i \<le> slen"
    "mix m old_buf new_buf slen i = mix m old_buf new_buf slen slen"
  shows "encodes m old_buf new_buf slen dlen i dst"
proof -
  have "decode_loop dst (length dst) i (mix m old_buf new_buf slen i) = Some (int i, mix m old_buf new_buf slen slen)"
    using assms(4) by (subst decode_loop.simps) simp
  then show ?thesis using assms(1-3) unfolding encodes_def by (intro exI [of _ "int (length dst)"] exI [of _ "[]"]) auto
qed

lemma encodes_round:
  assumes E: "encode_loop m old_buf new_buf slen dlen i dst =
      encode_loop m old_buf new_buf slen dlen k (dst @ z @ n @ mem_read m (new_buf + j) (k - j))"
    and later: "encodes m old_buf new_buf slen dlen k (dst @ z @ n @ mem_read m (new_buf + j) (k - j))"
    and j: "run (same m old_buf new_buf) i j slen" and k: "j < k" "k \<le> slen" and pre: "dst = [] \<or> i < j"
    and z: "uleb128_encode_small (of_nat (j - i)) = Some z" "unat (of_nat (j - i) :: u32) = j - i"
    and n: "uleb128_encode_small (of_nat (k - j)) = Some n" "unat (of_nat (k - j) :: u32) = k - j"
  shows "encodes m old_buf new_buf slen dlen i dst"
proof -
  let ?bs = "mem_read m (new_buf + j) (k - j)" and ?mix = "mix m old_buf new_buf slen"
  let ?dst = "dst @ z @ n @ ?bs"
  have ij: "i \<le> j" using j by (simp add: run_def)
  obtain r out where out: "encode_loop m old_buf new_buf slen dlen k ?dst = Some (r, ?dst @ out)"
    "length (?dst @ out) \<le> dlen" "3 * slen + 3 \<le> dlen \<longrightarrow> r \<noteq> - 1"
    "r = - 1 \<or> r = 0 \<and> (\<forall>k < slen. same m old_buf new_buf k) \<or> r = int (length (?dst @ out)) \<and>
      (\<exists>d \<le> slen. decode_loop (?dst @ out) (length ?dst) k (?mix k) = Some (int d, ?mix slen))"
    using later unfolding encodes_def by blast
  have rd: "unat (of_nat (k - j) :: u32) = length ?bs" "?bs \<noteq> []"
    "i + unat (of_nat (j - i) :: u32) + length ?bs \<le> length (?mix i)"
    using z(2) n(2) k ij by (simp_all flip: length_greater_0_conv)
  have "dst = [] \<or> (of_nat (j - i) :: u32) \<noteq> 0" using pre z(2) by (metis neq0_conv unat_0 zero_less_diff)
  note rnd = decode_round [OF z(1) n(1) rd(1,2) this rd(3), of out]
  have kk: "i + (j - i) = j" "j + length ?bs = k" using k ij by simp_all
  have "decode_loop (dst @ z @ n @ ?bs @ out) (length dst) i (?mix i) = decode_loop (dst @ z @ n @ ?bs @ out) (length ?dst) k (?mix k)"
    unfolding rnd z(2) kk mix_update [OF j less_imp_le [OF k(1)] k(2)] ..
  then show ?thesis using out E unfolding encodes_def
    by (intro exI [of _ r] exI [of _ "z @ n @ ?bs @ out"]) simp
qed

lemma encode_loop_encodes:
  assumes slen: "slen \<le> 0x3fff"
  shows "i \<le> slen \<Longrightarrow> length dst \<le> dlen \<Longrightarrow> length dst \<le> 3 * i + (if i = 0 then 0 else 2) \<Longrightarrow>
    (i = 0 \<longleftrightarrow> dst = []) \<Longrightarrow> (0 < i \<and> i < slen \<longrightarrow> same m old_buf new_buf i) \<Longrightarrow>
    encodes m old_buf new_buf slen dlen i dst"
proof (induction "slen - i" arbitrary: i dst rule: less_induct)
  case less
  let ?S = "same m old_buf new_buf" and ?E = "encode_loop m old_buf new_buf slen dlen"
  show ?case
  proof (cases "i < slen")
    case False
    then show ?thesis using less.prems(1,2) by (intro encodes_stop) (subst encode_loop.simps, simp_all)
  next
    case i: True
    define j where "j = zrun_end m old_buf new_buf slen i"
    have j: "run ?S i j slen" unfolding j_def by (rule zrun_end_run [OF less.prems(1)])
    have jle: "i \<le> j" "j \<le> slen" using j by (simp_all add: run_def)
    note E = encode_loop.simps [of m old_buf new_buf slen dlen i dst, folded j_def, unfolded Let_def]
    consider (full) "length dst + 2 > dlen" | (unchanged) "\<not> length dst + 2 > dlen" "j - i = slen"
      | (tail) "\<not> length dst + 2 > dlen" "j - i \<noteq> slen" "j = slen" | (more) "\<not> length dst + 2 > dlen" "j - i \<noteq> slen" "j < slen"
      using jle by linarith
    then show ?thesis
    proof cases
      case full
      then show ?thesis using E i less.prems(2,3) by (intro encodes_fail [of _ _ _ _ _ _ _ "[]"]) (auto split: if_splits)
    next
      case unchanged
      then have "?E i dst = Some (0, dst @ [])" "i = 0" "j = slen" using E i jle by auto
      then show ?thesis using less.prems(2) j unfolding encodes_def by (intro exI [of _ 0] exI [of _ "[]"]) (simp add: run_def)
    next
      case tail
      then show ?thesis using E i less.prems(1,2) j by (intro encodes_stop mix_same) (simp_all add: run_def)
    next
      case more
      have nS: "\<not> ?S j" using j more by (simp add: run_def)
      obtain k where k: "nzrun_end m old_buf new_buf slen j = Some k" "run (\<lambda>k. \<not> ?S k) j k slen"
        using nzrun_end_run [OF jle(2)] by blast
      have jk: "j < k" "k \<le> slen" "k < slen \<longrightarrow> ?S k" using k(2) nS more(3) by (auto simp: run_def le_less)
      have "j - i \<le> 0x3fff" "k - j \<le> 0x3fff" using jle jk slen by simp_all
      then obtain z n where z: "uleb128_encode_small (of_nat (j - i)) = Some z" "unat (of_nat (j - i) :: u32) = j - i"
        and n: "uleb128_encode_small (of_nat (k - j)) = Some n" "unat (of_nat (k - j) :: u32) = k - j"
        using uleb128_encode_exists by meson
      note l = uleb128_encode_length [OF z(1)] uleb128_encode_length [OF n(1)]
      have ij: "0 < i \<Longrightarrow> i < j" using less.prems(5) i nS jle by (cases "i = j") auto
      have len: "length dst + length z + length n + (k - j) \<le> 3 * k + 2" "length dst + length z + 2 \<le> 3 * slen + 3"
        using less.prems(3) l jk jle ij more(3) by (auto split: if_splits)
      let ?dst = "dst @ z @ n @ mem_read m (new_buf + j) (k - j)"
      consider (z) "length (dst @ z) + 2 > dlen" | (n) "\<not> length (dst @ z) + 2 > dlen" "length (dst @ z @ n) + (k - j) > dlen"
        | (go) "\<not> length (dst @ z) + 2 > dlen" "\<not> length (dst @ z @ n) + (k - j) > dlen" by blast
      then show ?thesis
      proof cases
        case z0: z
        then show ?thesis using E i more z(1) len l by (intro encodes_fail [of _ _ _ _ _ _ _ z]) simp_all
      next
        case n0: n
        then show ?thesis using E i more z(1) n(1) k(1) len jk l by (intro encodes_fail [of _ _ _ _ _ _ _ "z @ n"]) simp_all
      next
        case go
        have "encodes m old_buf new_buf slen dlen k ?dst"
          by (rule less.hyps) (use jk jle i go(2) l len in auto)
        moreover have "?E i dst = ?E k ?dst" using E i more z(1) n(1) k(1) go by simp
        moreover have "dst = [] \<or> i < j" using ij less.prems(4) by auto
        ultimately show ?thesis using encodes_round [OF _ _ j jk(1,2) _ z n] by blast
      qed
    qed
  qed
qed

text \<open>
  C36: Delta encoding is lossless. For aligned pages of at most 16383 bytes the encoder returns, never
  writes past its bound, and either finds the pages equal, or its output turns the old page into the
  new one when decoded, or gives up, which does not happen when three times the page and three bytes
  are available.\<close>

theorem xbzrle_roundtrip:
  assumes "old_buf mod 8 = 0" "new_buf mod 8 = 0" "slen mod 8 = 0" "slen \<le> 0x3fff"
  shows "\<exists>r out. xbzrle_encode_buffer m old_buf new_buf slen dlen = Some (r, out) \<and> length out \<le> dlen \<and>
    (3 * slen + 3 \<le> dlen \<longrightarrow> r \<noteq> - 1) \<and>
    (r = - 1 \<or> r = 0 \<and> mem_read m old_buf slen = mem_read m new_buf slen \<or>
     r = int (length out) \<and> (\<exists>d \<le> slen. xbzrle_decode_buffer out (mem_read m old_buf slen) = Some (int d, mem_read m new_buf slen)))"
proof -
  have o: "mix m old_buf new_buf slen 0 = mem_read m old_buf slen" and n: "mix m old_buf new_buf slen slen = mem_read m new_buf slen"
    by (rule nth_equalityI; simp)+
  have eq: "(\<forall>k < slen. same m old_buf new_buf k) \<Longrightarrow> mem_read m old_buf slen = mem_read m new_buf slen"
    by (rule nth_equalityI) (simp_all add: same_def)
  show ?thesis
    using encode_loop_encodes [OF assms(4), of 0 "[]" dlen m old_buf new_buf] assms(1-3) eq unfolding encodes_def o n
    by (auto simp: xbzrle_encode_buffer_def xbzrle_decode_buffer_def)
qed

theorem xbzrle_roundtrip_witness:
  "\<exists>r out. xbzrle_encode_buffer (\<lambda>a. if a = 9 then 7 else 0) 0 8 8 27 = Some (r, out) \<and> r \<noteq> - 1"
  using xbzrle_roundtrip [of 0 8 8 "\<lambda>a. if a = 9 then 7 else 0" 27] by auto

end
