(* ===== verification/Page_Cache.thy ===== *)
theory Page_Cache
  imports Cutils
begin

text \<open>
  \<open>page_cache.c\<close>: the cache of guest pages that the delta encoder compares with, a direct-mapped
  table indexed by the page number. The table is a list of items, a page held by an item its bytes.
  The signed 64-bit counters are words. The allocator's answer to a request for some bytes is the
  parameter \<open>try_malloc\<close>. Failed assertions and accesses outside the table are \<open>None\<close>.
\<close>

subsection \<open>State\<close>

record CacheItem =
  it_addr :: u64
  it_age :: u64
  it_data :: "buffer option"

record PageCache =
  page_cache :: "CacheItem list option"
  page_size :: u32
  max_num_items :: u64
  max_item_age :: u64
  num_items :: u64

subsection \<open>Operations\<close>

text \<open>The inner option is the returned pointer. An item takes 24 bytes; a product that wraps would
  make the initialisation overrun its table.\<close>

definition cache_init :: "(u64 \<Rightarrow> bool) \<Rightarrow> u64 \<Rightarrow> u32 \<Rightarrow> PageCache option option" where
  "cache_init try_malloc num_pages psize =
     (if sint num_pages \<le> 0 then Some None
      else if \<not> try_malloc 40 then Some None
      else Option.bind (if \<not> is_power_of_2 num_pages then pow2floor num_pages else Some num_pages) (\<lambda>n.
        if \<not> try_malloc (n * 24) then Some None
        else if unat (n * 24) < unat n * 24 then None
        else Some (Some \<lparr>page_cache = Some (replicate (unat n) \<lparr>it_addr = -1, it_age = 0, it_data = None\<rparr>),
                         page_size = psize, max_num_items = n, max_item_age = 0, num_items = 0\<rparr>)))"

text \<open>The blocks that are freed with the cache.\<close>

definition cache_fini :: "PageCache \<Rightarrow> buffer option list option" where
  "cache_fini cache = map_option (map it_data) (page_cache cache)"

definition cache_get_cache_pos :: "PageCache \<Rightarrow> u64 \<Rightarrow> nat option" where
  "cache_get_cache_pos cache address =
     (if max_num_items cache = 0 \<or> page_size cache = 0 then None
      else Some (unat (address div ucast (page_size cache) AND (max_num_items cache - 1))))"

text \<open>The item of an address, as its position, with its contents.\<close>

definition cache_get_by_addr :: "PageCache \<Rightarrow> u64 \<Rightarrow> (nat \<times> CacheItem) option" where
  "cache_get_by_addr cache addr =
     (case page_cache cache of
        None \<Rightarrow> None
      | Some its \<Rightarrow> Option.bind (cache_get_cache_pos cache addr) (\<lambda>pos.
          if pos < length its then Some (pos, its ! pos) else None))"

definition set_item :: "PageCache \<Rightarrow> nat \<Rightarrow> CacheItem \<Rightarrow> PageCache" where
  "set_item cache pos it = cache\<lparr>page_cache := map_option (\<lambda>its. its[pos := it]) (page_cache cache)\<rparr>"

definition get_cached_data :: "PageCache \<Rightarrow> u64 \<Rightarrow> buffer option option" where
  "get_cached_data cache addr = map_option (\<lambda>(pos, it). it_data it) (cache_get_by_addr cache addr)"

definition cache_is_cached :: "PageCache \<Rightarrow> u64 \<Rightarrow> u64 \<Rightarrow> (bool \<times> PageCache) option" where
  "cache_is_cached cache addr current_age =
     Option.bind (cache_get_by_addr cache addr) (\<lambda>(pos, it).
       if it_addr it = addr then Some (True, set_item cache pos (it\<lparr>it_age := current_age\<rparr>))
       else Some (False, cache))"

definition cache_insert :: "(u64 \<Rightarrow> bool) \<Rightarrow> PageCache \<Rightarrow> u64 \<Rightarrow> buffer \<Rightarrow> u64 \<Rightarrow> (int \<times> PageCache) option" where
  "cache_insert try_malloc cache addr pdata current_age =
     Option.bind (cache_get_by_addr cache addr) (\<lambda>(pos, it).
       if it_data it \<noteq> None \<and> it_addr it \<noteq> addr \<and> it_age it + 2 > current_age then Some (-1, cache)
       else if it_data it = None \<and> \<not> try_malloc (ucast (page_size cache)) then Some (-1, cache)
       else if length pdata < unat (page_size cache) then None
       else let c = (if it_data it = None then cache\<lparr>num_items := num_items cache + 1\<rparr> else cache)
            in Some (0, set_item c pos
                 \<lparr>it_addr = addr, it_age = current_age, it_data = Some (take (unat (page_size cache)) pdata)\<rparr>))"

text \<open>The loop that moves the items of the old table to the new cache.\<close>

definition move_item :: "PageCache \<Rightarrow> CacheItem \<Rightarrow> PageCache option" where
  "move_item new_cache old_it =
     (if it_addr old_it = -1 then Some new_cache
      else Option.bind (cache_get_by_addr new_cache (it_addr old_it)) (\<lambda>(pos, new_it).
        if it_data new_it \<noteq> None \<and> it_age old_it \<le> it_age new_it then Some new_cache
        else let c = (if it_data new_it = None then new_cache\<lparr>num_items := num_items new_cache + 1\<rparr> else new_cache)
             in Some (set_item c pos old_it)))"

primrec move_items :: "PageCache \<Rightarrow> CacheItem list \<Rightarrow> PageCache option" where
  "move_items new_cache [] = Some new_cache"
| "move_items new_cache (it # its) = Option.bind (move_item new_cache it) (\<lambda>c. move_items c its)"

definition cache_resize :: "(u64 \<Rightarrow> bool) \<Rightarrow> PageCache \<Rightarrow> u64 \<Rightarrow> (u64 \<times> PageCache) option" where
  "cache_resize try_malloc cache new_num_pages =
     (case page_cache cache of
        None \<Rightarrow> Some (-1, cache)
      | Some its \<Rightarrow> Option.bind (pow2floor new_num_pages) (\<lambda>p.
          if p = max_num_items cache then Some (max_num_items cache, cache)
          else Option.bind (cache_init try_malloc new_num_pages (page_size cache)) (\<lambda>r. case r of
            None \<Rightarrow> Some (-1, cache)
          | Some new_cache \<Rightarrow> Option.bind
              (if unat (max_num_items cache) \<le> length its then move_items new_cache (take (unat (max_num_items cache)) its) else None)
              (\<lambda>c. Some (max_num_items c, cache\<lparr>page_cache := page_cache c, max_num_items := max_num_items c,
                                                 num_items := num_items c\<rparr>)))))"

subsection \<open>The invariant\<close>

definition held :: "CacheItem list \<Rightarrow> nat" where
  "held its = length (filter (\<lambda>it. it_data it \<noteq> None) its)"

definition slot :: "u32 \<Rightarrow> nat \<Rightarrow> u64 \<Rightarrow> nat" where
  "slot psize n addr = unat addr div unat psize mod n"

definition item_ok :: "u32 \<Rightarrow> nat \<Rightarrow> nat \<Rightarrow> CacheItem \<Rightarrow> bool" where
  "item_ok psize n pos it \<longleftrightarrow>
     (case it_data it of None \<Rightarrow> it_addr it = -1 | Some d \<Rightarrow> length d = unat psize \<and> slot psize n (it_addr it) = pos)"

definition cache_wf :: "PageCache \<Rightarrow> bool" where
  "cache_wf c \<longleftrightarrow> (\<exists>its. page_cache c = Some its \<and> length its = unat (max_num_items c) \<and> is_power_of_2 (max_num_items c) \<and>
     page_size c \<noteq> 0 \<and> num_items c = of_nat (held its) \<and>
     (\<forall>p < length its. item_ok (page_size c) (length its) p (its ! p)))"

lemma and_pow2_minus: "is_power_of_2 n \<Longrightarrow> unat (x AND (n - 1)) = unat x mod unat n"
  for x n :: u64
proof -
  assume "is_power_of_2 n"
  then obtain k where k: "k < 64" "n = 2 ^ k" by (auto simp: is_power_of_2_iff)
  then have "x AND (n - 1) = take_bit k x" by (simp add: take_bit_eq_mask mask_eq_decr_exp)
  moreover have "unat n = 2 ^ k" using k by (simp add: unat_exp)
  moreover have "unat (take_bit k x) = unat x mod 2 ^ k" by (simp only: unsigned_take_bit_eq) (simp add: take_bit_eq_mod)
  ultimately show ?thesis by metis
qed

lemma cache_pos:
  assumes "cache_wf c" "page_cache c = Some its"
  shows "cache_get_by_addr c addr = Some (slot (page_size c) (length its) addr, its ! slot (page_size c) (length its) addr)"
    "slot (page_size c) (length its) addr < length its"
proof -
  have p: "is_power_of_2 (max_num_items c)" "length its = unat (max_num_items c)" "page_size c \<noteq> 0"
    using assms by (auto simp: cache_wf_def)
  have n: "max_num_items c \<noteq> 0" using p(1) by (auto simp: is_power_of_2_def)
  then show lt: "slot (page_size c) (length its) addr < length its"
    unfolding slot_def p(2) by (intro mod_less_divisor) (simp add: unat_gt_0)
  have "unat (page_size c) < 2 ^ 32" using unsigned_less [of "page_size c"] by simp
  then have u: "unat (ucast (page_size c) :: u64) = unat (page_size c)" by (simp add: unsigned_ucast_eq take_bit_nat_eq_self)
  then have "cache_get_cache_pos c addr = Some (slot (page_size c) (length its) addr)"
    using p n by (simp add: cache_get_cache_pos_def slot_def and_pow2_minus unat_div)
  then show "cache_get_by_addr c addr = Some (slot (page_size c) (length its) addr, its ! slot (page_size c) (length its) addr)"
    using assms(2) lt by (simp add: cache_get_by_addr_def)
qed

lemma held_update:
  "p < length its \<Longrightarrow> it_data it \<noteq> None \<Longrightarrow> held (its[p := it]) = (if it_data (its ! p) = None then Suc (held its) else held its)"
proof (induction its arbitrary: p)
  case (Cons a its)
  then show ?case by (cases p) (auto simp: held_def)
qed (simp add: held_def)

lemma held_same: "p < length its \<Longrightarrow> it_data it = it_data (its ! p) \<Longrightarrow> held (its[p := it]) = held its"
proof (induction its arbitrary: p)
  case (Cons a its)
  then show ?case by (cases p) (auto simp: held_def)
qed (simp add: held_def)

text \<open>Storing an item in its slot, counting it when the slot was empty.\<close>

definition stored :: "PageCache \<Rightarrow> nat \<Rightarrow> CacheItem \<Rightarrow> CacheItem \<Rightarrow> PageCache" where
  "stored c pos old it = set_item (if it_data old = None then c\<lparr>num_items := num_items c + 1\<rparr> else c) pos it"

lemma stored_wf:
  assumes c: "cache_wf c" "page_cache c = Some its" and p: "p < length its" "item_ok (page_size c) (length its) p it" "it_data it \<noteq> None"
  shows "cache_wf (stored c p (its ! p) it)" "page_cache (stored c p (its ! p) it) = Some (its[p := it])"
    "page_size (stored c p (its ! p) it) = page_size c" "max_num_items (stored c p (its ! p) it) = max_num_items c"
proof -
  show s: "page_cache (stored c p (its ! p) it) = Some (its[p := it])" "page_size (stored c p (its ! p) it) = page_size c"
    "max_num_items (stored c p (its ! p) it) = max_num_items c" using c by (simp_all add: stored_def set_item_def)
  have "num_items (stored c p (its ! p) it) = of_nat (held (its[p := it]))"
    using c p by (auto simp: stored_def set_item_def held_update cache_wf_def)
  then show "cache_wf (stored c p (its ! p) it)"
    using c p unfolding cache_wf_def s by (auto simp: nth_list_update)
qed

subsection \<open>The operations keep it\<close>

lemma cache_pos_addr:
  "cache_wf c \<Longrightarrow> page_cache c = Some its \<Longrightarrow> cache_get_cache_pos c a = Some (slot (page_size c) (length its) a)"
  using cache_pos(1) [of c its a] by (auto simp: cache_get_by_addr_def split: bind_splits if_splits)

lemma get_cached_data_wf:
  "cache_wf c \<Longrightarrow> page_cache c = Some its \<Longrightarrow> get_cached_data c a = Some (it_data (its ! slot (page_size c) (length its) a))"
  by (simp add: get_cached_data_def cache_pos(1))

text \<open>The allocator refuses empty requests and those above the largest object size.\<close>

definition malloc_bounded :: "(u64 \<Rightarrow> bool) \<Rightarrow> bool" where
  "malloc_bounded try_malloc \<longleftrightarrow> (\<forall>b. try_malloc b \<longrightarrow> 0 < b \<and> b < 0x8000000000000000)"

lemma table_size:
  assumes "malloc_bounded try_malloc" "try_malloc (2 ^ k * 24)" "k < 64"
  shows "unat (2 ^ k * 24 :: u64) = 2 ^ k * 24"
proof -
  have b: "0 < (2 ^ k * 24 :: u64)" "(2 ^ k * 24 :: u64) < 0x8000000000000000" using assms(1,2) by (auto simp: malloc_bounded_def)
  have "k \<le> 59"
  proof (rule ccontr)
    assume "\<not> k \<le> 59"
    then consider "k = 60" | "k = 61" | "k = 62" | "k = 63" using assms(3) by linarith
    then show False using b by cases simp_all
  qed
  then have "(2 :: nat) ^ k * 24 \<le> 2 ^ 59 * 24" by (intro mult_right_mono power_increasing) simp_all
  then show ?thesis using assms(3) by (simp add: unat_word_ariths unat_exp)
qed

lemma cache_init_wf:
  assumes "malloc_bounded try_malloc" "psize \<noteq> 0"
  shows "\<exists>r. cache_init try_malloc n psize = Some r \<and> (\<forall>c. r = Some c \<longrightarrow> cache_wf c \<and> page_size c = psize \<and>
    (\<exists>its. page_cache c = Some its \<and> (\<forall>it \<in> set its. it_data it = None)))"
proof (cases "sint n \<le> 0 \<or> \<not> try_malloc 40")
  case False
  then have "n \<noteq> 0" by auto
  then obtain k where k: "k < 64" "pow2floor n = Some (2 ^ k)" by (rule pow2floor_spec)
  then have f: "(if \<not> is_power_of_2 n then pow2floor n else Some n) = Some (2 ^ k)"
    by (auto simp: pow2floor_def split: if_splits)
  have p: "is_power_of_2 (2 ^ k)" using k(1) by (auto simp: is_power_of_2_iff)
  show ?thesis
  proof (cases "try_malloc (2 ^ k * 24)")
    case True
    have "\<not> unat (2 ^ k * 24 :: u64) < unat (2 ^ k :: u64) * 24"
      using table_size [OF assms(1) True k(1)] k(1) by (simp add: unat_exp)
    then show ?thesis using False f p True assms(2)
      by (simp add: cache_init_def cache_wf_def held_def item_ok_def)
  qed (use False f in \<open>simp add: cache_init_def\<close>)
qed (auto simp: cache_init_def)

lemma cache_is_cached_wf:
  assumes "cache_wf c"
  shows "\<exists>b c'. cache_is_cached c addr age = Some (b, c') \<and> cache_wf c' \<and> page_size c' = page_size c"
proof -
  obtain its where its: "page_cache c = Some its" using assms by (auto simp: cache_wf_def)
  let ?p = "slot (page_size c) (length its) addr"
  let ?it = "its ! ?p"
  have h: "held (its[?p := ?it\<lparr>it_age := age\<rparr>]) = held its"
    by (rule held_same [OF cache_pos(2) [OF assms its]]) simp
  have "cache_wf (set_item c ?p (?it\<lparr>it_age := age\<rparr>))"
    using assms its h cache_pos(2) [OF assms its, of addr]
    by (auto simp: cache_wf_def set_item_def nth_list_update item_ok_def split: option.splits)
  then show ?thesis using assms cache_pos(1) [OF assms its] by (auto simp: cache_is_cached_def set_item_def)
qed

lemma cache_insert_cases:
  fixes addr age :: u64
  assumes c: "cache_wf c" "page_cache c = Some its" and l: "unat (page_size c) \<le> length pdata"
  defines "p \<equiv> slot (page_size c) (length its) addr"
  defines "it \<equiv> \<lparr>it_addr = addr, it_age = age, it_data = Some (take (unat (page_size c)) pdata)\<rparr>"
  shows "cache_insert try_malloc c addr pdata age =
    (if it_data (its ! p) \<noteq> None \<and> it_addr (its ! p) \<noteq> addr \<and> it_age (its ! p) + 2 > age \<or>
        it_data (its ! p) = None \<and> \<not> try_malloc (ucast (page_size c)) then Some (-1, c)
     else Some (0, stored c p (its ! p) it))"
    "cache_wf (stored c p (its ! p) it)" "page_cache (stored c p (its ! p) it) = Some (its[p := it])"
    "page_size (stored c p (its ! p) it) = page_size c"
proof -
  have p: "p < length its" unfolding p_def by (rule cache_pos(2) [OF c])
  have "item_ok (page_size c) (length its) p it" "it_data it \<noteq> None" using l by (simp_all add: it_def item_ok_def p_def)
  from stored_wf [OF c p this] show "cache_wf (stored c p (its ! p) it)"
    "page_cache (stored c p (its ! p) it) = Some (its[p := it])" "page_size (stored c p (its ! p) it) = page_size c" by simp_all
  show "cache_insert try_malloc c addr pdata age =
    (if it_data (its ! p) \<noteq> None \<and> it_addr (its ! p) \<noteq> addr \<and> it_age (its ! p) + 2 > age \<or>
        it_data (its ! p) = None \<and> \<not> try_malloc (ucast (page_size c)) then Some (-1, c)
     else Some (0, stored c p (its ! p) it))"
    using cache_pos(1) [OF c, of addr] l by (simp add: cache_insert_def p_def it_def stored_def Let_def)
qed

lemma move_item_wf:
  assumes c: "cache_wf c" "page_cache c = Some its" and it: "it_addr it \<noteq> -1 \<longrightarrow> (\<exists>d. it_data it = Some d \<and> length d = unat (page_size c))"
  shows "\<exists>c' its'. move_item c it = Some c' \<and> cache_wf c' \<and> page_size c' = page_size c \<and> page_cache c' = Some its' \<and>
    set its' \<subseteq> insert it (set its)"
proof (cases "it_addr it = -1")
  case False
  let ?p = "slot (page_size c) (length its) (it_addr it)"
  have ok: "item_ok (page_size c) (length its) ?p it" "it_data it \<noteq> None" using it False by (auto simp: item_ok_def)
  note s = stored_wf [OF c cache_pos(2) [OF c] ok]
  have "set (its[?p := it]) \<subseteq> insert it (set its)" by (rule set_update_subset_insert)
  moreover have "move_item c it = Some c \<or> move_item c it = Some (stored c ?p (its ! ?p) it)"
    using False cache_pos(1) [OF c] by (simp add: move_item_def stored_def Let_def)
  ultimately show ?thesis using c s by auto
qed (use c in \<open>auto simp: move_item_def\<close>)

lemma move_items_wf:
  "cache_wf c \<Longrightarrow> page_cache c = Some its \<Longrightarrow>
    \<forall>it \<in> set xs. it_addr it \<noteq> -1 \<longrightarrow> (\<exists>d. it_data it = Some d \<and> length d = unat (page_size c)) \<Longrightarrow>
    \<exists>c' its'. move_items c xs = Some c' \<and> cache_wf c' \<and> page_size c' = page_size c \<and> page_cache c' = Some its' \<and>
      set its' \<subseteq> set xs \<union> set its"
proof (induction xs arbitrary: c its)
  case (Cons it xs)
  obtain c1 its1 where c1: "move_item c it = Some c1" "cache_wf c1" "page_size c1 = page_size c" "page_cache c1 = Some its1"
    "set its1 \<subseteq> insert it (set its)" using move_item_wf [OF Cons.prems(1,2), of it] Cons.prems(3) by auto
  obtain c2 its2 where "move_items c1 xs = Some c2" "cache_wf c2" "page_size c2 = page_size c1" "page_cache c2 = Some its2"
    "set its2 \<subseteq> set xs \<union> set its1" using Cons.IH [OF c1(2,4)] Cons.prems(3) c1(3) by auto
  then show ?case using c1 by auto
qed simp

lemma move_items_max: "move_items c xs = Some c' \<Longrightarrow> max_num_items c' = max_num_items c"
proof (induction xs arbitrary: c)
  case (Cons it xs)
  then obtain c1 where c1: "move_item c it = Some c1" "move_items c1 xs = Some c'" by (auto split: bind_splits)
  then have "max_num_items c1 = max_num_items c"
    by (auto simp: move_item_def set_item_def Let_def split: if_splits bind_splits)
  then show ?case using Cons.IH [OF c1(2)] by simp
qed simp

lemma cache_resize_wf:
  assumes c: "cache_wf c" "page_cache c = Some its" and m: "malloc_bounded try_malloc" and n: "n \<noteq> 0"
  shows "\<exists>r c' its'. cache_resize try_malloc c n = Some (r, c') \<and> cache_wf c' \<and> page_size c' = page_size c \<and>
    page_cache c' = Some its' \<and> (\<forall>it \<in> set its'. it_data it \<noteq> None \<longrightarrow> it \<in> set its) \<and>
    (r = -1 \<and> c' = c \<or> r = max_num_items c' \<and> pow2floor n = Some r)"
proof -
  obtain k where k: "k < 64" "pow2floor n = Some (2 ^ k)" using pow2floor_spec [OF n] by blast
  have ps: "page_size c \<noteq> 0" "length its = unat (max_num_items c)" using c by (auto simp: cache_wf_def)
  have old: "\<forall>it \<in> set its. it_addr it \<noteq> -1 \<longrightarrow> (\<exists>d. it_data it = Some d \<and> length d = unat (page_size c))"
  proof
    fix it assume "it \<in> set its"
    then obtain p where "p < length its" "it = its ! p" by (auto simp: in_set_conv_nth)
    then have "item_ok (page_size c) (length its) p it" using c by (auto simp: cache_wf_def)
    then show "it_addr it \<noteq> -1 \<longrightarrow> (\<exists>d. it_data it = Some d \<and> length d = unat (page_size c))"
      by (auto simp: item_ok_def split: option.splits)
  qed
  obtain r where r: "cache_init try_malloc n (page_size c) = Some r" "\<forall>c0. r = Some c0 \<longrightarrow> cache_wf c0 \<and>
    page_size c0 = page_size c \<and> (\<exists>its. page_cache c0 = Some its \<and> (\<forall>it \<in> set its. it_data it = None))"
    using cache_init_wf [OF m ps(1), of n] by blast
  show ?thesis
  proof (cases "2 ^ k = max_num_items c \<or> r = None")
    case True
    then show ?thesis using c k r(1) by (auto simp: cache_resize_def)
  next
    case False
    then obtain c0 its0 where c0: "r = Some c0" "cache_wf c0" "page_size c0 = page_size c" "page_cache c0 = Some its0"
      "\<forall>it \<in> set its0. it_data it = None" using r(2) by auto
    have "max_num_items c0 = 2 ^ k"
      using r(1) c0(1) k(2) by (auto simp: cache_init_def pow2floor_def split: if_splits bind_splits)
    moreover obtain c1 its1 where c1: "move_items c0 its = Some c1" "cache_wf c1" "page_size c1 = page_size c0" "page_cache c1 = Some its1"
      "set its1 \<subseteq> set its \<union> set its0" using move_items_wf [OF c0(2,4), of its] old c0(3) by auto
    moreover have "max_num_items c1 = max_num_items c0" by (rule move_items_max [OF c1(1)])
    moreover have "cache_wf (c\<lparr>page_cache := page_cache c1, max_num_items := max_num_items c1, num_items := num_items c1\<rparr>)"
      using c1 c0(3) by (auto simp: cache_wf_def)
    ultimately show ?thesis using False c k r(1) c0 ps(2) by (auto simp: cache_resize_def)
  qed
qed

subsection \<open>Properties\<close>

inductive cache_reach :: "(u64 \<Rightarrow> bool) \<Rightarrow> u32 \<Rightarrow> PageCache \<Rightarrow> bool" for try_malloc psize where
  init: "cache_init try_malloc n psize = Some (Some c) \<Longrightarrow> cache_reach try_malloc psize c"
| hit: "cache_reach try_malloc psize c \<Longrightarrow> cache_is_cached c addr age = Some (b, c') \<Longrightarrow> cache_reach try_malloc psize c'"
| insertion: "cache_reach try_malloc psize c \<Longrightarrow> length pdata = unat psize \<Longrightarrow>
    cache_insert try_malloc c addr pdata age = Some (r, c') \<Longrightarrow> cache_reach try_malloc psize c'"
| resize: "cache_reach try_malloc psize c \<Longrightarrow> n \<noteq> 0 \<Longrightarrow> cache_resize try_malloc c n = Some (t, c') \<Longrightarrow> cache_reach try_malloc psize c'"

lemma cache_insert_wf:
  assumes "cache_wf c" "unat (page_size c) \<le> length pdata"
  shows "\<exists>r c'. cache_insert try_malloc c addr pdata age = Some (r, c') \<and> cache_wf c' \<and> page_size c' = page_size c"
proof -
  obtain its where "page_cache c = Some its" using assms(1) by (auto simp: cache_wf_def)
  note ins = cache_insert_cases [OF assms(1) this assms(2), where addr = addr and age = age]
  show ?thesis using assms(1) ins(2,4) by (auto simp: ins(1) [of try_malloc])
qed

lemma cache_reach_wf:
  assumes "malloc_bounded try_malloc" "psize \<noteq> 0"
  shows "cache_reach try_malloc psize c \<Longrightarrow> cache_wf c \<and> page_size c = psize"
proof (induction rule: cache_reach.induct)
  case (init n c)
  then show ?case using cache_init_wf [OF assms, of n] by auto
next
  case (hit c addr age b c')
  then show ?case using cache_is_cached_wf [of c addr age] by auto
next
  case (insertion c pdata addr age r c')
  then show ?case using cache_insert_wf [of c pdata try_malloc addr age] by auto
next
  case (resize c n t c')
  then obtain its where "page_cache c = Some its" by (auto simp: cache_wf_def)
  then show ?case using resize cache_resize_wf [OF _ _ assms(1), of c its n] by auto
qed

text \<open>
  C37: In every state a page cache can reach by lookups, insertions and resizes, the table has a power
  of two of slots, every page sits in the slot of its address with its full size, empty slots have
  the address -1, the item counter counts the pages, and no operation fails an assertion or leaves
  the table.\<close>

theorem page_cache_invariant:
  assumes "malloc_bounded try_malloc" "psize \<noteq> 0" "cache_reach try_malloc psize c"
  shows "cache_wf c \<and> page_size c = psize \<and> cache_is_cached c addr age \<noteq> None \<and> get_cached_data c addr \<noteq> None \<and>
    (unat psize \<le> length pdata \<longrightarrow> cache_insert try_malloc c addr pdata age \<noteq> None) \<and>
    (n \<noteq> 0 \<longrightarrow> cache_resize try_malloc c n \<noteq> None) \<and> cache_fini c \<noteq> None"
proof -
  have c: "cache_wf c" "page_size c = psize" using cache_reach_wf [OF assms] by simp_all
  then obtain its where its: "page_cache c = Some its" by (auto simp: cache_wf_def)
  show ?thesis
    using c its cache_is_cached_wf [OF c(1), of addr age] get_cached_data_wf [OF c(1) its, of addr]
      cache_insert_wf [OF c(1), of pdata try_malloc addr age] cache_resize_wf [OF c(1) its assms(1), of n]
    by (auto simp: cache_fini_def)
qed

theorem page_cache_invariant_witness:
  "\<exists>c. cache_init (\<lambda>b. 0 < b \<and> b < 1024) 2 1 = Some (Some c) \<and> cache_wf c \<and> page_size c = 1 \<and>
    cache_resize (\<lambda>b. 0 < b \<and> b < 1024) c 4 \<noteq> None"
proof -
  let ?m = "\<lambda>b :: u64. 0 < b \<and> b < 1024"
  let ?c = "\<lparr>page_cache = Some (replicate 2 \<lparr>it_addr = -1, it_age = 0, it_data = None\<rparr>),
    page_size = 1, max_num_items = 2, max_item_age = 0, num_items = 0\<rparr>"
  have i: "cache_init ?m 2 1 = Some (Some ?c)" by (simp add: cache_init_def is_power_of_2_def)
  have "malloc_bounded ?m" unfolding malloc_bounded_def by (auto intro: less_trans)
  from page_cache_invariant [OF this _ cache_reach.init [OF i], of 0 0 "[]" 4] i show ?thesis by auto
qed

text \<open>
  C38: Inserting a page either refuses, with the cache unchanged, because another page in its slot is
  fresh or no memory is left, or the page is cached afterwards with its bytes. Addresses of other
  slots are not affected.\<close>

theorem cache_insert_lookup:
  assumes "cache_wf c" "unat (page_size c) \<le> length pdata"
  shows "\<exists>r c'. cache_insert try_malloc c addr pdata age = Some (r, c') \<and> cache_wf c' \<and>
    (\<forall>a. cache_get_cache_pos c a \<noteq> cache_get_cache_pos c addr \<longrightarrow> get_cached_data c' a = get_cached_data c a) \<and>
    (r = 0 \<and> get_cached_data c' addr = Some (Some (take (unat (page_size c)) pdata)) \<and> map_option fst (cache_is_cached c' addr now) = Some True \<or>
     r = -1 \<and> c' = c \<and> (get_cached_data c addr = Some None \<and> \<not> try_malloc (ucast (page_size c)) \<or>
       (\<exists>pos it. cache_get_by_addr c addr = Some (pos, it) \<and> it_data it \<noteq> None \<and> it_addr it \<noteq> addr \<and> age < it_age it + 2)))"
proof -
  obtain its where its: "page_cache c = Some its" using assms(1) by (auto simp: cache_wf_def)
  let ?p = "slot (page_size c) (length its) addr"
  let ?it = "\<lparr>it_addr = addr, it_age = age, it_data = Some (take (unat (page_size c)) pdata)\<rparr>"
  let ?c = "stored c ?p (its ! ?p) ?it"
  note ins = cache_insert_cases [OF assms(1) its assms(2), where addr = addr and age = age]
  have oth: "\<forall>a. cache_get_cache_pos c a \<noteq> cache_get_cache_pos c addr \<longrightarrow> get_cached_data ?c a = get_cached_data c a"
    using ins(4) get_cached_data_wf [OF assms(1) its] get_cached_data_wf [OF ins(2,3)] cache_pos_addr [OF assms(1) its]
    by (auto simp: nth_list_update)
  have got: "get_cached_data ?c addr = Some (Some (take (unat (page_size c)) pdata))"
    using get_cached_data_wf [OF ins(2,3), of addr] ins(4) cache_pos(2) [OF assms(1) its, of addr] by simp
  have hit: "map_option fst (cache_is_cached ?c addr now) = Some True"
    using cache_pos(1) [OF ins(2,3), of addr] ins(4) cache_pos(2) [OF assms(1) its, of addr] by (simp add: cache_is_cached_def)
  show ?thesis
    using ins(1) [of try_malloc] ins(2) oth got hit assms(1) get_cached_data_wf [OF assms(1) its, of addr] cache_pos(1) [OF assms(1) its, of addr]
    by (auto split: if_splits)
qed

theorem cache_insert_lookup_witness:
  "\<exists>r c'. cache_insert (\<lambda>b. True) \<lparr>page_cache = Some [\<lparr>it_addr = -1, it_age = 0, it_data = None\<rparr>], page_size = 1,
      max_num_items = 1, max_item_age = 0, num_items = 0\<rparr> 5 [7] 3 = Some (r, c') \<and> cache_wf c' \<and> get_cached_data c' 5 = Some (Some [7])"
proof -
  let ?c = "\<lparr>page_cache = Some [\<lparr>it_addr = -1, it_age = 0, it_data = None\<rparr>], page_size = 1,
      max_num_items = 1, max_item_age = 0, num_items = 0\<rparr> :: PageCache"
  have w: "cache_wf ?c" "unat (page_size ?c) \<le> length [7 :: byte]"
    by (simp_all add: cache_wf_def is_power_of_2_def held_def item_ok_def)
  show ?thesis using cache_insert_lookup [OF w, of "\<lambda>b. True" 5 3 0] w(1)
    by (auto simp: cache_get_by_addr_def cache_get_cache_pos_def)
qed

end
