(* ===== verification/Hbitmap.thy ===== *)
theory Hbitmap
  imports Temu_Prelude
begin

text \<open>
  \<open>util/hbitmap.c\<close> with the inline functions of \<open>include/qemu/hbitmap.h\<close>: the hierarchical
  bitmap that tracks dirty blocks. Seven arrays of 64-bit words are stacked; a bit of one level says
  whether a word of the next level is nonzero. A level is the list of its words; an access outside it and a
  failed assertion are \<open>None\<close>. Positions inside the bitmap are natural numbers, since a bitmap has
  at most \<open>2^41\<close> bits; the item numbers at the interface are 64-bit words and wrap. The size \<open>-1\<close>
  that ends an iteration over words is the largest 64-bit value.
\<close>

subsection \<open>State\<close>

record HBitmap =
  hb_size :: nat
  hb_count :: u64
  granularity :: nat
  levels :: "u64 list list"

text \<open>The iterator; the bitmap it points to is an argument of the operations.\<close>

record HBitmapIter =
  it_granularity :: nat
  it_pos :: nat
  it_cur :: "u64 list"

subsection \<open>Setting and resetting ranges\<close>

definition elem_mask :: "nat \<Rightarrow> nat \<Rightarrow> u64" where
  "elem_mask start lst = push_bit (lst mod 64) 2 - push_bit (start mod 64) 1"

definition hb_set_elem :: "u64 \<Rightarrow> nat \<Rightarrow> nat \<Rightarrow> (bool \<times> u64) option" where
  "hb_set_elem elem start lst =
     (if lst div 64 = start div 64 \<and> start \<le> lst then Some (elem = 0, elem OR elem_mask start lst) else None)"

definition hb_reset_elem :: "u64 \<Rightarrow> nat \<Rightarrow> nat \<Rightarrow> (bool \<times> u64) option" where
  "hb_reset_elem elem start lst =
     (if lst div 64 = start div 64 \<and> start \<le> lst
      then Some (elem \<noteq> 0 \<and> elem AND NOT (elem_mask start lst) = 0, elem AND NOT (elem_mask start lst)) else None)"

text \<open>The inner loops over whole words: they store \<open>v\<close> in the words between the first and the last,
  and notice whether one satisfied \<open>P\<close>. They are entered with \<open>i < lastpos\<close>, so that the code's
  test for equality is the one below. The result has the words, the flag and the values of
  \<open>start\<close> and \<open>i\<close> at the exit.\<close>

function fill_words :: "(u64 \<Rightarrow> bool) \<Rightarrow> u64 \<Rightarrow> u64 list \<Rightarrow> bool \<Rightarrow> nat \<Rightarrow> nat \<Rightarrow> nat \<Rightarrow> (u64 list \<times> bool \<times> nat \<times> nat) option" where
  "fill_words P v ws changed i nxt lastpos =
     (if Suc i < lastpos
      then if Suc i < length ws
           then fill_words P v (ws[Suc i := v]) (changed \<or> P (ws ! Suc i)) (Suc i) (nxt + 64) lastpos
           else None
      else Some (ws, changed, nxt, Suc i))"
  by pat_completeness auto
termination by (relation "measure (\<lambda>(P, v, ws, changed, i, nxt, lastpos). lastpos - i)") auto

declare fill_words.simps [simp del]

definition set_fill :: "u64 list \<Rightarrow> bool \<Rightarrow> nat \<Rightarrow> nat \<Rightarrow> nat \<Rightarrow> (u64 list \<times> bool \<times> nat \<times> nat) option" where
  "set_fill = fill_words (\<lambda>w. w = 0) (- 1)"

definition reset_fill :: "u64 list \<Rightarrow> bool \<Rightarrow> nat \<Rightarrow> nat \<Rightarrow> nat \<Rightarrow> (u64 list \<times> bool \<times> nat \<times> nat) option" where
  "reset_fill = fill_words (\<lambda>w. w \<noteq> 0) 0"

text \<open>What \<open>hb_set_between\<close> does to its own level.\<close>

definition set_words :: "u64 list \<Rightarrow> nat \<Rightarrow> nat \<Rightarrow> (bool \<times> u64 list) option" where
  "set_words ws start lst =
     (let pos = start div 64; lastpos = lst div 64
      in if pos < lastpos
         then do {
           let nxt = (start OR 63) + 1;
           elem \<leftarrow> rd ws pos;
           (changed, elem) \<leftarrow> hb_set_elem elem start (nxt - 1);
           (ws, changed, start, i) \<leftarrow> set_fill (ws[pos := elem]) changed pos nxt lastpos;
           elem \<leftarrow> rd ws i;
           (c, elem) \<leftarrow> hb_set_elem elem start lst;
           Some (changed \<or> c, ws[i := elem])
         }
         else do {
           elem \<leftarrow> rd ws pos;
           (c, elem) \<leftarrow> hb_set_elem elem start lst;
           Some (c, ws[pos := elem])
         })"

fun hb_set_between :: "u64 list list \<Rightarrow> nat \<Rightarrow> nat \<Rightarrow> nat \<Rightarrow> u64 list list option" where
  "hb_set_between lv level start lst =
     do {
       ws \<leftarrow> rd lv level;
       (changed, ws) \<leftarrow> set_words ws start lst;
       (case level of
          0 \<Rightarrow> Some (lv[level := ws])
        | Suc l \<Rightarrow> if changed then hb_set_between (lv[level := ws]) l (start div 64) (lst div 64) else Some (lv[level := ws]))
     }"

declare hb_set_between.simps [simp del]

text \<open>What \<open>hb_reset_between\<close> does to its own level, with the range left for the level above.\<close>

definition reset_words :: "u64 list \<Rightarrow> nat \<Rightarrow> nat \<Rightarrow> (bool \<times> nat \<times> nat \<times> u64 list) option" where
  "reset_words ws start lst =
     (let pos = start div 64; lastpos = lst div 64
      in if pos < lastpos
         then do {
           let nxt = (start OR 63) + 1;
           elem \<leftarrow> rd ws pos;
           (changed, elem) \<leftarrow> hb_reset_elem elem start (nxt - 1);
           let pos' = (if changed then pos else pos + 1);
           (ws, changed, start, i) \<leftarrow> reset_fill (ws[pos := elem]) changed pos nxt lastpos;
           elem \<leftarrow> rd ws i;
           (c, elem) \<leftarrow> hb_reset_elem elem start lst;
           Some (changed \<or> c, pos', if c then lastpos else lastpos - 1, ws[i := elem])
         }
         else do {
           elem \<leftarrow> rd ws pos;
           (c, elem) \<leftarrow> hb_reset_elem elem start lst;
           Some (c, pos, if c then lastpos else lastpos - 1, ws[pos := elem])
         })"

fun hb_reset_between :: "u64 list list \<Rightarrow> nat \<Rightarrow> nat \<Rightarrow> nat \<Rightarrow> u64 list list option" where
  "hb_reset_between lv level start lst =
     do {
       ws \<leftarrow> rd lv level;
       (changed, pos, lastpos, ws) \<leftarrow> reset_words ws start lst;
       (case level of
          0 \<Rightarrow> Some (lv[level := ws])
        | Suc l \<Rightarrow> if changed then hb_reset_between (lv[level := ws]) l pos lastpos else Some (lv[level := ws]))
     }"

declare hb_reset_between.simps [simp del]

subsection \<open>Iteration\<close>

text \<open>The index of the lowest set bit of a nonzero word, and the number of set bits.\<close>

definition ctzl :: "u64 \<Rightarrow> nat" where
  "ctzl w = length (takeWhile (\<lambda>i. \<not> bit w i) [0..<64])"

definition ctpopl :: "u64 \<Rightarrow> nat" where
  "ctpopl w = length (filter (bit w) [0..<64])"

text \<open>The loop up the levels, from level \<open>i\<close> exclusive; leaving the array is \<open>None\<close>.\<close>

primrec skip_up :: "u64 list \<Rightarrow> nat \<Rightarrow> nat \<Rightarrow> (nat \<times> u64 \<times> nat) option" where
  "skip_up curs 0 pos = None"
| "skip_up curs (Suc i) pos =
     do { c \<leftarrow> rd curs i; if c = 0 then skip_up curs i (pos div 64) else Some (i, c, pos div 64) }"

function skip_down :: "u64 list list \<Rightarrow> u64 list \<Rightarrow> nat \<Rightarrow> nat \<Rightarrow> u64 \<Rightarrow> (u64 list \<times> nat \<times> u64) option" where
  "skip_down lv curs i pos c =
     (if i < 6
      then if c = 0 then None
           else do {
             let pos = pos * 64 + ctzl c;
             ws \<leftarrow> rd lv (i + 1);
             c' \<leftarrow> rd ws pos;
             skip_down lv (curs[i := c AND (c - 1)]) (i + 1) pos c'
           }
      else Some (curs, pos, c))"
  by pat_completeness auto
termination by (relation "measure (\<lambda>(lv, curs, i, pos, c). 6 - i)") auto

declare skip_down.simps [simp del]

definition hbitmap_iter_skip_words :: "HBitmap \<Rightarrow> HBitmapIter \<Rightarrow> (u64 \<times> HBitmapIter) option" where
  "hbitmap_iter_skip_words hb hbi =
     do {
       (i, c, pos) \<leftarrow> skip_up (it_cur hbi) 6 (it_pos hbi);
       if i = 0 \<and> c = push_bit 63 1 then Some (0, hbi)
       else do {
         (curs, pos, c) \<leftarrow> skip_down (levels hb) (it_cur hbi) i pos c;
         if c = 0 then None else Some (c, hbi\<lparr>it_cur := curs, it_pos := pos\<rparr>)
       }
     }"

primrec iter_init_loop :: "u64 list list \<Rightarrow> nat \<Rightarrow> nat \<Rightarrow> u64 list option" where
  "iter_init_loop lv 0 pos = Some []"
| "iter_init_loop lv (Suc i) pos =
     do {
       ws \<leftarrow> rd lv i;
       w \<leftarrow> rd ws (pos div 64);
       let c = w AND NOT (push_bit (pos mod 64) 1 - 1);
       let c = (if i \<noteq> 6 then c AND NOT (push_bit (pos mod 64) 1) else c);
       cs \<leftarrow> iter_init_loop lv i (pos div 64);
       Some (cs @ [c])
     }"

definition hbitmap_iter_init :: "HBitmap \<Rightarrow> u64 \<Rightarrow> HBitmapIter option" where
  "hbitmap_iter_init hb first =
     (let pos = unat first div 2 ^ granularity hb
      in if pos < hb_size hb
         then do {
           curs \<leftarrow> iter_init_loop (levels hb) 7 pos;
           Some \<lparr>it_granularity = granularity hb, it_pos = pos div 64, it_cur = curs\<rparr>
         }
         else None)"

text \<open>The word to work on: the rest of the current one, or the next nonzero one.\<close>

definition iter_word :: "HBitmap \<Rightarrow> HBitmapIter \<Rightarrow> (u64 \<times> HBitmapIter) option" where
  "iter_word hb hbi = do { c \<leftarrow> rd (it_cur hbi) 6; if c = 0 then hbitmap_iter_skip_words hb hbi else Some (c, hbi) }"

definition hbitmap_iter_next :: "HBitmap \<Rightarrow> HBitmapIter \<Rightarrow> (int \<times> HBitmapIter) option" where
  "hbitmap_iter_next hb hbi =
     do {
       (c, hbi) \<leftarrow> iter_word hb hbi;
       if c = 0 then Some (-1, hbi)
       else Some (sint (push_bit (it_granularity hbi) (of_nat (it_pos hbi * 64 + ctzl c)) :: u64), hbi\<lparr>it_cur := (it_cur hbi)[6 := c AND (c - 1)]\<rparr>)
     }"

definition hbitmap_iter_next_word :: "HBitmap \<Rightarrow> HBitmapIter \<Rightarrow> (nat \<times> u64 \<times> HBitmapIter) option" where
  "hbitmap_iter_next_word hb hbi =
     do {
       (c, hbi) \<leftarrow> iter_word hb hbi;
       if c = 0 then Some (2 ^ 64 - 1, 0, hbi)
       else Some (it_pos hbi, c, hbi\<lparr>it_cur := (it_cur hbi)[6 := 0]\<rparr>)
     }"

subsection \<open>The interface\<close>

partial_function (option) count_loop :: "HBitmap \<Rightarrow> HBitmapIter \<Rightarrow> nat \<Rightarrow> nat \<Rightarrow> (nat \<times> u64 \<times> nat) option" where
  "count_loop hb hbi lst cnt =
     do {
       (pos, c, hbi) \<leftarrow> hbitmap_iter_next_word hb hbi;
       if pos \<ge> lst div 64 then Some (pos, c, cnt) else count_loop hb hbi lst (cnt + ctpopl c)
     }"

definition hb_count_between :: "HBitmap \<Rightarrow> nat \<Rightarrow> nat \<Rightarrow> nat option" where
  "hb_count_between hb start lst =
     (let fin = (lst + 1) mod 2 ^ 64
      in do {
        hbi \<leftarrow> hbitmap_iter_init hb (push_bit (granularity hb) (of_nat start));
        (pos, c, cnt) \<leftarrow> count_loop hb hbi fin 0;
        if pos = fin div 64 then Some (cnt + ctpopl (c AND (push_bit (fin mod 64) 1 - 1))) else Some cnt
      })"

definition hbitmap_set :: "HBitmap \<Rightarrow> u64 \<Rightarrow> u64 \<Rightarrow> HBitmap option" where
  "hbitmap_set hb start count =
     (let lst = drop_bit (granularity hb) (start + count - 1); start = drop_bit (granularity hb) start; count = lst - start + 1
      in do {
        n \<leftarrow> hb_count_between hb (unat start) (unat lst);
        lv \<leftarrow> hb_set_between (levels hb) 6 (unat start) (unat lst);
        Some (hb\<lparr>hb_count := hb_count hb + (count - of_nat n), levels := lv\<rparr>)
      })"

definition hbitmap_reset :: "HBitmap \<Rightarrow> u64 \<Rightarrow> u64 \<Rightarrow> HBitmap option" where
  "hbitmap_reset hb start count =
     (let lst = drop_bit (granularity hb) (start + count - 1); start = drop_bit (granularity hb) start
      in do {
        n \<leftarrow> hb_count_between hb (unat start) (unat lst);
        lv \<leftarrow> hb_reset_between (levels hb) 6 (unat start) (unat lst);
        Some (hb\<lparr>hb_count := hb_count hb - of_nat n, levels := lv\<rparr>)
      })"

definition hbitmap_get :: "HBitmap \<Rightarrow> u64 \<Rightarrow> bool option" where
  "hbitmap_get hb item =
     (let pos = unat (drop_bit (granularity hb) item)
      in do { ws \<leftarrow> rd (levels hb) 6; w \<leftarrow> rd ws (pos div 64); Some (w AND push_bit (pos mod 64) 1 \<noteq> 0) })"

definition hbitmap_empty :: "HBitmap \<Rightarrow> bool" where
  "hbitmap_empty hb = (hb_count hb = 0)"

definition hbitmap_granularity :: "HBitmap \<Rightarrow> nat" where
  "hbitmap_granularity hb = granularity hb"

definition hbitmap_count :: "HBitmap \<Rightarrow> u64" where
  "hbitmap_count hb = push_bit (granularity hb) (hb_count hb)"

text \<open>The arrays that are freed with the bitmap, in order.\<close>

definition hbitmap_free :: "HBitmap \<Rightarrow> u64 list list" where
  "hbitmap_free hb = rev (levels hb)"

text \<open>The arrays from the last level up, and the size computed for the first.\<close>

primrec alloc_levels :: "nat \<Rightarrow> nat \<Rightarrow> u64 list list \<times> nat" where
  "alloc_levels 0 sz = ([], sz)"
| "alloc_levels (Suc i) sz =
     (let sz = max ((sz + 63) div 64) 1; (lv, rest) = alloc_levels i sz in (lv @ [replicate sz 0], rest))"

definition hbitmap_alloc :: "u64 \<Rightarrow> nat \<Rightarrow> HBitmap option" where
  "hbitmap_alloc sz g =
     (if g < 64
      then let sz = unat (drop_bit g (sz + push_bit g 1 - 1))
           in if sz \<le> 2 ^ 41
              then let (lv, rest) = alloc_levels 7 sz
                   in if rest = 1
                      then Some \<lparr>hb_size = sz, hb_count = 0, granularity = g, levels = lv[0 := (lv ! 0)[0 := lv ! 0 ! 0 OR push_bit 63 1]]\<rparr>
                      else None
              else None
      else None)"

subsection \<open>Bits of a level\<close>

definition bit_at :: "u64 list \<Rightarrow> nat \<Rightarrow> bool" where
  "bit_at ws k \<longleftrightarrow> bit (ws ! (k div 64)) (k mod 64)"

lemma word_nonzero_bit: "w \<noteq> 0 \<longleftrightarrow> (\<exists>b < 64. bit (w :: u64) b)"
  by (auto simp: bit_eq_iff dest: bit_imp_le_length)

lemma bit_at_word: "b < 64 \<Longrightarrow> bit (ws ! w) b \<longleftrightarrow> bit_at ws (64 * w + b)"
  by (simp add: bit_at_def)

lemma nonzero_bit_at: "ws ! w \<noteq> 0 \<longleftrightarrow> (\<exists>k. k div 64 = w \<and> bit_at ws k)"
proof
  assume "ws ! w \<noteq> 0"
  then obtain b where "b < 64" "bit (ws ! w) b" by (auto simp: word_nonzero_bit)
  then show "\<exists>k. k div 64 = w \<and> bit_at ws k" by (intro exI [of _ "64 * w + b"]) (simp add: bit_at_def)
qed (auto simp: bit_at_def)

lemma bit_elem_mask:
  assumes "lst div 64 = start div 64" "start \<le> lst"
  shows "bit (elem_mask start lst) b \<longleftrightarrow> start mod 64 \<le> b \<and> b \<le> lst mod 64"
proof -
  have le: "start mod 64 \<le> lst mod 64" using assms div_mult_mod_eq [of start 64] div_mult_mod_eq [of lst 64] by linarith
  define s n where "s = start mod 64" and "n = Suc (lst mod 64) - s"
  have "push_bit s (mask n) = (2 ^ n - 1) * (2 ^ s :: u64)" by (simp add: push_bit_eq_mult mask_eq_decr_exp)
  also have "\<dots> = 2 ^ (n + s) - 2 ^ s" by (simp add: algebra_simps power_add)
  also have "n + s = Suc (lst mod 64)" using le by (simp add: n_def s_def)
  finally have "elem_mask start lst = push_bit s (mask n)" by (simp add: elem_mask_def push_bit_eq_mult s_def)
  moreover have "bit (push_bit s (mask n) :: u64) b \<longleftrightarrow> s \<le> b \<and> b < 64 \<and> b - s < n" by (auto simp: bit_simps)
  moreover have "lst mod 64 < 64" by simp
  then have "s \<le> b \<and> b < 64 \<and> b - s < n \<longleftrightarrow> s \<le> b \<and> b \<le> lst mod 64" using le unfolding n_def s_def [symmetric] by linarith
  ultimately show ?thesis by (simp add: s_def)
qed

lemma or_63: "(start :: nat) OR 63 = 64 * (start div 64) + 63"
proof -
  have m: "(63 :: nat) = mask 6" by (simp add: mask_eq_exp_minus_1)
  have "start OR 63 = push_bit 6 (drop_bit 6 start) OR mask 6"
    unfolding m by (rule bit_eqI) (auto simp: bit_simps)
  also have "\<dots> = push_bit 6 (drop_bit 6 start) + mask 6"
    by (rule disjunctive_add_eq_or [symmetric]) (rule bit_eqI, auto simp: bit_simps)
  finally show ?thesis by (simp add: push_bit_eq_mult drop_bit_eq_div mask_eq_exp_minus_1)
qed

lemma fill_words_spec:
  "i < lastpos \<Longrightarrow> lastpos < length ws \<Longrightarrow> \<exists>ws' changed'. fill_words P v ws changed i nxt lastpos = Some (ws', changed', nxt + 64 * (lastpos - Suc i), lastpos) \<and>
     length ws' = length ws \<and> (\<forall>w. ws' ! w = (if i < w \<and> w < lastpos then v else ws ! w)) \<and>
     (changed' \<longleftrightarrow> changed \<or> (\<exists>w. i < w \<and> w < lastpos \<and> P (ws ! w)))"
proof (induction P v ws changed i nxt lastpos rule: fill_words.induct)
  case (1 P v ws changed i nxt lastpos)
  show ?case
  proof (cases "Suc i < lastpos")
    case False
    then have "lastpos = Suc i" using 1(2) by simp
    then show ?thesis by (subst fill_words.simps) auto
  next
    case True
    obtain ws' c' where r: "fill_words P v (ws[Suc i := v]) (changed \<or> P (ws ! Suc i)) (Suc i) (nxt + 64) lastpos =
        Some (ws', c', nxt + 64 + 64 * (lastpos - Suc (Suc i)), lastpos)" "length ws' = length ws"
      "\<forall>w. ws' ! w = (if Suc i < w \<and> w < lastpos then v else ws[Suc i := v] ! w)"
      "c' \<longleftrightarrow> (changed \<or> P (ws ! Suc i)) \<or> (\<exists>w. Suc i < w \<and> w < lastpos \<and> P (ws[Suc i := v] ! w))"
      using 1(1) [OF True] 1(3) True by auto
    have "64 + 64 * (lastpos - Suc (Suc i)) = 64 * (lastpos - Suc i)" using True by simp
    moreover have "ws' ! w = (if i < w \<and> w < lastpos then v else ws ! w)" for w
      using r(3) True 1(3) by (cases "w = Suc i") auto
    moreover have "c' \<longleftrightarrow> changed \<or> (\<exists>w. i < w \<and> w < lastpos \<and> P (ws ! w))"
      unfolding r(4) using True by (auto simp: nth_list_update) (metis Suc_lessI)+
    ultimately show ?thesis using r(1,2) True 1(3) by (subst fill_words.simps) (simp add: add.assoc)
  qed
qed

lemma bit_at_upd:
  "w < length ws \<Longrightarrow> bit_at (ws[w := e]) k \<longleftrightarrow> (if k div 64 = w then bit e (k mod 64) else bit_at ws k)"
  by (simp add: bit_at_def nth_list_update)

lemma mod_le_iff: "k div 64 = j div 64 \<Longrightarrow> k mod 64 \<le> j mod 64 \<longleftrightarrow> k \<le> j" for k j :: nat
  using div_mult_mod_eq [of k 64] div_mult_mod_eq [of j 64] by linarith

text \<open>Where a bit lies when a range spans several words.\<close>

lemma block_cases:
  fixes start lst k :: nat
  assumes "start div 64 < lst div 64"
  obtains "k div 64 = start div 64" "k \<le> lst" "k \<le> 63 + 64 * (start div 64)"
  | "k div 64 = lst div 64" "start \<le> k" "64 * (lst div 64) \<le> k"
  | "start div 64 < k div 64" "k div 64 < lst div 64" "start \<le> k" "k \<le> lst"
  | "k div 64 < start div 64" "k < start" | "lst div 64 < k div 64" "lst < k"
proof -
  have lt: "x div 64 < y div 64 \<Longrightarrow> x < y" for x y :: nat by (metis div_le_mono not_le)
  have "k div 64 = j \<Longrightarrow> 64 * j \<le> k \<and> k \<le> 63 + 64 * j" for j
    using div_mult_mod_eq [of k 64] mod_less_divisor [of 64 k] by linarith
  then show thesis using that assms lt [of k lst] lt [of start k] lt [of k start] lt [of lst k] by (metis less_imp_le linorder_neqE_nat)
qed

lemma elem_mask_at:
  "lst div 64 = start div 64 \<Longrightarrow> start \<le> lst \<Longrightarrow> k div 64 = start div 64 \<Longrightarrow>
    bit (elem_mask start lst) (k mod 64) \<longleftrightarrow> start \<le> k \<and> k \<le> lst"
  using mod_le_iff [of start k] mod_le_iff [of k lst] by (simp add: bit_elem_mask)

lemma set_elem_spec:
  assumes "lst div 64 = start div 64" "start \<le> lst"
  obtains e' where "hb_set_elem e start lst = Some (e = 0, e')"
    "\<forall>k. k div 64 = start div 64 \<longrightarrow> (bit e' (k mod 64) \<longleftrightarrow> bit e (k mod 64) \<or> start \<le> k \<and> k \<le> lst)"
proof
  show "hb_set_elem e start lst = Some (e = 0, e OR elem_mask start lst)" using assms by (simp add: hb_set_elem_def)
  show "\<forall>k. k div 64 = start div 64 \<longrightarrow> (bit (e OR elem_mask start lst) (k mod 64) \<longleftrightarrow> bit e (k mod 64) \<or> start \<le> k \<and> k \<le> lst)"
    using assms by (simp add: bit_or_iff elem_mask_at)
qed

lemma reset_elem_spec:
  assumes "lst div 64 = start div 64" "start \<le> lst"
  obtains e' where "hb_reset_elem e start lst = Some (e \<noteq> 0 \<and> e' = 0, e')"
    "\<forall>k. k div 64 = start div 64 \<longrightarrow> (bit e' (k mod 64) \<longleftrightarrow> bit e (k mod 64) \<and> \<not> (start \<le> k \<and> k \<le> lst))"
proof
  show "hb_reset_elem e start lst = Some (e \<noteq> 0 \<and> e AND NOT (elem_mask start lst) = 0, e AND NOT (elem_mask start lst))"
    using assms by (simp add: hb_reset_elem_def)
  show "\<forall>k. k div 64 = start div 64 \<longrightarrow>
    (bit (e AND NOT (elem_mask start lst)) (k mod 64) \<longleftrightarrow> bit e (k mod 64) \<and> \<not> (start \<le> k \<and> k \<le> lst))"
    using assms by (simp add: bit_and_iff bit_not_iff elem_mask_at)
qed

lemma bit_at_filled:
  assumes "p < q" "q < length ws" "length ws1 = length ws" "\<forall>w. ws1 ! w = (if p < w \<and> w < q then v else ws[p := e1] ! w)"
  shows "bit_at (ws1[q := e2]) k \<longleftrightarrow> (if k div 64 = q then bit e2 (k mod 64) else if k div 64 = p then bit e1 (k mod 64)
    else if p < k div 64 \<and> k div 64 < q then bit v (k mod 64) else bit_at ws k)"
proof -
  have "ws1 ! (k div 64) = (if p < k div 64 \<and> k div 64 < q then v else ws[p := e1] ! (k div 64))" using assms(4) by blast
  then show ?thesis using assms(1-3) by (simp add: bit_at_def nth_list_update)
qed

lemma set_words_spec:
  assumes "start \<le> lst" "lst div 64 < length ws"
  shows "\<exists>c ws'. set_words ws start lst = Some (c, ws') \<and> length ws' = length ws \<and>
    (\<forall>k. bit_at ws' k \<longleftrightarrow> bit_at ws k \<or> start \<le> k \<and> k \<le> lst) \<and>
    (c \<longleftrightarrow> (\<exists>w. start div 64 \<le> w \<and> w \<le> lst div 64 \<and> ws ! w = 0))"
proof (cases "start div 64 < lst div 64")
  case False
  then have eq: "lst div 64 = start div 64" using assms(1) div_le_mono [of start lst 64] by simp
  obtain e' where e: "hb_set_elem (ws ! (start div 64)) start lst = Some (ws ! (start div 64) = 0, e')"
    "\<forall>k. k div 64 = start div 64 \<longrightarrow> (bit e' (k mod 64) \<longleftrightarrow> bit (ws ! (start div 64)) (k mod 64) \<or> start \<le> k \<and> k \<le> lst)"
    by (rule set_elem_spec [OF eq assms(1)])
  have out: "start \<le> k \<Longrightarrow> k \<le> lst \<Longrightarrow> k div 64 = start div 64" for k
    using eq div_le_mono [of start k 64] div_le_mono [of k lst 64] by simp
  have "bit_at (ws[start div 64 := e']) k \<longleftrightarrow> bit_at ws k \<or> start \<le> k \<and> k \<le> lst" for k
    using assms(2) eq e(2) out [of k] by (auto simp: bit_at_upd) (auto simp: bit_at_def)
  then show ?thesis using assms(2) eq e(1) by (auto simp: set_words_def Let_def)
next
  case True
  let ?p = "start div 64" and ?q = "lst div 64"
  let ?n = "63 + 64 * ?p"
  have n: "?n div 64 = ?p" "start \<le> ?n" using div_mult_mod_eq [of start 64] mod_less_divisor [of 64 start] by linarith+
  obtain e1 where e1: "hb_set_elem (ws ! ?p) start ?n = Some (ws ! ?p = 0, e1)"
    "\<forall>k. k div 64 = ?p \<longrightarrow> (bit e1 (k mod 64) \<longleftrightarrow> bit (ws ! ?p) (k mod 64) \<or> start \<le> k \<and> k \<le> ?n)"
    by (rule set_elem_spec [OF n])
  obtain ws1 c1 where f: "fill_words (\<lambda>w. w = 0) (- 1) (ws[?p := e1]) (ws ! ?p = 0) ?p (?n + 1) ?q =
      Some (ws1, c1, ?n + 1 + 64 * (?q - Suc ?p), ?q)" "length ws1 = length ws"
    "\<forall>w. ws1 ! w = (if ?p < w \<and> w < ?q then - 1 else ws[?p := e1] ! w)"
    "c1 \<longleftrightarrow> ws ! ?p = 0 \<or> (\<exists>w. ?p < w \<and> w < ?q \<and> ws[?p := e1] ! w = 0)"
    using fill_words_spec [of ?p ?q "ws[?p := e1]" "\<lambda>w. w = 0" "- 1" "ws ! ?p = 0" "?n + 1"] True assms(2) by auto
  have st: "?n + 1 + 64 * (?q - Suc ?p) = 64 * ?q" using True by simp
  have q: "lst div 64 = 64 * ?q div 64" "64 * ?q \<le> lst" by simp_all
  obtain e2 where e2: "hb_set_elem (ws1 ! ?q) (64 * ?q) lst = Some (ws1 ! ?q = 0, e2)"
    "\<forall>k. k div 64 = 64 * ?q div 64 \<longrightarrow> (bit e2 (k mod 64) \<longleftrightarrow> bit (ws1 ! ?q) (k mod 64) \<or> 64 * ?q \<le> k \<and> k \<le> lst)"
    by (rule set_elem_spec [OF q])
  have wq: "ws1 ! ?q = ws ! ?q" using f(3) True by simp
  have "set_words ws start lst = Some (c1 \<or> ws ! ?q = 0, ws1[?q := e2])"
    using True assms(2) e1(1) f(1,2) e2(1) unfolding st by (simp add: set_words_def Let_def or_63 set_fill_def wq)
  moreover have "bit_at (ws1[?q := e2]) k \<longleftrightarrow> bit_at ws k \<or> start \<le> k \<and> k \<le> lst" for k
  proof -
    note r = bit_at_filled [OF True assms(2) f(2,3), of e2 k]
    show ?thesis by (cases rule: block_cases [OF True, of k]; use True r e1(2) e2(2) wq in \<open>auto simp: bit_at_def\<close>)
  qed
  moreover have "c1 \<or> ws ! ?q = 0 \<longleftrightarrow> (\<exists>w. ?p \<le> w \<and> w \<le> ?q \<and> ws ! w = 0)"
    unfolding f(4) using True by (auto simp: le_less)
  ultimately show ?thesis using f(2) by auto
qed

lemma reset_words_single:
  assumes "start \<le> lst" "lst div 64 < length ws" "lst div 64 = start div 64"
  shows "\<exists>c ws'. reset_words ws start lst = Some (c, start div 64, if c then lst div 64 else lst div 64 - 1, ws') \<and> length ws' = length ws \<and>
    (\<forall>k. bit_at ws' k \<longleftrightarrow> bit_at ws k \<and> \<not> (start \<le> k \<and> k \<le> lst)) \<and>
    (\<forall>w. ws' ! w = 0 \<longleftrightarrow> ws ! w = 0 \<or> c \<and> w = start div 64)"
proof -
  let ?p = "start div 64"
  obtain e' where e: "hb_reset_elem (ws ! ?p) start lst = Some (ws ! ?p \<noteq> 0 \<and> e' = 0, e')"
    "\<forall>k. k div 64 = ?p \<longrightarrow> (bit e' (k mod 64) \<longleftrightarrow> bit (ws ! ?p) (k mod 64) \<and> \<not> (start \<le> k \<and> k \<le> lst))"
    by (rule reset_elem_spec [OF assms(3,1)])
  have out: "start \<le> k \<Longrightarrow> k \<le> lst \<Longrightarrow> k div 64 = ?p" for k
    using assms(3) div_le_mono [of start k 64] div_le_mono [of k lst 64] by simp
  have b: "bit_at (ws[?p := e']) k \<longleftrightarrow> bit_at ws k \<and> \<not> (start \<le> k \<and> k \<le> lst)" for k
    using assms(2,3) e(2) out [of k] by (auto simp: bit_at_upd) (auto simp: bit_at_def)
  have "e' = 0" if "ws ! ?p = 0" using b nonzero_bit_at [of "ws[?p := e']" ?p] nonzero_bit_at [of ws ?p] that assms(2,3) by auto
  then show ?thesis using assms(2,3) e(1) b by (auto simp: reset_words_def Let_def nth_list_update)
qed

lemma reset_words_span:
  assumes "start div 64 < lst div 64" "lst div 64 < length ws"
  shows "\<exists>c1 c2 c ws'. reset_words ws start lst =
      Some (c, if c1 then start div 64 else start div 64 + 1, if c2 then lst div 64 else lst div 64 - 1, ws') \<and> length ws' = length ws \<and>
    (\<forall>k. bit_at ws' k \<longleftrightarrow> bit_at ws k \<and> \<not> (start \<le> k \<and> k \<le> lst)) \<and>
    (c \<longleftrightarrow> c1 \<or> c2 \<or> (\<exists>w. start div 64 < w \<and> w < lst div 64 \<and> ws ! w \<noteq> 0)) \<and>
    (c1 \<longleftrightarrow> ws ! (start div 64) \<noteq> 0 \<and> ws' ! (start div 64) = 0) \<and> (c2 \<longleftrightarrow> ws ! (lst div 64) \<noteq> 0 \<and> ws' ! (lst div 64) = 0)"
proof -
  let ?p = "start div 64" and ?q = "lst div 64"
  let ?n = "63 + 64 * ?p"
  have n: "?n div 64 = ?p" "start \<le> ?n" using div_mult_mod_eq [of start 64] mod_less_divisor [of 64 start] by linarith+
  obtain e1 where e1: "hb_reset_elem (ws ! ?p) start ?n = Some (ws ! ?p \<noteq> 0 \<and> e1 = 0, e1)"
    "\<forall>k. k div 64 = ?p \<longrightarrow> (bit e1 (k mod 64) \<longleftrightarrow> bit (ws ! ?p) (k mod 64) \<and> \<not> (start \<le> k \<and> k \<le> ?n))"
    by (rule reset_elem_spec [OF n])
  define c1 where "c1 \<longleftrightarrow> ws ! ?p \<noteq> 0 \<and> e1 = 0"
  obtain ws1 c where f: "fill_words (\<lambda>w. w \<noteq> 0) 0 (ws[?p := e1]) c1 ?p (?n + 1) ?q = Some (ws1, c, ?n + 1 + 64 * (?q - Suc ?p), ?q)"
    "length ws1 = length ws" "\<forall>w. ws1 ! w = (if ?p < w \<and> w < ?q then 0 else ws[?p := e1] ! w)"
    "c \<longleftrightarrow> c1 \<or> (\<exists>w. ?p < w \<and> w < ?q \<and> ws[?p := e1] ! w \<noteq> 0)"
    using fill_words_spec [of ?p ?q "ws[?p := e1]" "\<lambda>w. w \<noteq> 0" 0 c1 "?n + 1"] assms by auto
  have st: "?n + 1 + 64 * (?q - Suc ?p) = 64 * ?q" using assms(1) by simp
  have q: "lst div 64 = 64 * ?q div 64" "64 * ?q \<le> lst" by simp_all
  obtain e2 where e2: "hb_reset_elem (ws1 ! ?q) (64 * ?q) lst = Some (ws1 ! ?q \<noteq> 0 \<and> e2 = 0, e2)"
    "\<forall>k. k div 64 = 64 * ?q div 64 \<longrightarrow> (bit e2 (k mod 64) \<longleftrightarrow> bit (ws1 ! ?q) (k mod 64) \<and> \<not> (64 * ?q \<le> k \<and> k \<le> lst))"
    by (rule reset_elem_spec [OF q])
  have wq: "ws1 ! ?q = ws ! ?q" using f(3) assms(1) by simp
  define c2 ws2 where "c2 \<longleftrightarrow> ws ! ?q \<noteq> 0 \<and> e2 = 0" and "ws2 = ws1[?q := e2]"
  have R: "reset_words ws start lst = Some (c \<or> c2, if c1 then ?p else ?p + 1, if c2 then ?q else ?q - 1, ws2)"
    using assms e1(1) f(1,2) e2(1) unfolding st c1_def [symmetric] wq c2_def [symmetric] ws2_def
    by (simp add: reset_words_def Let_def or_63 reset_fill_def wq)
  have B: "bit_at ws2 k \<longleftrightarrow> bit_at ws k \<and> \<not> (start \<le> k \<and> k \<le> lst)" for k
  proof -
    note r = bit_at_filled [OF assms f(2,3), of e2 k]
    show ?thesis unfolding ws2_def
      by (cases rule: block_cases [OF assms(1), of k]; use assms(1) r e1(2) e2(2) wq in \<open>auto simp: bit_at_def\<close>)
  qed
  have C: "c \<or> c2 \<longleftrightarrow> c1 \<or> c2 \<or> (\<exists>w. ?p < w \<and> w < ?q \<and> ws ! w \<noteq> 0)" unfolding f(4) by auto
  have L: "length ws2 = length ws" "c1 \<longleftrightarrow> ws ! ?p \<noteq> 0 \<and> ws2 ! ?p = 0" "c2 \<longleftrightarrow> ws ! ?q \<noteq> 0 \<and> ws2 ! ?q = 0"
    using assms f(2,3) by (simp_all add: ws2_def c1_def c2_def)
  show ?thesis using R B C L by blast
qed

text \<open>What the level above needs: which words became zero, as a range.\<close>

lemma reset_words_spec:
  assumes "start \<le> lst" "lst div 64 < length ws"
  shows "\<exists>c p q ws'. reset_words ws start lst = Some (c, p, q, ws') \<and> length ws' = length ws \<and>
    (\<forall>k. bit_at ws' k \<longleftrightarrow> bit_at ws k \<and> \<not> (start \<le> k \<and> k \<le> lst)) \<and>
    (c \<longrightarrow> p \<le> q \<and> q \<le> lst div 64) \<and> (\<forall>w. ws' ! w = 0 \<longleftrightarrow> ws ! w = 0 \<or> c \<and> p \<le> w \<and> w \<le> q)"
proof (cases "start div 64 < lst div 64")
  case False
  then have eq: "lst div 64 = start div 64" using assms(1) div_le_mono [of start lst 64] by simp
  from reset_words_single [OF assms eq] obtain c ws' where
    "reset_words ws start lst = Some (c, start div 64, if c then lst div 64 else lst div 64 - 1, ws')" "length ws' = length ws"
    "\<forall>k. bit_at ws' k \<longleftrightarrow> bit_at ws k \<and> \<not> (start \<le> k \<and> k \<le> lst)" "\<forall>w. ws' ! w = 0 \<longleftrightarrow> ws ! w = 0 \<or> c \<and> w = start div 64" by blast
  then show ?thesis using eq by auto
next
  case True
  let ?p = "start div 64" and ?q = "lst div 64"
  from reset_words_span [OF True assms(2)] obtain c1 c2 c ws' where
    r: "reset_words ws start lst = Some (c, if c1 then ?p else ?p + 1, if c2 then ?q else ?q - 1, ws')" "length ws' = length ws" and
    b: "\<forall>k. bit_at ws' k \<longleftrightarrow> bit_at ws k \<and> \<not> (start \<le> k \<and> k \<le> lst)" and
    c: "c \<longleftrightarrow> c1 \<or> c2 \<or> (\<exists>w. ?p < w \<and> w < ?q \<and> ws ! w \<noteq> 0)"
    "c1 \<longleftrightarrow> ws ! ?p \<noteq> 0 \<and> ws' ! ?p = 0" "c2 \<longleftrightarrow> ws ! ?q \<noteq> 0 \<and> ws' ! ?q = 0" by blast
  have mono: "ws ! w = 0 \<Longrightarrow> ws' ! w = 0" for w using b nonzero_bit_at [of ws w] nonzero_bit_at [of ws' w] by auto
  have mid: "ws' ! w = 0" if "?p < w" "w < ?q" for w
  proof -
    have "start \<le> k \<and> k \<le> lst" if "k div 64 = w" for k using that \<open>?p < w\<close> \<open>w < ?q\<close> by (metis div_le_mono less_imp_le not_le)
    then show ?thesis using b nonzero_bit_at [of ws' w] by blast
  qed
  have out: "ws' ! w = 0 \<Longrightarrow> ws ! w = 0" if "w < ?p \<or> ?q < w" for w
  proof -
    have "\<not> (start \<le> k \<and> k \<le> lst)" if "k div 64 = w" for k using that \<open>w < ?p \<or> ?q < w\<close> by (metis div_le_mono not_le)
    then show "ws' ! w = 0 \<Longrightarrow> ws ! w = 0" using b nonzero_bit_at [of ws' w] nonzero_bit_at [of ws w] by blast
  qed
  let ?P = "if c1 then ?p else ?p + 1" and ?Q = "if c2 then ?q else ?q - 1"
  have rng: "c \<longrightarrow> ?P \<le> ?Q \<and> ?Q \<le> ?q" using c(1) True by auto
  have "ws' ! w = 0 \<longleftrightarrow> ws ! w = 0 \<or> c \<and> ?P \<le> w \<and> w \<le> ?Q" for w
  proof -
    consider "w < ?p \<or> ?q < w" | "w = ?p" | "w = ?q" | "?p < w" "w < ?q" by linarith
    then show ?thesis
    proof cases
      case 1
      then show ?thesis using mono [of w] out [of w] True by auto
    next
      case 4
      then show ?thesis using mid [of w] c(1) by auto
    qed (use True c mono [of w] in auto)
  qed
  with r b rng show ?thesis by blast
qed

end
