(* ===== verification/Hbitmap_Levels.thy ===== *)
theory Hbitmap_Levels
  imports Hbitmap
begin

text \<open>
  The invariant of the stacked levels of a hierarchical bitmap, and that setting and resetting a range
  keeps it.
\<close>

text \<open>Level \<open>i\<close> summarises level \<open>i + 1\<close>; the top bit of the first level is the end marker of the
  iteration.\<close>

definition marker :: "nat \<Rightarrow> nat \<Rightarrow> bool" where
  "marker i k \<longleftrightarrow> i = 0 \<and> k = 63"

definition link :: "u64 list list \<Rightarrow> nat \<Rightarrow> bool" where
  "link lv i \<longleftrightarrow> (\<forall>k < 64 * length (lv ! i). bit_at (lv ! i) k \<longleftrightarrow> marker i k \<or> k < length (lv ! Suc i) \<and> lv ! Suc i ! k \<noteq> 0)"

definition shape :: "u64 list list \<Rightarrow> bool" where
  "shape lv \<longleftrightarrow> length lv = 7 \<and> length (lv ! 0) = 1 \<and> length (lv ! 1) \<le> 32 \<and> (\<forall>i < 6. length (lv ! Suc i) \<le> 64 * length (lv ! i))"

lemma same_length: "map length lv' = map length lv \<Longrightarrow> i < length lv \<Longrightarrow> length (lv' ! i) = length (lv ! i)"
  by (metis length_map nth_map)

lemma shape_cong: "map length lv' = map length lv \<Longrightarrow> shape lv' \<longleftrightarrow> shape lv"
  using same_length [of lv' lv] map_eq_imp_length_eq [of length lv' length lv] by (auto simp: shape_def)

lemma words_of_range:
  fixes start lst w :: nat
  assumes "start \<le> lst"
  shows "(\<exists>k. k div 64 = w \<and> start \<le> k \<and> k \<le> lst) \<longleftrightarrow> start div 64 \<le> w \<and> w \<le> lst div 64"
proof
  assume "start div 64 \<le> w \<and> w \<le> lst div 64"
  then have "max start (64 * w) div 64 = w \<and> start \<le> max start (64 * w) \<and> max start (64 * w) \<le> lst"
    using assms by (auto simp: max_def)
  then show "\<exists>k. k div 64 = w \<and> start \<le> k \<and> k \<le> lst" by blast
qed (auto intro: div_le_mono)

lemma link_upd_other: "i \<noteq> l \<Longrightarrow> Suc i \<noteq> l \<Longrightarrow> link (lv[l := ws]) i \<longleftrightarrow> link lv i"
  by (simp add: link_def)

lemma shape_upd: "shape lv \<Longrightarrow> l < 7 \<Longrightarrow> length ws = length (lv ! l) \<Longrightarrow> map length (lv[l := ws]) = map length lv"
  by (simp add: map_update shape_def) (metis list_update_id map_update)

lemma set_between_spec:
  "shape lv \<Longrightarrow> l \<le> 6 \<Longrightarrow> start \<le> lst \<Longrightarrow> lst < 64 * length (lv ! l) \<Longrightarrow> \<forall>i < l. link lv i \<Longrightarrow>
    \<exists>lv'. hb_set_between lv l start lst = Some lv' \<and> map length lv' = map length lv \<and> (\<forall>i < l. link lv' i) \<and>
      (\<forall>i > l. lv' ! i = lv ! i) \<and> (\<forall>k. bit_at (lv' ! l) k \<longleftrightarrow> bit_at (lv ! l) k \<or> start \<le> k \<and> k \<le> lst)"
proof (induction l arbitrary: lv start lst)
  case (0 lv start lst)
  obtain c ws where w: "set_words (lv ! 0) start lst = Some (c, ws)" "length ws = length (lv ! 0)"
    "\<forall>k. bit_at ws k \<longleftrightarrow> bit_at (lv ! 0) k \<or> start \<le> k \<and> k \<le> lst"
    using set_words_spec [OF 0(3), of "lv ! 0"] 0(4) by (auto simp: less_mult_imp_div_less mult.commute)
  have "length lv = 7" using 0(1) by (simp add: shape_def)
  then show ?case using w shape_upd [OF 0(1) _ w(2)]
    by (subst hb_set_between.simps) auto
next
  case (Suc l lv start lst)
  let ?p = "start div 64" and ?q = "lst div 64" and ?ws = "lv ! Suc l"
  have q: "?q < length ?ws" using Suc.prems(4) by (simp add: less_mult_imp_div_less mult.commute)
  obtain c ws where w: "set_words ?ws start lst = Some (c, ws)" "length ws = length ?ws"
    "\<forall>k. bit_at ws k \<longleftrightarrow> bit_at ?ws k \<or> start \<le> k \<and> k \<le> lst" "c \<longleftrightarrow> (\<exists>w. ?p \<le> w \<and> w \<le> ?q \<and> ?ws ! w = 0)"
    using set_words_spec [OF Suc.prems(3) q] by blast
  have len: "length lv = 7" "length ?ws \<le> 64 * length (lv ! l)" using Suc.prems(1,2) by (simp_all add: shape_def)
  have l: "Suc l < length lv" "l < length lv" using Suc.prems(2) len by simp_all
  have nz: "ws ! x \<noteq> 0 \<longleftrightarrow> ?ws ! x \<noteq> 0 \<or> ?p \<le> x \<and> x \<le> ?q" for x
    unfolding nonzero_bit_at words_of_range [OF Suc.prems(3), symmetric] using w(3) by blast
  let ?lv = "lv[Suc l := ws]"
  have sh: "map length ?lv = map length lv" using shape_upd [OF Suc.prems(1) _ w(2)] Suc.prems(2) by simp
  have lk: "link lv l" using Suc.prems(5) by simp
  have old: "\<forall>i < l. link ?lv i" using Suc.prems(5) by (simp add: link_upd_other)
  show ?case
  proof (cases c)
    case False
    then have "ws ! x \<noteq> 0 \<longleftrightarrow> ?ws ! x \<noteq> 0" for x using nz w(4) by blast
    then have "link ?lv l" using lk l w(2) by (simp add: link_def)
    then have "\<forall>i < Suc l. link ?lv i" using old by (simp add: less_Suc_eq)
    then show ?thesis using w(1,3) False l sh by (subst hb_set_between.simps) simp
  next
    case True
    have "?p \<le> ?q" "?q < 64 * length (?lv ! l)" using Suc.prems(3) q len(2) by (auto intro: div_le_mono)
    from Suc.IH [OF _ _ this old] sh Suc.prems(1,2) obtain lv' where r: "hb_set_between ?lv l ?p ?q = Some lv'"
      "map length lv' = map length ?lv" "\<forall>i < l. link lv' i" "\<forall>i > l. lv' ! i = ?lv ! i"
      "\<forall>k. bit_at (lv' ! l) k \<longleftrightarrow> bit_at (?lv ! l) k \<or> ?p \<le> k \<and> k \<le> ?q"
      by (auto simp: shape_cong [OF sh])
    have up: "lv' ! Suc l = ws" using r(4) l by simp
    have ll: "length (lv' ! l) = length (lv ! l)" using same_length [OF r(2), of l] l by simp
    have "link lv' l" unfolding link_def up ll
    proof (intro allI impI)
      fix k assume "k < 64 * length (lv ! l)"
      then have "bit_at (lv ! l) k \<longleftrightarrow> marker l k \<or> k < length ?ws \<and> ?ws ! k \<noteq> 0" using lk by (simp add: link_def)
      then show "bit_at (lv' ! l) k \<longleftrightarrow> marker l k \<or> k < length ws \<and> ws ! k \<noteq> 0"
        using r(5) nz [of k] q w(2) by auto
    qed
    then have "\<forall>i < Suc l. link lv' i" using r(3) by (simp add: less_Suc_eq)
    then show ?thesis using w(1,3) True l r(1,2,4) sh up by (subst hb_set_between.simps) simp
  qed
qed

lemma reset_between_spec:
  "shape lv \<Longrightarrow> l \<le> 6 \<Longrightarrow> start \<le> lst \<Longrightarrow> lst < 64 * length (lv ! l) \<Longrightarrow> \<forall>i < l. link lv i \<Longrightarrow>
    \<exists>lv'. hb_reset_between lv l start lst = Some lv' \<and> map length lv' = map length lv \<and> (\<forall>i < l. link lv' i) \<and>
      (\<forall>i > l. lv' ! i = lv ! i) \<and> (\<forall>k. bit_at (lv' ! l) k \<longleftrightarrow> bit_at (lv ! l) k \<and> \<not> (start \<le> k \<and> k \<le> lst))"
proof (induction l arbitrary: lv start lst)
  case (0 lv start lst)
  obtain c p q ws where w: "reset_words (lv ! 0) start lst = Some (c, p, q, ws)" "length ws = length (lv ! 0)"
    "\<forall>k. bit_at ws k \<longleftrightarrow> bit_at (lv ! 0) k \<and> \<not> (start \<le> k \<and> k \<le> lst)"
    using reset_words_spec [OF 0(3), of "lv ! 0"] 0(4) by (auto simp: less_mult_imp_div_less mult.commute)
  have "length lv = 7" using 0(1) by (simp add: shape_def)
  then show ?case using w shape_upd [OF 0(1) _ w(2)] by (subst hb_reset_between.simps) auto
next
  case (Suc l lv start lst)
  let ?ws = "lv ! Suc l"
  have lst: "lst div 64 < length ?ws" using Suc.prems(4) by (simp add: less_mult_imp_div_less mult.commute)
  obtain c p q ws where w: "reset_words ?ws start lst = Some (c, p, q, ws)" "length ws = length ?ws"
    "\<forall>k. bit_at ws k \<longleftrightarrow> bit_at ?ws k \<and> \<not> (start \<le> k \<and> k \<le> lst)" "c \<longrightarrow> p \<le> q \<and> q \<le> lst div 64"
    "\<forall>x. ws ! x = 0 \<longleftrightarrow> ?ws ! x = 0 \<or> c \<and> p \<le> x \<and> x \<le> q"
    using reset_words_spec [OF Suc.prems(3) lst] by blast
  have len: "length lv = 7" "length ?ws \<le> 64 * length (lv ! l)" "l = 0 \<longrightarrow> length ?ws \<le> 32"
    using Suc.prems(1,2) by (auto simp: shape_def)
  have l: "Suc l < length lv" "l < length lv" using Suc.prems(2) len by simp_all
  let ?lv = "lv[Suc l := ws]"
  have sh: "map length ?lv = map length lv" using shape_upd [OF Suc.prems(1) _ w(2)] Suc.prems(2) by simp
  have lk: "link lv l" using Suc.prems(5) by simp
  have old: "\<forall>i < l. link ?lv i" using Suc.prems(5) by (simp add: link_upd_other)
  show ?case
  proof (cases c)
    case False
    then have "link ?lv l" using lk l w(2,5) by (simp add: link_def)
    then have "\<forall>i < Suc l. link ?lv i" using old by (simp add: less_Suc_eq)
    then show ?thesis using w(1,3) False l sh by (subst hb_reset_between.simps) simp
  next
    case True
    have q: "p \<le> q" "q < 64 * length (?lv ! l)" "q < length ?ws" using True w(4) lst len(2) by simp_all
    from Suc.IH [OF _ _ q(1,2) old] sh Suc.prems(1,2) obtain lv' where r: "hb_reset_between ?lv l p q = Some lv'"
      "map length lv' = map length ?lv" "\<forall>i < l. link lv' i" "\<forall>i > l. lv' ! i = ?lv ! i"
      "\<forall>k. bit_at (lv' ! l) k \<longleftrightarrow> bit_at (?lv ! l) k \<and> \<not> (p \<le> k \<and> k \<le> q)"
      by (auto simp: shape_cong [OF sh])
    have up: "lv' ! Suc l = ws" using r(4) l by simp
    have ll: "length (lv' ! l) = length (lv ! l)" using same_length [OF r(2), of l] l by simp
    have "link lv' l" unfolding link_def up ll
    proof (intro allI impI)
      fix k assume "k < 64 * length (lv ! l)"
      then have "bit_at (lv ! l) k \<longleftrightarrow> marker l k \<or> k < length ?ws \<and> ?ws ! k \<noteq> 0" using lk by (simp add: link_def)
      moreover have "marker l k \<Longrightarrow> \<not> k \<le> q" using q(3) len(3) by (auto simp: marker_def)
      ultimately show "bit_at (lv' ! l) k \<longleftrightarrow> marker l k \<or> k < length ws \<and> ws ! k \<noteq> 0"
        using r(5) w(2,5) True by auto
    qed
    then have "\<forall>i < Suc l. link lv' i" using r(3) by (simp add: less_Suc_eq)
    then show ?thesis using w(1,3) True l r(1,2,4) sh up by (subst hb_reset_between.simps) simp
  qed
qed

subsection \<open>Well-formed bitmaps\<close>

definition bits :: "u64 list list \<Rightarrow> nat set" where
  "bits lv = {k. k < 64 * length (lv ! 6) \<and> bit_at (lv ! 6) k}"

definition tree_ok :: "u64 list list \<Rightarrow> bool" where
  "tree_ok lv \<longleftrightarrow> shape lv \<and> (\<forall>i < 6. link lv i)"

lemma finite_bits [simp]: "finite (bits lv)"
  by (simp add: bits_def)

lemma set_between_tree:
  assumes "tree_ok lv" "start \<le> lst" "lst < 64 * length (lv ! 6)"
  shows "\<exists>lv'. hb_set_between lv 6 start lst = Some lv' \<and> tree_ok lv' \<and> length (lv' ! 6) = length (lv ! 6) \<and>
    bits lv' = bits lv \<union> {start..lst}"
proof -
  obtain lv' where r: "hb_set_between lv 6 start lst = Some lv'" "map length lv' = map length lv" "\<forall>i < 6. link lv' i"
    "\<forall>k. bit_at (lv' ! 6) k \<longleftrightarrow> bit_at (lv ! 6) k \<or> start \<le> k \<and> k \<le> lst"
    using set_between_spec [of lv 6 start lst] assms by (auto simp: tree_ok_def)
  moreover have "length (lv' ! 6) = length (lv ! 6)" using same_length [OF r(2), of 6] assms(1) by (simp add: tree_ok_def shape_def)
  ultimately show ?thesis using assms by (auto simp: tree_ok_def bits_def shape_cong [OF r(2)])
qed

lemma reset_between_tree:
  assumes "tree_ok lv" "start \<le> lst" "lst < 64 * length (lv ! 6)"
  shows "\<exists>lv'. hb_reset_between lv 6 start lst = Some lv' \<and> tree_ok lv' \<and> length (lv' ! 6) = length (lv ! 6) \<and>
    bits lv' = bits lv - {start..lst}"
proof -
  obtain lv' where r: "hb_reset_between lv 6 start lst = Some lv'" "map length lv' = map length lv" "\<forall>i < 6. link lv' i"
    "\<forall>k. bit_at (lv' ! 6) k \<longleftrightarrow> bit_at (lv ! 6) k \<and> \<not> (start \<le> k \<and> k \<le> lst)"
    using reset_between_spec [of lv 6 start lst] assms by (auto simp: tree_ok_def)
  moreover have "length (lv' ! 6) = length (lv ! 6)" using same_length [OF r(2), of 6] assms(1) by (simp add: tree_ok_def shape_def)
  ultimately show ?thesis using assms by (auto simp: tree_ok_def bits_def shape_cong [OF r(2)])
qed

lemma div_pow_Suc: "k div 64 ^ Suc h = k div 64 ^ h div 64" for k :: nat
  by (simp only: power_Suc2 div_mult2_eq)

text \<open>The ancestors of a set bit are set.\<close>

lemma ancestor_set:
  assumes t: "tree_ok lv" and k: "k \<in> bits lv"
  shows "h \<le> 6 \<Longrightarrow> bit_at (lv ! (6 - h)) (k div 64 ^ h) \<and> k div 64 ^ h < 64 * length (lv ! (6 - h))"
proof (induction h)
  case 0
  then show ?case using k by (simp add: bits_def)
next
  case (Suc h)
  let ?i = "6 - Suc h" and ?x = "k div 64 ^ h"
  have i: "Suc ?i = 6 - h" "?i < 6" using Suc.prems by simp_all
  have x: "bit_at (lv ! Suc ?i) ?x" "?x < 64 * length (lv ! Suc ?i)" using Suc i by simp_all
  have w: "?x div 64 < length (lv ! Suc ?i)" using x(2) by (simp add: less_mult_imp_div_less mult.commute)
  also have "\<dots> \<le> 64 * length (lv ! ?i)" using t i by (auto simp: tree_ok_def shape_def)
  finally have b: "?x div 64 < 64 * length (lv ! ?i)" .
  have "lv ! Suc ?i ! (?x div 64) \<noteq> 0" using x(1) by (auto simp: nonzero_bit_at)
  then have "bit_at (lv ! ?i) (?x div 64)" using t i(2) w b by (auto simp: tree_ok_def link_def)
  then show ?case using b by (simp only: div_pow_Suc simp_thms)
qed

end
