(* ===== verification/Hbitmap_Iter.thy ===== *)
theory Hbitmap_Iter
  imports Hbitmap_Levels
begin

text \<open>
  Iteration over a hierarchical bitmap: what an iterator still has to visit, and that every step
  visits the next part of it.
\<close>

subsection \<open>The lowest set bit\<close>

lemma ctzl_lowest:
  assumes "c \<noteq> 0"
  shows "ctzl c < 64" "bit c (ctzl c)" "b < ctzl c \<Longrightarrow> \<not> bit c b"
proof -
  obtain k where k: "k < 64" "bit c k" using assms by (auto simp: word_nonzero_bit)
  let ?t = "takeWhile (\<lambda>i. \<not> bit c i) [0..<64]"
  have "length ?t \<noteq> length [0 :: nat..<64]"
  proof
    assume "length ?t = length [0 :: nat..<64]"
    then have "?t = [0..<64]" by (metis takeWhile_eq_take take_all order_refl)
    then have "\<forall>i \<in> set [0..<64]. \<not> bit c i" by (metis takeWhile_eq_all_conv)
    then show False using k by simp
  qed
  moreover have "length ?t \<le> length [0 :: nat..<64]" by (rule length_takeWhile_le)
  ultimately have l: "length ?t < length [0 :: nat..<64]" by linarith
  then show "ctzl c < 64" by (simp add: ctzl_def)
  show "bit c (ctzl c)" using nth_length_takeWhile [OF l] l by (simp add: ctzl_def)
  show "b < ctzl c \<Longrightarrow> \<not> bit c b" using l nth_mem [of b ?t] set_takeWhileD [of "?t ! b" "\<lambda>i. \<not> bit c i" "[0..<64]"]
    by (auto simp: ctzl_def takeWhile_nth)
qed

lemma bit_single: "n < 64 \<Longrightarrow> bit (push_bit n 1 :: u64) k \<longleftrightarrow> k = n"
  by (auto simp: bit_simps)

lemma bit_clear_lowest:
  fixes c :: u64
  assumes "c \<noteq> 0"
  shows "bit (c AND (c - 1)) b \<longleftrightarrow> bit c b \<and> b \<noteq> ctzl c"
proof -
  let ?z = "ctzl c"
  note z = ctzl_lowest [OF assms]
  define e where "e = c AND NOT (push_bit ?z 1)"
  note bp = bit_single [OF z(1)]
  have be: "bit e k \<longleftrightarrow> bit c k \<and> k \<noteq> ?z" for k
    using bp [of k] by (auto simp: e_def bit_and_iff bit_not_iff dest: bit_imp_le_length)
  have "c = e OR push_bit ?z 1" by (rule bit_word_eqI) (use be bp z(2) in \<open>auto simp: bit_or_iff\<close>)
  also have "\<dots> = e + push_bit ?z 1"
    by (rule disjunctive_add_eq_or [symmetric], rule bit_word_eqI) (use be bp in \<open>auto simp: bit_and_iff\<close>)
  finally have "c - 1 = e + mask ?z" by (simp add: mask_eq_decr_exp push_bit_eq_mult)
  also have "\<dots> = e OR mask ?z"
  proof (rule disjunctive_add_eq_or, rule bit_word_eqI)
    fix k assume "k < LENGTH(64)"
    show "bit (e AND mask ?z) k = bit (0 :: u64) k" using be [of k] z(3) [of k] by (auto simp: bit_and_iff bit_mask_iff)
  qed
  finally have "bit (c - 1) b \<longleftrightarrow> bit e b \<or> b < ?z" using z(1) by (auto simp: bit_or_iff bit_mask_iff)
  then show ?thesis using be [of b] z(3) [of b] by (auto simp: bit_and_iff)
qed

subsection \<open>What is left to visit\<close>

text \<open>The bit of a bottom bit \<open>k\<close> at level \<open>j\<close>, and the word at level \<open>j\<close> on the path to the
  word \<open>pos\<close> of level \<open>i\<close>.\<close>

definition node :: "nat \<Rightarrow> nat \<Rightarrow> nat" where
  "node k j = k div 64 ^ (6 - j)"

definition path :: "nat \<Rightarrow> nat \<Rightarrow> nat \<Rightarrow> nat" where
  "path i pos j = pos div 64 ^ (i - j)"

lemma node_6 [simp]: "node k 6 = k"
  by (simp add: node_def)

lemma node_Suc: "j < 6 \<Longrightarrow> node k j = node k (Suc j) div 64"
  unfolding node_def by (metis Suc_diff_Suc div_pow_Suc)

lemma path_same [simp]: "path i pos i = pos"
  by (simp add: path_def)

lemma path_step: "j < i \<Longrightarrow> path i pos j = path i pos (Suc j) div 64"
  unfolding path_def by (metis Suc_diff_Suc div_pow_Suc)

lemma path_Suc: "j \<le> i \<Longrightarrow> path (Suc i) pos j = path i (pos div 64) j"
proof -
  assume "j \<le> i"
  then have "Suc i - j = Suc (i - j)" by simp
  then show ?thesis unfolding path_def by (simp add: div_mult2_eq)
qed

definition path_ok :: "u64 list list \<Rightarrow> u64 list \<Rightarrow> nat \<Rightarrow> nat \<Rightarrow> bool" where
  "path_ok lv curs i pos \<longleftrightarrow> pos < length (lv ! i) \<and>
     (\<forall>j < i. \<forall>b. bit (curs ! j) b \<longrightarrow> bit_at (lv ! j) (64 * path i pos j + b) \<and> path i pos (Suc j) mod 64 < b)"

definition left :: "u64 list list \<Rightarrow> u64 list \<Rightarrow> nat \<Rightarrow> nat \<Rightarrow> u64 \<Rightarrow> nat set" where
  "left lv curs i pos c =
     {k \<in> bits lv. node k i div 64 = pos \<and> bit c (node k i mod 64)} \<union>
     {k \<in> bits lv. \<exists>j < i. node k j div 64 = path i pos j \<and> bit (curs ! j) (node k j mod 64)}"

definition word_ok :: "u64 list list \<Rightarrow> nat \<Rightarrow> nat \<Rightarrow> u64 \<Rightarrow> bool" where
  "word_ok lv i pos c \<longleftrightarrow> (\<forall>b. bit c b \<longrightarrow> bit_at (lv ! i) (64 * pos + b))"

lemma bit_word_less: "bit (c :: u64) b \<Longrightarrow> b < 64"
  using bit_imp_le_length by fastforce

lemma word_ok_word: "word_ok lv i pos (lv ! i ! pos)"
  unfolding word_ok_def using bit_word_less bit_at_word by blast

lemma node_set: "tree_ok lv \<Longrightarrow> k \<in> bits lv \<Longrightarrow> j \<le> 6 \<Longrightarrow> bit_at (lv ! j) (node k j) \<and> node k j < 64 * length (lv ! j)"
  using ancestor_set [of lv k "6 - j"] by (simp add: node_def)

text \<open>One step down keeps what is left.\<close>

lemma down_step:
  assumes t: "tree_ok lv" and i: "i < 6" and c: "c \<noteq> 0" "word_ok lv i pos c" "\<not> marker i (64 * pos + ctzl c)"
    and p: "path_ok lv curs i pos" and l: "length curs = 7"
  defines "pos' \<equiv> 64 * pos + ctzl c" and "curs' \<equiv> curs[i := c AND (c - 1)]"
  shows "pos' < length (lv ! Suc i)" "lv ! Suc i ! pos' \<noteq> 0" "path_ok lv curs' (Suc i) pos'"
    "word_ok lv (Suc i) pos' (lv ! Suc i ! pos')" "left lv curs' (Suc i) pos' (lv ! Suc i ! pos') = left lv curs i pos c"
proof -
  note z = ctzl_lowest [OF c(1)]
  have pos: "pos < length (lv ! i)" using p by (simp add: path_ok_def)
  have "bit_at (lv ! i) pos'" using c(2) z(2) by (simp add: word_ok_def pos'_def)
  moreover have "pos' < 64 * length (lv ! i)" using pos z(1) by (simp add: pos'_def)
  ultimately show n: "pos' < length (lv ! Suc i)" "lv ! Suc i ! pos' \<noteq> 0"
    using t i c(3) by (auto simp: tree_ok_def link_def pos'_def)
  show "word_ok lv (Suc i) pos' (lv ! Suc i ! pos')"
    by (rule word_ok_word)
  have d: "pos' div 64 = pos" "pos' mod 64 = ctzl c" using z(1) by (simp_all add: pos'_def)
  have P: "path (Suc i) pos' j = path i pos j" if "j \<le> i" for j using path_Suc [OF that, of pos'] d by simp
  have C: "curs' ! j = (if j = i then c AND (c - 1) else curs ! j)" for j using i l by (simp add: curs'_def nth_list_update)
  show "path_ok lv curs' (Suc i) pos'" unfolding path_ok_def
  proof (intro conjI allI impI)
    fix j b assume j: "j < Suc i" and b: "bit (curs' ! j) b"
    show "bit_at (lv ! j) (64 * path (Suc i) pos' j + b)"
      using j b p c P [of j] by (cases "j = i") (auto simp: C bit_clear_lowest word_ok_def path_ok_def)
    show "path (Suc i) pos' (Suc j) mod 64 < b"
    proof (cases "j = i")
      case True
      then show ?thesis using b d z(3) [of b] c(1) by (auto simp: C bit_clear_lowest linorder_neq_iff)
    next
      case False
      then show ?thesis using j b p P [of "Suc j"] by (auto simp: C path_ok_def)
    qed
  qed (rule n(1))
  have top: "node k i div 64 = pos \<and> bit c (node k i mod 64) \<longleftrightarrow>
      node k (Suc i) div 64 = pos' \<and> bit (lv ! Suc i ! pos') (node k (Suc i) mod 64) \<or>
      node k i div 64 = pos \<and> bit (c AND (c - 1)) (node k i mod 64)" if k: "k \<in> bits lv" for k
  proof -
    have a: "bit (lv ! Suc i ! (node k (Suc i) div 64)) (node k (Suc i) mod 64)"
      using node_set [OF t k, of "Suc i"] i by (simp add: bit_at_def)
    have n: "node k (Suc i) div 64 = node k i" using node_Suc [OF i] by simp
    have e: "node k i = pos' \<longleftrightarrow> node k i div 64 = pos \<and> node k i mod 64 = ctzl c"
      using d by (metis div_mult_mod_eq)
    have "node k i = pos' \<Longrightarrow> bit (lv ! Suc i ! pos') (node k (Suc i) mod 64)" "node k i mod 64 = ctzl c \<Longrightarrow> bit c (node k i mod 64)"
      using a n z(2) by simp_all
    then show ?thesis unfolding n bit_clear_lowest [OF c(1)] using e by blast
  qed
  have rest: "(\<exists>j < Suc i. node k j div 64 = path (Suc i) pos' j \<and> bit (curs' ! j) (node k j mod 64)) \<longleftrightarrow>
      node k i div 64 = pos \<and> bit (c AND (c - 1)) (node k i mod 64) \<or>
      (\<exists>j < i. node k j div 64 = path i pos j \<and> bit (curs ! j) (node k j mod 64))" for k
  proof -
    have "j < i \<and> node k j div 64 = path (Suc i) pos' j \<and> bit (curs' ! j) (node k j mod 64) \<longleftrightarrow>
        j < i \<and> node k j div 64 = path i pos j \<and> bit (curs ! j) (node k j mod 64)" for j using P [of j] C [of j] by auto
    then show ?thesis using P [of i] C [of i] unfolding Ex_less_Suc by simp
  qed
  show "left lv curs' (Suc i) pos' (lv ! Suc i ! pos') = left lv curs i pos c"
    unfolding left_def using top rest by blast
qed

lemma skip_down_spec:
  assumes t: "tree_ok lv"
  shows "i \<le> 6 \<Longrightarrow> c \<noteq> 0 \<Longrightarrow> word_ok lv i pos c \<Longrightarrow> \<not> marker i (64 * pos + ctzl c) \<Longrightarrow> path_ok lv curs i pos \<Longrightarrow>
    length curs = 7 \<Longrightarrow>
    \<exists>curs' pos' c'. skip_down lv curs i pos c = Some (curs', pos', c') \<and> c' \<noteq> 0 \<and> word_ok lv 6 pos' c' \<and> path_ok lv curs' 6 pos' \<and>
      length curs' = 7 \<and> left lv curs' 6 pos' c' = left lv curs i pos c \<and>
      curs' ! 0 = (if i = 0 then c AND (c - 1) else curs ! 0)"
proof (induction "6 - i" arbitrary: i pos c curs)
  case 0
  then have "i = 6" by simp
  then show ?case using 0 by (subst skip_down.simps) simp
next
  case (Suc n)
  let ?pos = "64 * pos + ctzl c" and ?curs = "curs[i := c AND (c - 1)]"
  have i: "i < 6" "n = 6 - Suc i" using Suc.hyps(2) by simp_all
  note d = down_step [OF t i(1) Suc.prems(2,3,4,5,6)]
  have m: "\<not> marker (Suc i) x" for x by (simp add: marker_def)
  have s: "skip_down lv curs i pos c = skip_down lv ?curs (Suc i) ?pos (lv ! Suc i ! ?pos)"
    using i d(1) t Suc.prems(2) by (subst skip_down.simps) (simp add: tree_ok_def shape_def mult.commute Let_def)
  obtain curs' pos' c' where r: "skip_down lv ?curs (Suc i) ?pos (lv ! Suc i ! ?pos) = Some (curs', pos', c')" "c' \<noteq> 0"
    "word_ok lv 6 pos' c'" "path_ok lv curs' 6 pos'" "length curs' = 7"
    "left lv curs' 6 pos' c' = left lv ?curs (Suc i) ?pos (lv ! Suc i ! ?pos)" "curs' ! 0 = ?curs ! 0"
    using Suc.hyps(1) [OF i(2) _ d(2,4) m d(3)] i(1) Suc.prems(6) by auto
  have "?curs ! 0 = (if i = 0 then c AND (c - 1) else curs ! 0)" using Suc.prems(6) by simp
  then show ?case using r d(5) s by auto
qed

lemma skip_up_spec:
  "\<exists>j < n. curs ! j \<noteq> 0 \<Longrightarrow> n \<le> length curs \<Longrightarrow>
    \<exists>i < n. skip_up curs n pos = Some (i, curs ! i, path n pos i) \<and> curs ! i \<noteq> 0 \<and> (\<forall>j. i < j \<and> j < n \<longrightarrow> curs ! j = 0)"
proof (induction n arbitrary: pos)
  case (Suc n)
  show ?case
  proof (cases "curs ! n = 0")
    case False
    then show ?thesis using Suc.prems(2) by (auto intro!: exI [of _ n] simp: path_def)
  next
    case True
    then have "\<exists>j < n. curs ! j \<noteq> 0" using Suc.prems(1) by (auto simp: less_Suc_eq)
    from Suc.IH [OF this, of "pos div 64"] Suc.prems(2) obtain i where i: "i < n"
      "skip_up curs n (pos div 64) = Some (i, curs ! i, path n (pos div 64) i)" "curs ! i \<noteq> 0" "\<forall>j. i < j \<and> j < n \<longrightarrow> curs ! j = 0" by auto
    then show ?thesis using True Suc.prems(2) by (intro exI [of _ i]) (auto simp: path_Suc less_Suc_eq)
  qed
qed simp

subsection \<open>Iterators\<close>

definition iter_ok :: "u64 list list \<Rightarrow> HBitmapIter \<Rightarrow> bool" where
  "iter_ok lv it \<longleftrightarrow> length (it_cur it) = 7 \<and> path_ok lv (it_cur it) 6 (it_pos it) \<and> word_ok lv 6 (it_pos it) (it_cur it ! 6) \<and>
     bit (it_cur it ! 0) 63"

definition remaining :: "u64 list list \<Rightarrow> HBitmapIter \<Rightarrow> nat set" where
  "remaining lv it = left lv (it_cur it) 6 (it_pos it) (it_cur it ! 6)"

lemma path_path: "j \<le> i \<Longrightarrow> i \<le> n \<Longrightarrow> path i (path n pos i) j = path n pos j"
  by (simp add: path_def flip: div_mult2_eq power_add)

text \<open>Seen from the lowest level with work left, nothing changes.\<close>

lemma left_up:
  assumes "i < 6" "curs ! 6 = 0" "\<forall>j. i < j \<and> j < 6 \<longrightarrow> curs ! j = 0"
  shows "left lv curs 6 pos (curs ! 6) = left lv curs i (path 6 pos i) (curs ! i)"
proof -
  have z: "i < j \<Longrightarrow> j < 6 \<Longrightarrow> curs ! j = 0" for j using assms(3) by simp
  have "(\<exists>j < 6. node k j div 64 = path 6 pos j \<and> bit (curs ! j) (node k j mod 64)) \<longleftrightarrow>
      node k i div 64 = path 6 pos i \<and> bit (curs ! i) (node k i mod 64) \<or>
      (\<exists>j < i. node k j div 64 = path i (path 6 pos i) j \<and> bit (curs ! j) (node k j mod 64))" (is "?L \<longleftrightarrow> ?R") for k
  proof
    assume ?L
    then obtain j where j: "j < 6" "node k j div 64 = path 6 pos j" "bit (curs ! j) (node k j mod 64)" by blast
    then have "\<not> i < j" using z [of j] by auto
    then show ?R using j path_path [of j i 6 pos] assms(1) by (cases "j = i") auto
  next
    assume ?R
    then have "\<exists>j \<le> i. node k j div 64 = path i (path 6 pos i) j \<and> bit (curs ! j) (node k j mod 64)"
      by (metis le_eq_less_or_eq path_same)
    then obtain j where "j \<le> i" "node k j div 64 = path i (path 6 pos i) j" "bit (curs ! j) (node k j mod 64)" by blast
    moreover from this have "j < 6" "path i (path 6 pos i) j = path 6 pos j" using path_path [of j i 6 pos] assms(1) by simp_all
    ultimately show ?L by auto
  qed
  then show ?thesis unfolding left_def using assms(2) by auto
qed

lemma path_less:
  assumes "tree_ok lv" "pos < length (lv ! 6)"
  shows "i \<le> 6 \<Longrightarrow> path 6 pos i < length (lv ! i)"
proof (induction rule: inc_induct)
  case (step j)
  have "length (lv ! Suc j) \<le> 64 * length (lv ! j)" using assms(1) step(2) by (simp add: tree_ok_def shape_def)
  then have "path 6 pos (Suc j) < length (lv ! j) * 64" using step(3) by simp
  then have "path 6 pos (Suc j) div 64 < length (lv ! j)" by (rule less_mult_imp_div_less)
  then show ?case using path_step [of j 6 pos] step(2) by simp
qed (simp add: assms)

lemma path_ok_up:
  assumes "path_ok lv curs 6 pos" "i < 6" "tree_ok lv"
  shows "path_ok lv curs i (path 6 pos i)"
proof -
  have "path i (path 6 pos i) j = path 6 pos j" if "j \<le> i" for j using path_path [OF that, of 6 pos] assms(2) by simp
  then show ?thesis using assms path_less [OF assms(3), of pos i] by (auto simp: path_ok_def)
qed

lemma first_below_marker: "bit (c :: u64) 63 \<Longrightarrow> c \<noteq> push_bit 63 1 \<Longrightarrow> ctzl c \<noteq> 63"
proof
  assume c: "bit c 63" "c \<noteq> push_bit 63 1" and z: "ctzl c = 63"
  then have n: "c \<noteq> 0" by auto
  have "c = push_bit 63 1"
  proof (rule bit_word_eqI)
    fix k assume "k < LENGTH(64)"
    have "bit (push_bit 63 1 :: u64) k \<longleftrightarrow> k = 63" by (rule bit_single) simp
    then show "bit c k = bit (push_bit 63 1 :: u64) k"
      using c(1) z ctzl_lowest(3) [OF n, of k] \<open>k < LENGTH(64)\<close> by (cases "k = 63") auto
  qed
  with c(2) show False by simp
qed

text \<open>Fetching the word to work on: zero means that nothing is left.\<close>

lemma marker_not_left:
  assumes "tree_ok lv" "k \<in> bits lv"
  shows "node k 0 < 32"
proof -
  have "node k 1 < length (lv ! 1) * 64" using node_set [OF assms, of 1] by (simp add: mult.commute)
  then have "node k 1 div 64 < length (lv ! 1)" by (rule less_mult_imp_div_less)
  also have "\<dots> \<le> 32" using assms(1) by (simp add: tree_ok_def shape_def)
  finally show ?thesis using node_Suc [of 0 k] by simp
qed

lemma iter_word_spec:
  assumes t: "tree_ok (levels hb)" and ok: "iter_ok (levels hb) it"
  shows "\<exists>c it'. iter_word hb it = Some (c, it') \<and> it_granularity it' = it_granularity it \<and>
    (if c = 0 then it' = it \<and> it_cur it ! 6 = 0 \<and> remaining (levels hb) it = {}
     else iter_ok (levels hb) (it'\<lparr>it_cur := (it_cur it')[6 := c]\<rparr>) \<and>
       remaining (levels hb) (it'\<lparr>it_cur := (it_cur it')[6 := c]\<rparr>) = remaining (levels hb) it)"
proof (cases "it_cur it ! 6 = 0")
  case False
  then have "iter_word hb it = Some (it_cur it ! 6, it)" using ok by (simp add: iter_word_def iter_ok_def)
  then show ?thesis using False ok by auto
next
  case True
  let ?lv = "levels hb" and ?cs = "it_cur it" and ?p = "it_pos it"
  have l: "length ?cs = 7" and p: "path_ok ?lv ?cs 6 ?p" and m: "bit (?cs ! 0) 63" using ok by (simp_all add: iter_ok_def)
  have "\<exists>j < 6. ?cs ! j \<noteq> 0" using m by (intro exI [of _ 0]) auto
  from skip_up_spec [OF this, of ?p] l obtain i where i: "i < 6" "skip_up ?cs 6 ?p = Some (i, ?cs ! i, path 6 ?p i)"
    "?cs ! i \<noteq> 0" "\<forall>j. i < j \<and> j < 6 \<longrightarrow> ?cs ! j = 0" by auto
  have rem: "remaining ?lv it = left ?lv ?cs i (path 6 ?p i) (?cs ! i)"
    unfolding remaining_def by (rule left_up [OF i(1) True i(4)])
  have w: "iter_word hb it = hbitmap_iter_skip_words hb it" using True l by (simp add: iter_word_def)
  show ?thesis
  proof (cases "i = 0 \<and> ?cs ! i = push_bit 63 1")
    case end_marker: True
    have cs: "?cs ! 0 = push_bit 63 1" using end_marker by blast
    have b: "bit (push_bit 63 1 :: u64) b \<longleftrightarrow> b = 63" for b by (rule bit_single) simp
    have "\<not> bit (?cs ! 0) (node k 0 mod 64)" if "k \<in> bits ?lv" for k
      unfolding cs b using marker_not_left [OF t that] by simp
    then have "remaining ?lv it = {}" unfolding rem left_def using end_marker by auto
    moreover have "iter_word hb it = Some (0, it)" using end_marker i(2) w by (auto simp: hbitmap_iter_skip_words_def)
    ultimately show ?thesis using True by auto
  next
    case False
    have pi: "path_ok ?lv ?cs i (path 6 ?p i)" by (rule path_ok_up [OF p i(1) t])
    have ci: "word_ok ?lv i (path 6 ?p i) (?cs ! i)" using p i(1) by (simp add: word_ok_def path_ok_def)
    have z: "i = 0 \<Longrightarrow> ctzl (?cs ! 0) \<noteq> 63" using first_below_marker [OF m] False by blast
    have p0: "path 6 ?p 0 = 0" using path_less [OF t, of ?p 0] p t by (simp add: path_ok_def tree_ok_def shape_def)
    have nm: "\<not> marker i (64 * path 6 ?p i + ctzl (?cs ! i))" using z by (cases "i = 0") (simp_all add: marker_def p0)
    have keep: "bit (?cs ! 0 AND (?cs ! 0 - 1)) 63" if "i = 0"
      using bit_clear_lowest [of "?cs ! 0" 63] i(3) z m that by simp
    from skip_down_spec [OF t _ i(3) ci nm pi l] i(1) obtain cs' p' c' where r:
      "skip_down ?lv ?cs i (path 6 ?p i) (?cs ! i) = Some (cs', p', c')" "c' \<noteq> 0" "word_ok ?lv 6 p' c'" "path_ok ?lv cs' 6 p'"
      "length cs' = 7" "left ?lv cs' 6 p' c' = left ?lv ?cs i (path 6 ?p i) (?cs ! i)"
      "cs' ! 0 = (if i = 0 then ?cs ! 0 AND (?cs ! 0 - 1) else ?cs ! 0)" by auto
    have "iter_word hb it = Some (c', it\<lparr>it_cur := cs', it_pos := p'\<rparr>)"
      using False i(2) w r(1,2) by (auto simp: hbitmap_iter_skip_words_def)
    moreover have "path_ok ?lv (cs'[6 := c']) 6 p'" "left ?lv (cs'[6 := c']) 6 p' c' = left ?lv cs' 6 p' c'"
      using r(4) by (auto simp: path_ok_def left_def)
    moreover have "bit (cs'[6 := c'] ! 0) 63" using r(7) keep m by simp
    ultimately show ?thesis using r rem by (auto simp: iter_ok_def remaining_def)
  qed
qed

end
