(* ===== verification/Hbitmap_Visit.thy ===== *)
theory Hbitmap_Visit
  imports Hbitmap_Iter
begin

text \<open>
  The steps of an iteration over a hierarchical bitmap: starting it, taking the next bit and taking the
  next word, in terms of the set of bits left.
\<close>

subsection \<open>Order\<close>

lemma later_word:
  assumes p: "path_ok lv cs 6 pos" and j: "j < 6" "node k j div 64 = path 6 pos j" "bit (cs ! j) (node k j mod 64)"
  shows "pos < k div 64"
proof -
  have "path 6 pos (Suc j) mod 64 < node k j mod 64" using p j by (auto simp: path_ok_def)
  moreover have "path 6 pos (Suc j) div 64 = node k j div 64" using path_step [OF j(1), of pos] j(2) by simp
  ultimately have lt: "path 6 pos (Suc j) < node k j" by (metis div_mult_mod_eq nat_add_left_cancel_less)
  have "6 - j = Suc (6 - Suc j)" using j(1) by simp
  then have "node k j = k div 64 div 64 ^ (6 - Suc j)" unfolding node_def by (simp add: div_mult2_eq)
  then have "pos div 64 ^ (6 - Suc j) < k div 64 div 64 ^ (6 - Suc j)" using lt by (simp add: path_def)
  then show ?thesis by (metis div_le_mono not_le)
qed

text \<open>Replacing the current word by a part of it.\<close>

lemma narrow_word:
  assumes ok: "iter_ok lv it" and sub: "\<And>b. bit c' b \<Longrightarrow> bit (it_cur it ! 6) b"
  shows "iter_ok lv (it\<lparr>it_cur := (it_cur it)[6 := c']\<rparr>)"
    "remaining lv (it\<lparr>it_cur := (it_cur it)[6 := c']\<rparr>) =
      {64 * it_pos it + b | b. bit c' b} \<union> {k \<in> remaining lv it. it_pos it < k div 64}"
proof -
  let ?p = "it_pos it" and ?cs = "it_cur it"
  have l: "length ?cs = 7" and p: "path_ok lv ?cs 6 ?p" and c: "word_ok lv 6 ?p (?cs ! 6)" using ok by (simp_all add: iter_ok_def)
  show "iter_ok lv (it\<lparr>it_cur := ?cs[6 := c']\<rparr>)" using ok sub by (auto simp: iter_ok_def path_ok_def word_ok_def)
  have pos: "?p < length (lv ! 6)" using p by (simp add: path_ok_def)
  have w: "{k \<in> bits lv. k div 64 = ?p \<and> bit c' (k mod 64)} = {64 * ?p + b | b. bit c' b}"
  proof (intro equalityI subsetI)
    fix k assume k: "k \<in> {k \<in> bits lv. k div 64 = ?p \<and> bit c' (k mod 64)}"
    then have "k = 64 * ?p + k mod 64" using mult_div_mod_eq [of 64 k] by simp
    then show "k \<in> {64 * ?p + b | b. bit c' b}" using k by blast
  next
    fix k assume "k \<in> {64 * ?p + b | b. bit c' b}"
    then obtain b where "k = 64 * ?p + b" "bit c' b" by blast
    then show "k \<in> {k \<in> bits lv. k div 64 = ?p \<and> bit c' (k mod 64)}"
      using c sub [of b] pos bit_word_less [of c' b] by (auto simp: bits_def word_ok_def)
  qed
  have later: "\<exists>j < 6. node k j div 64 = path 6 ?p j \<and> bit (?cs ! j) (node k j mod 64) \<Longrightarrow> ?p < k div 64" for k
    using later_word [OF p] by blast
  have same: "(\<exists>j < 6. node k j div 64 = path 6 ?p j \<and> bit (?cs[6 := c'] ! j) (node k j mod 64)) \<longleftrightarrow>
      (\<exists>j < 6. node k j div 64 = path 6 ?p j \<and> bit (?cs ! j) (node k j mod 64))" for k by (metis less_irrefl nth_list_update_neq)
  show "remaining lv (it\<lparr>it_cur := ?cs[6 := c']\<rparr>) = {64 * ?p + b | b. bit c' b} \<union> {k \<in> remaining lv it. ?p < k div 64}"
    unfolding w [symmetric] using l later by (auto simp: remaining_def left_def same)
qed

lemma remaining_split:
  assumes ok: "iter_ok lv it"
  shows "remaining lv it = {64 * it_pos it + b | b. bit (it_cur it ! 6) b} \<union> {k \<in> remaining lv it. it_pos it < k div 64}"
proof -
  have "it\<lparr>it_cur := (it_cur it)[6 := it_cur it ! 6]\<rparr> = it" by simp
  with narrow_word(2) [OF ok, of "it_cur it ! 6"] show ?thesis by simp
qed

lemma remaining_bits: "remaining lv it \<subseteq> bits lv"
  by (auto simp: remaining_def left_def)

subsection \<open>The steps\<close>

lemma iter_next_spec:
  assumes t: "tree_ok (levels hb)" and ok: "iter_ok (levels hb) it"
  shows "\<exists>r it'. hbitmap_iter_next hb it = Some (r, it') \<and> it_granularity it' = it_granularity it \<and> iter_ok (levels hb) it' \<and>
    (if remaining (levels hb) it = {} then r = -1 \<and> it' = it
     else r = sint (push_bit (it_granularity it) (of_nat (Min (remaining (levels hb) it))) :: u64) \<and>
       remaining (levels hb) it' = remaining (levels hb) it - {Min (remaining (levels hb) it)})"
proof -
  let ?R = "remaining (levels hb)"
  from iter_word_spec [OF t ok] obtain c it1 where w: "iter_word hb it = Some (c, it1)" "it_granularity it1 = it_granularity it"
    "if c = 0 then it1 = it \<and> it_cur it ! 6 = 0 \<and> ?R it = {}
     else iter_ok (levels hb) (it1\<lparr>it_cur := (it_cur it1)[6 := c]\<rparr>) \<and> ?R (it1\<lparr>it_cur := (it_cur it1)[6 := c]\<rparr>) = ?R it" by blast
  show ?thesis
  proof (cases "c = 0")
    case True
    then show ?thesis using w ok by (simp add: hbitmap_iter_next_def)
  next
    case False
    define it2 where "it2 = it1\<lparr>it_cur := (it_cur it1)[6 := c]\<rparr>"
    have ok2: "iter_ok (levels hb) it2" and R2: "?R it2 = ?R it" using w(3) False by (simp_all add: it2_def)
    have l: "length (it_cur it1) = 7" using ok2 by (simp add: it2_def iter_ok_def)
    have c2: "it_cur it2 ! 6 = c" "it_pos it2 = it_pos it1" using l by (simp_all add: it2_def)
    note z = ctzl_lowest [OF False]
    let ?k = "64 * it_pos it1 + ctzl c" and ?c' = "c AND (c - 1)"
    define it3 where "it3 = it2\<lparr>it_cur := (it_cur it2)[6 := ?c']\<rparr>"
    have sub: "bit ?c' b \<Longrightarrow> bit (it_cur it2 ! 6) b" for b using c2 by (simp add: bit_and_iff)
    note nar = narrow_word [OF ok2, of ?c', OF sub, folded it3_def]
    note sp = remaining_split [OF ok2, unfolded c2 R2]
    have mem: "?k \<in> ?R it" using sp z(2) by blast
    have le: "?k \<le> k" if k: "k \<in> ?R it" for k
    proof -
      consider b where "k = 64 * it_pos it1 + b" "bit c b" | "it_pos it1 < k div 64" using sp k by blast
      then show ?thesis
      proof cases
        case 1
        then show ?thesis using z(3) [of b] by (cases "b < ctzl c") auto
      next
        case 2
        then have "64 * (it_pos it1 + 1) \<le> k" by (metis Suc_eq_plus1 Suc_leI div_times_less_eq_dividend mult.commute mult_le_mono2 order_trans)
        then show ?thesis using z(1) by simp
      qed
    qed
    have fin: "finite (?R it)" by (rule finite_subset [OF remaining_bits finite_bits])
    have min: "Min (?R it) = ?k" using Min_eqI [OF fin le mem] .
    have "?R it3 = {64 * it_pos it1 + b | b. bit c b \<and> b \<noteq> ctzl c} \<union> {k \<in> ?R it. it_pos it1 < k div 64}"
      using nar(2) c2 R2 by (simp add: bit_clear_lowest [OF False])
    also have "\<dots> = ?R it - {?k}" using sp z(1) by auto
    finally have R3: "?R it3 = ?R it - {?k}" .
    have "hbitmap_iter_next hb it = Some (sint (push_bit (it_granularity it) (of_nat ?k) :: u64), it3)"
      using w(1,2) False by (simp add: hbitmap_iter_next_def it3_def it2_def mult.commute)
    moreover have "it_granularity it3 = it_granularity it" using w(2) by (simp add: it3_def it2_def)
    ultimately show ?thesis using nar(1) R3 min mem by auto
  qed
qed

lemma iter_next_word_spec:
  assumes t: "tree_ok (levels hb)" and ok: "iter_ok (levels hb) it"
  shows "\<exists>p c it'. hbitmap_iter_next_word hb it = Some (p, c, it') \<and>
    (if remaining (levels hb) it = {} then p = 2 ^ 64 - 1 \<and> c = 0
     else p < length (levels hb ! 6) \<and> c \<noteq> 0 \<and> iter_ok (levels hb) it' \<and> remaining (levels hb) it' = {k \<in> remaining (levels hb) it. p < k div 64} \<and>
       remaining (levels hb) it = {64 * p + b | b. bit c b} \<union> {k \<in> remaining (levels hb) it. p < k div 64})"
proof -
  let ?R = "remaining (levels hb)"
  from iter_word_spec [OF t ok] obtain c it1 where w: "iter_word hb it = Some (c, it1)"
    "if c = 0 then it1 = it \<and> it_cur it ! 6 = 0 \<and> ?R it = {}
     else iter_ok (levels hb) (it1\<lparr>it_cur := (it_cur it1)[6 := c]\<rparr>) \<and> ?R (it1\<lparr>it_cur := (it_cur it1)[6 := c]\<rparr>) = ?R it" by blast
  show ?thesis
  proof (cases "c = 0")
    case True
    then show ?thesis using w by (simp add: hbitmap_iter_next_word_def)
  next
    case False
    define it2 where "it2 = it1\<lparr>it_cur := (it_cur it1)[6 := c]\<rparr>"
    have ok2: "iter_ok (levels hb) it2" and R2: "?R it2 = ?R it" using w(2) False by (simp_all add: it2_def)
    have l: "length (it_cur it1) = 7" using ok2 by (simp add: it2_def iter_ok_def)
    have c2: "it_cur it2 ! 6 = c" "it_pos it2 = it_pos it1" using l by (simp_all add: it2_def)
    have pos: "it_pos it1 < length (levels hb ! 6)" using ok2 c2 by (simp add: iter_ok_def path_ok_def)
    define it3 where "it3 = it2\<lparr>it_cur := (it_cur it2)[6 := 0]\<rparr>"
    have sub: "bit 0 b \<Longrightarrow> bit (it_cur it2 ! 6) b" for b by simp
    note nar = narrow_word [OF ok2, of 0, OF sub, folded it3_def]
    note sp = remaining_split [OF ok2, unfolded c2 R2]
    have "64 * it_pos it1 + ctzl c \<in> ?R it" using sp ctzl_lowest(2) [OF False] by blast
    then have ne: "?R it \<noteq> {}" by blast
    have "hbitmap_iter_next_word hb it = Some (it_pos it1, c, it3)"
      using w(1) False by (simp add: hbitmap_iter_next_word_def it3_def it2_def)
    moreover have "?R it3 = {k \<in> ?R it. it_pos it1 < k div 64}" using nar(2) c2 R2 by simp
    ultimately show ?thesis using nar(1) ne sp pos False by (intro exI [of _ "it_pos it1"] exI [of _ c] exI [of _ it3]) simp
  qed
qed

subsection \<open>Starting an iteration\<close>

text \<open>The order of numbers in base 64, compared at the first digit that differs.\<close>

lemma base64_le:
  fixes x y :: nat
  shows "x div 64 ^ h = y div 64 ^ h \<Longrightarrow>
    y \<le> x \<longleftrightarrow> x = y \<or> (\<exists>g < h. x div 64 ^ Suc g = y div 64 ^ Suc g \<and> y div 64 ^ g mod 64 < x div 64 ^ g mod 64)"
proof (induction h)
  case (Suc h)
  let ?x = "x div 64 ^ h" and ?y = "y div 64 ^ h"
  have d: "?x div 64 = ?y div 64" using Suc.prems by (simp only: div_pow_Suc)
  show ?case
  proof (cases "?x = ?y")
    case True
    then show ?thesis using Suc.IH [OF True] by (auto simp only: Ex_less_Suc less_irrefl)
  next
    case False
    have "x div 64 ^ Suc g \<noteq> y div 64 ^ Suc g" if "g < h" for g
    proof
      assume "x div 64 ^ Suc g = y div 64 ^ Suc g"
      then have "x div 64 ^ Suc g div 64 ^ (h - Suc g) = y div 64 ^ Suc g div 64 ^ (h - Suc g)" by simp
      then show False using False that by (simp only: div_mult2_eq [symmetric] power_add [symmetric]) simp
    qed
    moreover have "y \<le> x \<longleftrightarrow> ?y mod 64 < ?x mod 64"
    proof -
      have "?y mod 64 < ?x mod 64 \<longleftrightarrow> ?y < ?x" using d by (metis div_mult_mod_eq nat_add_left_cancel_less)
      also have "\<dots> \<longleftrightarrow> y \<le> x" using False by (metis div_le_mono le_neq_implies_less nat_le_linear not_le)
      finally show ?thesis by simp
    qed
    moreover have "x \<noteq> y" using False by auto
    ultimately show ?thesis using Suc.prems by (auto simp only: Ex_less_Suc)
  qed
qed simp

lemma iter_init_loop_spec:
  "n \<le> length lv \<Longrightarrow> \<forall>j < n. pos div 64 ^ (n - j) < length (lv ! j) \<Longrightarrow>
    \<exists>cs. iter_init_loop lv n pos = Some cs \<and> length cs = n \<and>
      (\<forall>j < n. \<forall>b. bit (cs ! j) b \<longleftrightarrow> bit (lv ! j ! (pos div 64 ^ (n - j))) b \<and>
        (if j = 6 then pos div 64 ^ (n - Suc j) mod 64 \<le> b else pos div 64 ^ (n - Suc j) mod 64 < b))"
proof (induction n arbitrary: pos)
  case (Suc n)
  let ?w = "lv ! n ! (pos div 64)" and ?b = "pos mod 64"
  define T M c where "T = (push_bit ?b 1 :: u64)" and "M = T - 1"
    and "c = (let c = ?w AND NOT M in if n \<noteq> 6 then c AND NOT T else c)"
  have r: "pos div 64 < length (lv ! n)" "n < length lv" using Suc.prems by auto
  have bT: "bit T b \<longleftrightarrow> b = ?b" for b unfolding T_def by (rule bit_single) simp
  have "M = mask ?b" by (simp add: M_def T_def push_bit_eq_mult mask_eq_decr_exp)
  then have bM: "bit M b \<longleftrightarrow> b < ?b" for b using mod_less_divisor [of 64 pos] by (auto simp: bit_mask_iff)
  have bc: "bit c b \<longleftrightarrow> bit ?w b \<and> (if n = 6 then ?b \<le> b else ?b < b)" for b
    using bit_word_less [of ?w b] by (auto simp: c_def Let_def bit_and_iff bit_not_iff bT bM)
  have e: "pos div 64 ^ (Suc n - j) = pos div 64 div 64 ^ (n - j)" if "j \<le> n" for j
    using that by (simp add: Suc_diff_le div_mult2_eq)
  have "\<forall>j < n. pos div 64 div 64 ^ (n - j) < length (lv ! j)" using Suc.prems(2) e by (metis less_Suc_eq less_imp_le)
  from Suc.IH [OF _ this] Suc.prems(1) obtain cs where cs: "iter_init_loop lv n (pos div 64) = Some cs" "length cs = n"
    "\<forall>j < n. \<forall>b. bit (cs ! j) b \<longleftrightarrow> bit (lv ! j ! (pos div 64 div 64 ^ (n - j))) b \<and>
      (if j = 6 then pos div 64 div 64 ^ (n - Suc j) mod 64 \<le> b else pos div 64 div 64 ^ (n - Suc j) mod 64 < b)" by auto
  have "iter_init_loop lv (Suc n) pos = Some (cs @ [c])" using r cs(1) by (simp add: c_def Let_def M_def T_def)
  moreover have "bit ((cs @ [c]) ! j) b \<longleftrightarrow> bit (lv ! j ! (pos div 64 ^ (Suc n - j))) b \<and>
      (if j = 6 then pos div 64 ^ (Suc n - Suc j) mod 64 \<le> b else pos div 64 ^ (Suc n - Suc j) mod 64 < b)" if "j < Suc n" for j b
  proof (cases "j = n")
    case True
    then have "(cs @ [c]) ! j = c" using cs(2) by (simp add: nth_append)
    then show ?thesis using bc [of b] True by simp
  next
    case False
    then have j: "j < n" using that by simp
    have e1: "pos div 64 ^ (Suc n - Suc j) = pos div 64 div 64 ^ (n - Suc j)" using j e [of "Suc j"] by simp
    have cj: "(cs @ [c]) ! j = cs ! j" using cs(2) j by (simp add: nth_append)
    show ?thesis unfolding cj e1 e [OF less_imp_le [OF j]] using cs(3) j by blast
  qed
  ultimately show ?case using cs(2) by (intro exI [of _ "cs @ [c]"]) simp
qed simp

lemma bits_base64: "tree_ok lv \<Longrightarrow> k < 64 * length (lv ! 6) \<Longrightarrow> k div 64 ^ 7 = 0"
proof -
  assume t: "tree_ok lv" and k: "k < 64 * length (lv ! 6)"
  then have "k div 64 < length (lv ! 6)" by (simp add: less_mult_imp_div_less mult.commute)
  from path_less [OF t this, of 0] have "k div 64 div 64 ^ 6 < 1" using t by (simp add: path_def tree_ok_def shape_def)
  then show ?thesis by (simp flip: div_mult2_eq)
qed

lemma iter_start_spec:
  assumes t: "tree_ok lv" and p: "pos < 64 * length (lv ! 6)"
  shows "\<exists>cs. iter_init_loop lv 7 pos = Some cs \<and> iter_ok lv \<lparr>it_granularity = g, it_pos = pos div 64, it_cur = cs\<rparr> \<and>
    remaining lv \<lparr>it_granularity = g, it_pos = pos div 64, it_cur = cs\<rparr> = {k \<in> bits lv. pos \<le> k}"
proof -
  let ?q = "pos div 64"
  have q: "?q < length (lv ! 6)" using p by (simp add: less_mult_imp_div_less mult.commute)
  have pj: "pos div 64 ^ (7 - j) = path 6 ?q j" if "j \<le> 6" for j
  proof -
    have "7 - j = Suc (6 - j)" using that by simp
    then show ?thesis by (simp only: path_def power_Suc div_mult2_eq)
  qed
  have "\<forall>j < 7. pos div 64 ^ (7 - j) < length (lv ! j)"
  proof (intro allI impI)
    fix j :: nat assume "j < 7"
    then have "j \<le> 6" by simp
    then show "pos div 64 ^ (7 - j) < length (lv ! j)" using path_less [OF t q] pj by simp
  qed
  moreover have "7 \<le> length lv" using t by (simp add: tree_ok_def shape_def)
  ultimately obtain cs where cs: "iter_init_loop lv 7 pos = Some cs" "length cs = 7"
    "\<forall>j < 7. \<forall>b. bit (cs ! j) b \<longleftrightarrow> bit (lv ! j ! (pos div 64 ^ (7 - j))) b \<and>
      (if j = 6 then pos div 64 ^ (7 - Suc j) mod 64 \<le> b else pos div 64 ^ (7 - Suc j) mod 64 < b)"
    using iter_init_loop_spec [of 7 lv pos] by blast
  have b6: "bit (cs ! 6) b \<longleftrightarrow> bit (lv ! 6 ! ?q) b \<and> pos mod 64 \<le> b" for b using cs(3) by simp
  have bj: "bit (cs ! j) b \<longleftrightarrow> bit (lv ! j ! path 6 ?q j) b \<and> path 6 ?q (Suc j) mod 64 < b" if "j < 6" for j b
    using cs(3) that pj [of j] pj [of "Suc j"] by simp
  let ?it = "\<lparr>it_granularity = g, it_pos = ?q, it_cur = cs\<rparr>"
  have at: "bit (lv ! j ! w) b \<Longrightarrow> bit_at (lv ! j) (64 * w + b)" for j w b using bit_word_less bit_at_word by blast
  have po: "path_ok lv cs 6 ?q" using q bj at by (auto simp: path_ok_def)
  have mk: "bit (cs ! 0) 63"
  proof -
    have l0: "length (lv ! 0) = 1" "length (lv ! 1) \<le> 32" using t by (simp_all add: tree_ok_def shape_def)
    have "path 6 ?q 0 = 0" "path 6 ?q 1 < 32" using path_less [OF t q, of 0] path_less [OF t q, of 1] l0 by simp_all
    moreover have "bit_at (lv ! 0) 63" using t l0 by (auto simp: tree_ok_def link_def marker_def)
    ultimately show ?thesis using bj [of 0 63] by (simp add: bit_at_def)
  qed
  have "remaining lv ?it = {k \<in> bits lv. pos \<le> k}"
  proof -
    have "(k div 64 = ?q \<and> bit (cs ! 6) (k mod 64) \<or> (\<exists>j < 6. node k j div 64 = path 6 ?q j \<and> bit (cs ! j) (node k j mod 64))) \<longleftrightarrow> pos \<le> k"
      if k: "k \<in> bits lv" for k
    proof -
      have set: "bit (lv ! j ! (node k j div 64)) (node k j mod 64)" if "j \<le> 6" for j
        using node_set [OF t k that] by (simp add: bit_at_def)
      have n7: "node k j div 64 = k div 64 ^ Suc (6 - j)" for j by (simp only: node_def div_pow_Suc)
      have pS: "path 6 ?q j = pos div 64 ^ Suc (6 - j)" "path 6 ?q (Suc j) = pos div 64 ^ (6 - j)" if "j < 6" for j
      proof -
        have e: "7 - j = Suc (6 - j)" "7 - Suc j = 6 - j" using that by simp_all
        show "path 6 ?q j = pos div 64 ^ Suc (6 - j)" "path 6 ?q (Suc j) = pos div 64 ^ (6 - j)"
          using that pj [of j] pj [of "Suc j"] unfolding e by simp_all
      qed
      have jth: "node k j div 64 = path 6 ?q j \<and> bit (cs ! j) (node k j mod 64) \<longleftrightarrow>
          k div 64 ^ Suc (6 - j) = pos div 64 ^ Suc (6 - j) \<and> pos div 64 ^ (6 - j) mod 64 < k div 64 ^ (6 - j) mod 64" if "j < 6" for j
      proof -
        have "node k j div 64 = path 6 ?q j \<Longrightarrow> bit (cs ! j) (node k j mod 64) \<longleftrightarrow> path 6 ?q (Suc j) mod 64 < node k j mod 64"
          using bj [OF that, of "node k j mod 64"] set [of j] that by simp
        then show ?thesis unfolding n7 [of j, symmetric] pS [OF that, symmetric] node_def [of k j, symmetric] by blast
      qed
      have low: "k div 64 = ?q \<and> bit (cs ! 6) (k mod 64) \<longleftrightarrow> k = pos \<or> k div 64 = ?q \<and> pos mod 64 < k mod 64"
      proof (cases "k div 64 = ?q")
        case True
        then have "k = pos \<longleftrightarrow> k mod 64 = pos mod 64" by (metis div_mult_mod_eq)
        then show ?thesis using b6 [of "k mod 64"] set [of 6] True by (auto simp: le_less)
      qed auto
      have reindex: "(\<exists>g < 7. P g) \<longleftrightarrow> P 0 \<or> (\<exists>j < 6. P (6 - j))" for P :: "nat \<Rightarrow> bool"
      proof
        assume "\<exists>g < 7. P g"
        then obtain g where g: "g < 7" "P g" by blast
        then have "g \<noteq> 0 \<Longrightarrow> 6 - g < 6 \<and> 6 - (6 - g) = g" by simp
        then show "P 0 \<or> (\<exists>j < 6. P (6 - j))" using g by (cases "g = 0") metis+
      next
        assume "P 0 \<or> (\<exists>j < 6. P (6 - j))"
        then show "\<exists>g < 7. P g" by (metis diff_le_self le_imp_less_Suc numeral_eq_Suc pred_numeral_simps(3) zero_less_numeral)
      qed
      have "k div 64 ^ 7 = pos div 64 ^ 7" using bits_base64 [OF t] k p by (simp add: bits_def)
      from base64_le [OF this] show ?thesis unfolding low reindex using jth by (simp only: power_0 div_by_1 power_one_right One_nat_def [symmetric]) blast
    qed
    then show ?thesis by (auto simp: remaining_def left_def)
  qed
  moreover have "iter_ok lv ?it" using cs(2) po mk b6 at by (simp add: iter_ok_def word_ok_def)
  ultimately show ?thesis using cs(1) by blast
qed

end
