(* ===== verification/Hbitmap_Properties.thy ===== *)
theory Hbitmap_Properties
  imports Hbitmap_Visit
begin

text \<open>
  What a hierarchical bitmap promises: it is a set of groups of items, whatever ranges are set and reset,
  and iteration visits the groups in order.
\<close>

subsection \<open>Counting\<close>

lemma ctpopl_card: "ctpopl c = card {b. bit c b}"
proof -
  have "ctpopl c = card (set (filter (bit c) [0..<64]))" unfolding ctpopl_def by (rule distinct_card [symmetric]) simp
  also have "set (filter (bit c) [0..<64]) = {b. bit c b}" using bit_word_less by auto
  finally show ?thesis .
qed

lemma card_word: "card {64 * p + b | b. bit (c :: u64) b} = ctpopl c"
proof -
  have "{64 * p + b | b. bit c b} = (\<lambda>b. 64 * p + b) ` {b. bit c b}" by auto
  then show ?thesis unfolding ctpopl_card by (simp add: card_image inj_on_def)
qed

lemma bit_low_part:
  assumes "n < 64"
  shows "bit (c AND (push_bit n 1 - 1)) b \<longleftrightarrow> bit (c :: u64) b \<and> b < n"
proof -
  have m: "push_bit n 1 - 1 = (mask n :: u64)" by (simp add: push_bit_eq_mult mask_eq_decr_exp)
  show ?thesis unfolding m using assms by (auto simp: bit_and_iff bit_mask_iff)
qed

lemma less_by_word: "k div 64 < n div 64 \<Longrightarrow> k < n" for k n :: nat
  by (metis div_le_mono not_le)

lemma count_loop_spec:
  assumes t: "tree_ok (levels hb)" and f: "fin div 64 < 2 ^ 64 - 1"
  shows "iter_ok (levels hb) it \<Longrightarrow> \<exists>p c n. count_loop hb it fin cnt = Some (p, c, n) \<and>
    (if p = fin div 64 then n + ctpopl (c AND (push_bit (fin mod 64) 1 - 1)) else n) = cnt + card {k \<in> remaining (levels hb) it. k < fin}"
proof (induction "card (remaining (levels hb) it)" arbitrary: it cnt rule: less_induct)
  case less
  let ?R = "remaining (levels hb)"
  have finR: "finite (?R it)" by (rule finite_subset [OF remaining_bits finite_bits])
  obtain p c it' where w: "hbitmap_iter_next_word hb it = Some (p, c, it')"
    "if ?R it = {} then p = 2 ^ 64 - 1 \<and> c = 0 else p < length (levels hb ! 6) \<and> c \<noteq> 0 \<and> iter_ok (levels hb) it' \<and>
      ?R it' = {k \<in> ?R it. p < k div 64} \<and> ?R it = {64 * p + b | b. bit c b} \<union> {k \<in> ?R it. p < k div 64}"
    using iter_next_word_spec [OF t less.prems] by blast
  have step: "count_loop hb it fin cnt = (if p \<ge> fin div 64 then Some (p, c, cnt) else count_loop hb it' fin (cnt + ctpopl c))"
    using w(1) by (subst count_loop.simps) simp
  show ?case
  proof (cases "?R it = {}")
    case True
    then show ?thesis using w(2) f step by auto
  next
    case False
    have ok': "iter_ok (levels hb) it'" and R': "?R it' = {k \<in> ?R it. p < k div 64}"
      and sp: "?R it = {64 * p + b | b. bit c b} \<union> ?R it'" and c: "c \<noteq> 0" using w(2) False by auto
    have word: "k \<in> {64 * p + b | b. bit c b} \<Longrightarrow> k div 64 = p" for k using bit_word_less by fastforce
    show ?thesis
    proof (cases "fin div 64 \<le> p")
      case stop: True
      have "{k \<in> ?R it. k < fin} = (if p = fin div 64 then {64 * p + b | b. bit (c AND (push_bit (fin mod 64) 1 - 1)) b} else {})"
      proof (cases "p = fin div 64")
        case True
        have low: "64 * p + b < fin \<longleftrightarrow> b < fin mod 64" for b using True mult_div_mod_eq [of 64 fin] by linarith
        have late: "k \<in> ?R it' \<Longrightarrow> \<not> k < fin" for k using R' True less_by_word [of fin k] by simp
        have part: "bit (c AND (push_bit (fin mod 64) 1 - 1)) b \<longleftrightarrow> bit c b \<and> b < fin mod 64" for b by (rule bit_low_part) simp
        have "k \<in> ?R it \<and> k < fin \<longleftrightarrow> (\<exists>b. k = 64 * p + b \<and> bit c b \<and> b < fin mod 64)" for k
        proof -
          have "k \<in> ?R it \<longleftrightarrow> (\<exists>b. k = 64 * p + b \<and> bit c b) \<or> k \<in> ?R it'" using sp by blast
          then show ?thesis using late [of k] low by blast
        qed
        then show ?thesis unfolding part using True by simp
      next
        case False
        have "\<not> k < fin" if "k \<in> ?R it" for k
        proof -
          have "k div 64 = p \<or> p < k div 64" using that sp R' word [of k] by blast
          then have "fin div 64 < k div 64" using stop False by auto
          then show ?thesis using less_by_word [of fin k] by simp
        qed
        then show ?thesis using False by auto
      qed
      then show ?thesis using stop step by (simp add: card_word)
    next
      case go: False
      have "64 * p + ctzl c \<in> ?R it" "64 * p + ctzl c \<notin> ?R it'" using sp R' ctzl_lowest(1,2) [OF c] by (blast, simp)
      moreover have "?R it' \<subseteq> ?R it" unfolding R' by blast
      ultimately have "?R it' \<subset> ?R it" by blast
      from less.hyps [OF psubset_card_mono [OF finR this] ok'] obtain p' c' n where r:
        "count_loop hb it' fin (cnt + ctpopl c) = Some (p', c', n)"
        "(if p' = fin div 64 then n + ctpopl (c' AND (push_bit (fin mod 64) 1 - 1)) else n) =
          cnt + ctpopl c + card {k \<in> ?R it'. k < fin}" by blast
      have "{k \<in> ?R it. k < fin} = {64 * p + b | b. bit c b} \<union> {k \<in> ?R it'. k < fin}"
      proof -
        have "k < fin" if "k \<in> {64 * p + b | b. bit c b}" for k using word [OF that] go less_by_word [of k fin] by simp
        then show ?thesis using sp by blast
      qed
      moreover have "{64 * p + b | b. bit c b} \<inter> {k \<in> ?R it'. k < fin} = {}" using R' word by auto
      moreover have "{64 * p + b | b. bit c b} \<subseteq> ?R it" "{k \<in> ?R it'. k < fin} \<subseteq> ?R it" using sp by blast+
      then have "finite {64 * p + b | b. bit c b}" "finite {k \<in> ?R it'. k < fin}" by (blast intro: finite_subset [OF _ finR])+
      ultimately have "card {k \<in> ?R it. k < fin} = ctpopl c + card {k \<in> ?R it'. k < fin}"
        by (simp add: card_Un_disjoint card_word)
      then show ?thesis using step go r by simp
    qed
  qed
qed

subsection \<open>Well-formed bitmaps\<close>

definition hb_wf :: "HBitmap \<Rightarrow> bool" where
  "hb_wf hb \<longleftrightarrow> tree_ok (levels hb) \<and> granularity hb < 64 \<and> hb_size hb \<le> 64 * length (levels hb ! 6) \<and>
     bits (levels hb) \<subseteq> {..<hb_size hb} \<and> hb_count hb = of_nat (card (bits (levels hb)))"

text \<open>The group of an item.\<close>

definition group_of :: "HBitmap \<Rightarrow> u64 \<Rightarrow> nat" where
  "group_of hb item = unat item div 2 ^ granularity hb"

lemma group_drop_bit: "unat (drop_bit (granularity hb) item) = group_of hb item"
  unfolding group_of_def unat_drop_bit_eq by (simp add: drop_bit_eq_div)

lemma tree_length:
  assumes "tree_ok lv"
  shows "length (lv ! 6) \<le> 2 ^ 35"
proof -
  have s: "length (lv ! n) \<le> 64 * length (lv ! i)" if "n = Suc i" "i < 6" for i n using assms that by (simp add: tree_ok_def shape_def)
  have "length (lv ! 1) \<le> 32" using assms by (simp add: tree_ok_def shape_def)
  then show ?thesis using s [of 2 1] s [of 3 2] s [of 4 3] s [of 5 4] s [of 6 5] by simp
qed

lemma unat_group_start:
  fixes item :: u64
  assumes "g < 64"
  shows "unat (push_bit g (of_nat (unat item div 2 ^ g) :: u64)) div 2 ^ g = unat item div 2 ^ g"
proof -
  let ?n = "unat item div 2 ^ g"
  have le: "?n * 2 ^ g \<le> unat item" by simp
  have "unat item < 2 ^ 64" using unat_less_pow [of item] by simp
  then have lt: "?n * 2 ^ g < 2 ^ 64" using le by linarith
  have "push_bit g (of_nat ?n :: u64) = of_nat (?n * 2 ^ g)" by (simp add: push_bit_eq_mult)
  moreover have "unat (of_nat (?n * 2 ^ g) :: u64) = ?n * 2 ^ g"
    using lt by (simp only: unsigned_of_nat) (simp add: take_bit_nat_eq_self)
  ultimately show ?thesis by simp
qed

lemma count_between_spec:
  assumes wf: "hb_wf hb" and r: "lst < hb_size hb"
  shows "group_of hb item \<le> lst \<Longrightarrow> hb_count_between hb (group_of hb item) lst = Some (card (bits (levels hb) \<inter> {group_of hb item..lst}))"
proof -
  assume le: "group_of hb item \<le> lst"
  let ?a = "group_of hb item" and ?lv = "levels hb"
  have t: "tree_ok ?lv" and g: "granularity hb < 64" and sz: "hb_size hb \<le> 64 * length (?lv ! 6)" using wf by (simp_all add: hb_wf_def)
  have l41: "lst < 2 ^ 41" using r sz tree_length [OF t] by simp
  then have fin: "(lst + 1) mod 2 ^ 64 = lst + 1" "(lst + 1) div 64 < 2 ^ 64 - 1" by simp_all
  have pos: "unat (push_bit (granularity hb) (of_nat ?a :: u64)) div 2 ^ granularity hb = ?a"
    unfolding group_of_def by (rule unat_group_start [OF g])
  have "?a < 64 * length (?lv ! 6)" using le r sz by simp
  from iter_start_spec [OF t this, of "granularity hb"] obtain cs where cs: "iter_init_loop ?lv 7 ?a = Some cs"
    "iter_ok ?lv \<lparr>it_granularity = granularity hb, it_pos = ?a div 64, it_cur = cs\<rparr>"
    "remaining ?lv \<lparr>it_granularity = granularity hb, it_pos = ?a div 64, it_cur = cs\<rparr> = {k \<in> bits ?lv. ?a \<le> k}" by blast
  let ?it = "\<lparr>it_granularity = granularity hb, it_pos = ?a div 64, it_cur = cs\<rparr>"
  have i: "hbitmap_iter_init hb (push_bit (granularity hb) (of_nat ?a)) = Some ?it"
    using cs(1) le r unfolding hbitmap_iter_init_def pos by simp
  obtain p c n where c: "count_loop hb ?it (lst + 1) 0 = Some (p, c, n)"
    "(if p = (lst + 1) div 64 then n + ctpopl (c AND (push_bit ((lst + 1) mod 64) 1 - 1)) else n) =
      0 + card {k \<in> {k \<in> bits ?lv. ?a \<le> k}. k < lst + 1}"
    using count_loop_spec [OF t fin(2) cs(2), of 0] unfolding cs(3) by blast
  have "{k \<in> {k \<in> bits ?lv. ?a \<le> k}. k < lst + 1} = bits ?lv \<inter> {?a..lst}" by auto
  then show ?thesis using c i unfolding hb_count_between_def Let_def fin(1) by (auto split: if_splits)
qed

subsection \<open>Setting, resetting, reading\<close>

text \<open>The groups a range of items touches, when it lies inside the bitmap. The last item is computed
  as the code does, with wrap-around.\<close>

definition touched :: "HBitmap \<Rightarrow> u64 \<Rightarrow> u64 \<Rightarrow> nat set" where
  "touched hb start count = {group_of hb start..group_of hb (start + count - 1)}"

definition in_range :: "HBitmap \<Rightarrow> u64 \<Rightarrow> u64 \<Rightarrow> bool" where
  "in_range hb start count \<longleftrightarrow> group_of hb start \<le> group_of hb (start + count - 1) \<and> group_of hb (start + count - 1) < hb_size hb"

lemma of_nat_group: "drop_bit (granularity hb) item = of_nat (group_of hb item)"
  unfolding group_drop_bit [symmetric] by simp

lemma hbitmap_set_spec:
  assumes wf: "hb_wf hb" and r: "in_range hb start count"
  shows "\<exists>hb'. hbitmap_set hb start count = Some hb' \<and> hb_wf hb' \<and> hb_size hb' = hb_size hb \<and> granularity hb' = granularity hb \<and>
    bits (levels hb') = bits (levels hb) \<union> touched hb start count"
proof -
  let ?a = "group_of hb start" and ?l = "group_of hb (start + count - 1)" and ?B = "bits (levels hb)"
  have al: "?a \<le> ?l" "?l < hb_size hb" using r by (simp_all add: in_range_def)
  have wf': "tree_ok (levels hb)" "hb_size hb \<le> 64 * length (levels hb ! 6)" "?B \<subseteq> {..<hb_size hb}" "granularity hb < 64"
    "hb_count hb = of_nat (card ?B)" using wf by (simp_all add: hb_wf_def)
  obtain lv where lv: "hb_set_between (levels hb) 6 ?a ?l = Some lv" "tree_ok lv" "length (lv ! 6) = length (levels hb ! 6)"
    "bits lv = ?B \<union> {?a..?l}" using set_between_tree [OF wf'(1) al(1)] al(2) wf'(2) by auto
  have n: "hb_count_between hb ?a ?l = Some (card (?B \<inter> {?a..?l}))" by (rule count_between_spec [OF wf al(2,1)])
  have "card ?B + card {?a..?l} = card (?B \<union> {?a..?l}) + card (?B \<inter> {?a..?l})" by (rule card_Un_Int) simp_all
  from arg_cong [OF this, of "of_nat :: nat \<Rightarrow> u64"]
  have u: "of_nat (card ?B) + of_nat (card {?a..?l}) = (of_nat (card (?B \<union> {?a..?l})) + of_nat (card (?B \<inter> {?a..?l})) :: u64)"
    by (simp only: of_nat_add)
  have d: "of_nat ?l - of_nat ?a + 1 = (of_nat (card {?a..?l}) :: u64)" using al(1) by (simp add: of_nat_diff)
  have ring: "x + y = z + w \<Longrightarrow> x + (y - w) = z" for x y z w :: u64 by (simp add: algebra_simps)
  have c: "hb_count hb + (of_nat ?l - of_nat ?a + 1 - of_nat (card (?B \<inter> {?a..?l}))) = of_nat (card (?B \<union> {?a..?l}))"
    unfolding wf'(5) d by (rule ring [OF u])
  have "hbitmap_set hb start count = Some (hb\<lparr>hb_count := of_nat (card (?B \<union> {?a..?l})), levels := lv\<rparr>)"
    unfolding hbitmap_set_def Let_def group_drop_bit n using lv(1) c by (simp add: of_nat_group)
  then show ?thesis using lv wf' al by (auto simp: hb_wf_def touched_def)
qed

lemma hbitmap_reset_spec:
  assumes wf: "hb_wf hb" and r: "in_range hb start count"
  shows "\<exists>hb'. hbitmap_reset hb start count = Some hb' \<and> hb_wf hb' \<and> hb_size hb' = hb_size hb \<and> granularity hb' = granularity hb \<and>
    bits (levels hb') = bits (levels hb) - touched hb start count"
proof -
  let ?a = "group_of hb start" and ?l = "group_of hb (start + count - 1)" and ?B = "bits (levels hb)"
  have al: "?a \<le> ?l" "?l < hb_size hb" using r by (simp_all add: in_range_def)
  have wf': "tree_ok (levels hb)" "hb_size hb \<le> 64 * length (levels hb ! 6)" "?B \<subseteq> {..<hb_size hb}" "granularity hb < 64"
    "hb_count hb = of_nat (card ?B)" using wf by (simp_all add: hb_wf_def)
  obtain lv where lv: "hb_reset_between (levels hb) 6 ?a ?l = Some lv" "tree_ok lv" "length (lv ! 6) = length (levels hb ! 6)"
    "bits lv = ?B - {?a..?l}" using reset_between_tree [OF wf'(1) al(1)] al(2) wf'(2) by auto
  have n: "hb_count_between hb ?a ?l = Some (card (?B \<inter> {?a..?l}))" by (rule count_between_spec [OF wf al(2,1)])
  have "card ?B = card (?B - {?a..?l}) + card (?B \<inter> {?a..?l})" by (simp add: card_Diff_subset_Int card_mono)
  from arg_cong [OF this, of "of_nat :: nat \<Rightarrow> u64"]
  have c: "hb_count hb - of_nat (card (?B \<inter> {?a..?l})) = of_nat (card (?B - {?a..?l}))"
    unfolding wf'(5) by (simp only: of_nat_add add_diff_cancel_right')
  have "hbitmap_reset hb start count = Some (hb\<lparr>hb_count := of_nat (card (?B - {?a..?l})), levels := lv\<rparr>)"
    unfolding hbitmap_reset_def Let_def group_drop_bit n using lv(1) c by simp
  then show ?thesis using lv wf' al by (auto simp: hb_wf_def touched_def)
qed

lemma hbitmap_get_spec:
  assumes "hb_wf hb" "group_of hb item < hb_size hb"
  shows "hbitmap_get hb item = Some (group_of hb item \<in> bits (levels hb))"
proof -
  let ?k = "group_of hb item" and ?lv = "levels hb"
  have k: "?k < 64 * length (?lv ! 6)" "length ?lv = 7" using assms by (simp_all add: hb_wf_def tree_ok_def shape_def)
  then have w: "?k div 64 < length (?lv ! 6)" by (simp add: less_mult_imp_div_less mult.commute)
  have "x AND push_bit n 1 \<noteq> 0 \<longleftrightarrow> bit x n" if "n < 64" for x :: u64 and n
    unfolding word_nonzero_bit bit_and_iff bit_single [OF that] using that by auto
  then have "?lv ! 6 ! (?k div 64) AND push_bit (?k mod 64) 1 \<noteq> 0 \<longleftrightarrow> ?k \<in> bits ?lv"
    using k(1) by (simp add: bits_def bit_at_def)
  then show ?thesis unfolding hbitmap_get_def Let_def group_drop_bit using w k(2) by simp
qed

subsection \<open>Allocation\<close>

definition level_size :: "nat \<Rightarrow> nat" where
  "level_size n = max ((n + 63) div 64) 1"

lemma level_size_le: "n \<le> 64 * m \<Longrightarrow> 1 \<le> m \<Longrightarrow> level_size n \<le> m"
  by (simp add: level_size_def)

lemma level_size_ge: "n \<le> 64 * level_size n" "1 \<le> level_size n"
  by (simp_all add: level_size_def max_def) linarith

lemma alloc_levels_spec:
  "alloc_levels n sz = (map (\<lambda>j. replicate ((level_size ^^ (n - j)) sz) 0) [0..<n], (level_size ^^ n) sz)"
proof (induction n arbitrary: sz)
  case (Suc n)
  have "(level_size ^^ (Suc n - j)) sz = (level_size ^^ (n - j)) (level_size sz)" if "j < n" for j
    using that by (simp add: Suc_diff_le funpow_Suc_right del: funpow.simps)
  then have "map (\<lambda>j. replicate ((level_size ^^ (Suc n - j)) sz) (0 :: u64)) [0..<n] =
      map (\<lambda>j. replicate ((level_size ^^ (n - j)) (level_size sz)) 0) [0..<n]" by simp
  moreover have "alloc_levels (Suc n) sz =
      (case alloc_levels n (level_size sz) of (lv, rest) \<Rightarrow> (lv @ [replicate (level_size sz) 0], rest))"
    by (simp only: alloc_levels.simps Let_def level_size_def)
  ultimately show ?case using Suc.IH [of "level_size sz"] by (simp add: funpow_Suc_right del: funpow.simps alloc_levels.simps)
qed simp

lemma level_sizes:
  assumes "sz \<le> 2 ^ 41"
  shows "(level_size ^^ 6) sz \<le> 32" "(level_size ^^ 7) sz = 1"
proof -
  note le = level_size_le
  have "level_size sz \<le> 2 ^ 35" using assms by - (rule le, simp_all)
  then have "level_size (level_size sz) \<le> 2 ^ 29" by - (rule le, simp_all)
  then have "level_size (level_size (level_size sz)) \<le> 2 ^ 23" by - (rule le, simp_all)
  then have "level_size (level_size (level_size (level_size sz))) \<le> 2 ^ 17" by - (rule le, simp_all)
  then have "level_size (level_size (level_size (level_size (level_size sz)))) \<le> 2 ^ 11" by - (rule le, simp_all)
  then have "level_size (level_size (level_size (level_size (level_size (level_size sz))))) \<le> 32" by - (rule le, simp_all)
  then show s: "(level_size ^^ 6) sz \<le> 32" by (simp add: eval_nat_numeral)
  then have "level_size ((level_size ^^ 6) sz) \<le> 1" by - (rule le, simp_all)
  then have "level_size ((level_size ^^ 6) sz) = 1" using level_size_ge(2) [of "(level_size ^^ 6) sz"] by simp
  moreover have "(level_size ^^ 7) sz = level_size ((level_size ^^ 6) sz)" by (simp add: eval_nat_numeral)
  ultimately show "(level_size ^^ 7) sz = 1" by simp
qed

text \<open>The number of groups the code computes, with wrap-around in the rounding.\<close>

definition groups_of :: "u64 \<Rightarrow> nat \<Rightarrow> nat" where
  "groups_of sz g = unat (drop_bit g (sz + push_bit g 1 - 1))"

lemma hbitmap_alloc_wf:
  assumes g: "g < 64" and sz: "groups_of sz g \<le> 2 ^ 41"
  shows "\<exists>hb. hbitmap_alloc sz g = Some hb \<and> hb_wf hb \<and> hb_size hb = groups_of sz g \<and> granularity hb = g \<and> bits (levels hb) = {}"
proof -
  let ?n = "groups_of sz g"
  define L lv where "L = (\<lambda>j. (level_size ^^ (7 - j)) ?n)"
    and "lv = (map (\<lambda>j. replicate (L j) 0) [0..<7])[0 := [push_bit 63 1 :: u64]]"
  have L0: "L 0 = 1" "L 1 \<le> 32" using level_sizes [OF sz] by (simp_all add: L_def)
  have LS: "L j = level_size (L (Suc j))" if "j < 6" for j
  proof -
    have "7 - j = Suc (7 - Suc j)" using that by simp
    then show ?thesis by (simp only: L_def funpow.simps comp_def)
  qed
  have a: "alloc_levels 7 ?n = (map (\<lambda>j. replicate (L j) 0) [0..<7], 1)"
    unfolding alloc_levels_spec L_def using level_sizes(2) [OF sz] by simp
  have len: "length lv = 7" "\<And>j. j < 7 \<Longrightarrow> length (lv ! j) = L j" using L0 by (auto simp: lv_def nth_list_update)
  have z: "lv ! j = replicate (L j) 0" if "0 < j" "j < 7" for j using that by (simp add: lv_def)
  have h: "hbitmap_alloc sz g = Some \<lparr>hb_size = ?n, hb_count = 0, granularity = g, levels = lv\<rparr>"
    using g sz L0(1) a unfolding hbitmap_alloc_def groups_of_def [symmetric] Let_def lv_def by simp
  have sh: "shape lv" using len L0 LS level_size_ge(1) by (auto simp: shape_def)
  have "link lv i" if "i < 6" for i
  proof -
    have up: "k < length (lv ! Suc i) \<Longrightarrow> lv ! Suc i ! k = 0" for k using z [of "Suc i"] that by simp
    have "bit_at (lv ! i) k \<longleftrightarrow> marker i k" if k: "k < 64 * length (lv ! i)" for k
    proof (cases "i = 0")
      case True
      have "bit (push_bit 63 1 :: u64) k \<longleftrightarrow> k = 63" by (rule bit_single) simp
      moreover have "lv ! 0 = [push_bit 63 1]" by (simp add: lv_def)
      moreover have "k < 64" using k len(2) [of 0] L0 True by simp
      ultimately show ?thesis using True by (simp only: bit_at_def marker_def) simp
    next
      case False
      have "k div 64 < L i" using k len(2) [of i] \<open>i < 6\<close> by (simp add: less_mult_imp_div_less mult.commute)
      then show ?thesis using z [of i] False \<open>i < 6\<close> by (simp add: bit_at_def marker_def)
    qed
    then show ?thesis unfolding link_def using up by blast
  qed
  then have t: "tree_ok lv" using sh by (simp add: tree_ok_def)
  have "k div 64 < L 6" if "k < 64 * length (lv ! 6)" for k using that len(2) [of 6] by (simp add: less_mult_imp_div_less mult.commute)
  then have b: "bits lv = {}" using z [of 6] by (auto simp: bits_def bit_at_def)
  have "?n \<le> 64 * length (lv ! 6)" using len(2) [of 6] level_size_ge(1) [of ?n] by (simp add: L_def)
  then show ?thesis using h t b g by (auto simp: hb_wf_def)
qed

subsection \<open>Properties\<close>

text \<open>Sequences of operations, on a bitmap and on a set of groups.\<close>

datatype range_op = Set_range u64 u64 | Reset_range u64 u64

primrec op_in_range :: "('s \<Rightarrow> u64 \<Rightarrow> u64 \<Rightarrow> bool) \<Rightarrow> 's \<Rightarrow> range_op \<Rightarrow> bool" where
  "op_in_range ok s (Set_range start count) = ok s start count"
| "op_in_range ok s (Reset_range start count) = ok s start count"

primrec op_on_set :: "(u64 \<Rightarrow> u64 \<Rightarrow> nat set) \<Rightarrow> range_op \<Rightarrow> nat set \<Rightarrow> nat set" where
  "op_on_set rng (Set_range start count) A = A \<union> rng start count"
| "op_on_set rng (Reset_range start count) A = A - rng start count"

primrec op_on_bitmap :: "('s \<Rightarrow> u64 \<Rightarrow> u64 \<Rightarrow> 's option) \<Rightarrow> ('s \<Rightarrow> u64 \<Rightarrow> u64 \<Rightarrow> 's option) \<Rightarrow> range_op \<Rightarrow> 's \<Rightarrow> 's option" where
  "op_on_bitmap st rst (Set_range start count) s = st s start count"
| "op_on_bitmap st rst (Reset_range start count) s = rst s start count"

primrec run_ops :: "(range_op \<Rightarrow> 's \<Rightarrow> 's option) \<Rightarrow> range_op list \<Rightarrow> 's \<Rightarrow> 's option" where
  "run_ops f [] s = Some s"
| "run_ops f (x # xs) s = Option.bind (f x s) (run_ops f xs)"

text \<open>The contract of a set of groups with range operations: the operations return when their range is
  inside, keep the invariant and the parameters, and add or remove the range.\<close>

locale range_set =
  fixes inv :: "'s \<Rightarrow> bool" and abs :: "'s \<Rightarrow> nat set" and ok :: "'s \<Rightarrow> u64 \<Rightarrow> u64 \<Rightarrow> bool"
    and rng :: "'s \<Rightarrow> u64 \<Rightarrow> u64 \<Rightarrow> nat set" and st rst :: "'s \<Rightarrow> u64 \<Rightarrow> u64 \<Rightarrow> 's option"
  assumes set_adds: "inv s \<Longrightarrow> ok s a n \<Longrightarrow>
      \<exists>s'. st s a n = Some s' \<and> inv s' \<and> ok s' = ok s \<and> rng s' = rng s \<and> abs s' = abs s \<union> rng s a n"
    and reset_removes: "inv s \<Longrightarrow> ok s a n \<Longrightarrow>
      \<exists>s'. rst s a n = Some s' \<and> inv s' \<and> ok s' = ok s \<and> rng s' = rng s \<and> abs s' = abs s - rng s a n"
begin

lemma op_refines:
  assumes "inv s" "op_in_range ok s x"
  shows "\<exists>s'. op_on_bitmap st rst x s = Some s' \<and> inv s' \<and> ok s' = ok s \<and> rng s' = rng s \<and> abs s' = op_on_set (rng s) x (abs s)"
  using assms set_adds reset_removes by (cases x) auto

lemma run_refines:
  "inv s \<Longrightarrow> \<forall>x \<in> set xs. op_in_range ok s x \<Longrightarrow>
    \<exists>s'. run_ops (op_on_bitmap st rst) xs s = Some s' \<and> inv s' \<and> ok s' = ok s \<and> rng s' = rng s \<and>
      abs s' = fold (op_on_set (rng s)) xs (abs s)"
proof (induction xs arbitrary: s)
  case (Cons x xs)
  obtain s1 where s1: "op_on_bitmap st rst x s = Some s1" "inv s1" "ok s1 = ok s" "rng s1 = rng s"
    "abs s1 = op_on_set (rng s) x (abs s)" using op_refines [OF Cons.prems(1), of x] Cons.prems(2) by auto
  have "op_in_range ok s1 y \<longleftrightarrow> op_in_range ok s y" for y using s1(3) by (cases y) simp_all
  then have "\<forall>y \<in> set xs. op_in_range ok s1 y" using Cons.prems(2) by simp
  from Cons.IH [OF s1(2) this] s1 show ?case by auto
qed simp

end

interpretation hbset: range_set hb_wf "\<lambda>hb. bits (levels hb)" in_range touched hbitmap_set hbitmap_reset
proof unfold_locales
  fix hb a n assume h: "hb_wf hb" "in_range hb a n"
  have params: "in_range hb' = in_range hb \<and> touched hb' = touched hb" if "hb_size hb' = hb_size hb" "granularity hb' = granularity hb" for hb'
    using that by (auto simp: in_range_def touched_def group_of_def fun_eq_iff)
  show "\<exists>hb'. hbitmap_set hb a n = Some hb' \<and> hb_wf hb' \<and> in_range hb' = in_range hb \<and> touched hb' = touched hb \<and>
      bits (levels hb') = bits (levels hb) \<union> touched hb a n" using hbitmap_set_spec [OF h] params by blast
  show "\<exists>hb'. hbitmap_reset hb a n = Some hb' \<and> hb_wf hb' \<and> in_range hb' = in_range hb \<and> touched hb' = touched hb \<and>
      bits (levels hb') = bits (levels hb) - touched hb a n" using hbitmap_reset_spec [OF h] params by blast
qed

lemma of_nat_eq_0_small: "n \<le> 2 ^ 41 \<Longrightarrow> (of_nat n :: u64) = 0 \<longleftrightarrow> n = 0"
proof -
  assume "n \<le> 2 ^ 41"
  then have u: "unat (of_nat n :: u64) = n" by (simp only: unsigned_of_nat) (simp add: take_bit_nat_eq_self)
  show ?thesis
  proof
    assume "(of_nat n :: u64) = 0"
    with u show "n = 0" by simp
  qed simp
qed

lemma run_ops_params:
  "run_ops (op_on_bitmap hbitmap_set hbitmap_reset) xs hb = Some hb' \<Longrightarrow> hb_size hb' = hb_size hb \<and> granularity hb' = granularity hb"
proof (induction xs arbitrary: hb)
  case (Cons x xs)
  then obtain hb1 where h: "op_on_bitmap hbitmap_set hbitmap_reset x hb = Some hb1"
    "run_ops (op_on_bitmap hbitmap_set hbitmap_reset) xs hb1 = Some hb'" by (auto split: bind_splits)
  then have "hb_size hb1 = hb_size hb \<and> granularity hb1 = granularity hb"
    by (cases x) (auto simp: hbitmap_set_def hbitmap_reset_def Let_def split: bind_splits)
  then show ?case using Cons.IH [OF h(2)] by simp
qed simp

text \<open>
  C22: A hierarchical bitmap refines a set of groups. After allocation and any sequence of set and reset
  operations inside the bitmap, the operations have returned, the seven levels are consistent, the
  count is the size of the set that the same operations build, a group is read as set exactly when it
  is a member, and the bitmap says that it is empty exactly when the set is.\<close>

theorem hbitmap_refines_set:
  assumes "hbitmap_alloc sz g = Some hb" "\<forall>x \<in> set xs. op_in_range in_range hb x"
  shows "\<exists>hb'. run_ops (op_on_bitmap hbitmap_set hbitmap_reset) xs hb = Some hb' \<and> hb_wf hb' \<and>
    (let A = fold (op_on_set (touched hb)) xs {}
     in bits (levels hb') = A \<and> hb_count hb' = of_nat (card A) \<and> (hbitmap_empty hb' \<longleftrightarrow> A = {}) \<and>
        (group_of hb item < hb_size hb \<longrightarrow> hbitmap_get hb' item = Some (group_of hb item \<in> A)))"
proof -
  have "g < 64" "groups_of sz g \<le> 2 ^ 41" using assms(1) by (auto simp: hbitmap_alloc_def groups_of_def Let_def split: if_splits)
  then have hb: "hb_wf hb" "bits (levels hb) = {}" using hbitmap_alloc_wf [of g sz] assms(1) by auto
  let ?A = "fold (op_on_set (touched hb)) xs {}"
  obtain hb' where r: "run_ops (op_on_bitmap hbitmap_set hbitmap_reset) xs hb = Some hb'" "hb_wf hb'"
    "in_range hb' = in_range hb" "touched hb' = touched hb" "bits (levels hb') = ?A"
    using hbset.run_refines [OF hb(1) assms(2)] hb(2) by auto
  have p: "hb_size hb' = hb_size hb" "granularity hb' = granularity hb" using run_ops_params [OF r(1)] by simp_all
  have c: "hb_count hb' = of_nat (card ?A)" using r(2,5) by (simp add: hb_wf_def)
  have "?A \<subseteq> {..<hb_size hb'}" "hb_size hb' \<le> 2 ^ 41" using r(2,5) tree_length [of "levels hb'"] by (auto simp: hb_wf_def)
  then have "finite ?A" "card ?A \<le> 2 ^ 41" using card_mono [of "{..<hb_size hb'}" ?A] finite_subset by auto
  then have "hbitmap_empty hb' \<longleftrightarrow> ?A = {}" unfolding hbitmap_empty_def c by (simp add: of_nat_eq_0_small)
  moreover have "hbitmap_get hb' item = Some (group_of hb item \<in> ?A)" if "group_of hb item < hb_size hb"
    using hbitmap_get_spec [OF r(2), of item] that p r(5) by (simp add: group_of_def)
  ultimately show ?thesis using r(1,2,5) c by (auto simp: Let_def)
qed

text \<open>The bitmap of the example in the source: 16 items in groups of two.\<close>

lemma alloc_example:
  obtains hb where "hbitmap_alloc 16 1 = Some hb" "hb_wf hb" "hb_size hb = 8" "granularity hb = 1" "bits (levels hb) = {}"
proof -
  have "groups_of 16 1 = 8" by (simp add: groups_of_def)
  with hbitmap_alloc_wf [of 1 16] that show thesis by auto
qed

theorem hbitmap_refines_set_witness:
  "\<exists>hb hb'. hbitmap_alloc 16 1 = Some hb \<and>
     run_ops (op_on_bitmap hbitmap_set hbitmap_reset) [Set_range 0 9, Reset_range 1 3] hb = Some hb' \<and>
     bits (levels hb') = {2, 3, 4} \<and> hbitmap_get hb' 5 = Some True"
proof -
  obtain hb where hb: "hbitmap_alloc 16 1 = Some hb" "hb_size hb = 8" "granularity hb = 1" by (rule alloc_example)
  let ?xs = "[Set_range 0 9, Reset_range 1 3]"
  have r: "\<forall>x \<in> set ?xs. op_in_range in_range hb x" using hb by (simp add: in_range_def group_of_def)
  have "fold (op_on_set (touched hb)) ?xs {} = {0..4} - {0..1}" using hb by (simp add: touched_def group_of_def)
  also have "\<dots> = {2, 3, 4}" by auto
  finally have A: "fold (op_on_set (touched hb)) ?xs {} = {2, 3, 4}" .
  have "group_of hb 5 = 2" using hb by (simp add: group_of_def)
  then show ?thesis using hbitmap_refines_set [OF hb(1) r, of 5] hb unfolding A by (auto simp: Let_def)
qed

text \<open>The client's loop over an iterator, until it returns -1.\<close>

partial_function (option) visit :: "HBitmap \<Rightarrow> HBitmapIter \<Rightarrow> int list option" where
  "visit hb hbi =
     do {
       (item, hbi) \<leftarrow> hbitmap_iter_next hb hbi;
       if item < 0 then Some [] else do { items \<leftarrow> visit hb hbi; Some (item # items) }
     }"

lemma sint_item:
  assumes "k * 2 ^ g < (2 :: nat) ^ 63"
  shows "sint (push_bit g (of_nat k) :: u64) = int (k * 2 ^ g)"
proof -
  have "push_bit g (of_nat k :: u64) = of_nat (k * 2 ^ g)" by (simp add: push_bit_eq_mult)
  moreover have u: "unat (of_nat (k * 2 ^ g) :: u64) = k * 2 ^ g"
    using assms by (simp only: unsigned_of_nat) (simp add: take_bit_nat_eq_self)
  ultimately show ?thesis using sint_small [of "of_nat (k * 2 ^ g) :: u64"] assms by (simp only: u) simp
qed

lemma visit_spec:
  assumes t: "tree_ok (levels hb)" and small: "\<forall>k \<in> bits (levels hb). k * 2 ^ g < (2 :: nat) ^ 63"
  shows "iter_ok (levels hb) it \<Longrightarrow> it_granularity it = g \<Longrightarrow>
    visit hb it = Some (map (\<lambda>k. int (k * 2 ^ g)) (sorted_list_of_set (remaining (levels hb) it)))"
proof (induction "card (remaining (levels hb) it)" arbitrary: it rule: less_induct)
  case less
  let ?R = "remaining (levels hb)"
  have fin: "finite (?R it)" by (rule finite_subset [OF remaining_bits finite_bits])
  obtain r it' where n: "hbitmap_iter_next hb it = Some (r, it')" "it_granularity it' = it_granularity it" "iter_ok (levels hb) it'"
    "if ?R it = {} then r = -1 \<and> it' = it
     else r = sint (push_bit (it_granularity it) (of_nat (Min (?R it))) :: u64) \<and> ?R it' = ?R it - {Min (?R it)}"
    using iter_next_spec [OF t less.prems(1)] by blast
  show ?case
  proof (cases "?R it = {}")
    case True
    then show ?thesis using n by (subst visit.simps) simp
  next
    case False
    let ?m = "Min (?R it)"
    have m: "?m \<in> ?R it" using fin False by simp
    then have "?m \<in> bits (levels hb)" using remaining_bits by blast
    then have r: "r = int (?m * 2 ^ g)" using n(4) False small less.prems(2) by (simp add: sint_item)
    have R': "?R it' = ?R it - {?m}" using n(4) False by simp
    have "card (?R it') < card (?R it)" unfolding R' using fin m by (intro psubset_card_mono) auto
    from less.hyps [OF this n(3)] n(2) less.prems(2)
    have "visit hb it' = Some (map (\<lambda>k. int (k * 2 ^ g)) (sorted_list_of_set (?R it - {?m})))" by (simp add: R')
    moreover have "\<not> r < 0" unfolding r by (simp only: of_nat_less_0_iff not_False_eq_True)
    ultimately show ?thesis using n(1) r sorted_list_of_set_nonempty [OF fin False] by (subst visit.simps) simp
  qed
qed

text \<open>
  C23: Iteration over a well-formed bitmap ends and visits exactly the set groups from the first item
  on, in ascending order, each as its first item.\<close>

theorem hbitmap_iter_visits:
  assumes "hb_wf hb" "group_of hb first < hb_size hb" "hb_size hb * 2 ^ granularity hb \<le> 2 ^ 63"
  shows "\<exists>hbi. hbitmap_iter_init hb first = Some hbi \<and>
    visit hb hbi = Some (map (\<lambda>k. int (k * 2 ^ granularity hb)) (sorted_list_of_set {k \<in> bits (levels hb). group_of hb first \<le> k}))"
proof -
  have t: "tree_ok (levels hb)" and p: "group_of hb first < 64 * length (levels hb ! 6)" and b: "bits (levels hb) \<subseteq> {..<hb_size hb}"
    using assms(1,2) by (simp_all add: hb_wf_def)
  have small: "\<forall>k \<in> bits (levels hb). k * 2 ^ granularity hb < (2 :: nat) ^ 63"
  proof
    fix k assume "k \<in> bits (levels hb)"
    then have "k * 2 ^ granularity hb < hb_size hb * 2 ^ granularity hb" using b by auto
    then show "k * 2 ^ granularity hb < 2 ^ 63" using assms(3) by linarith
  qed
  obtain cs where cs: "iter_init_loop (levels hb) 7 (group_of hb first) = Some cs"
    "iter_ok (levels hb) \<lparr>it_granularity = granularity hb, it_pos = group_of hb first div 64, it_cur = cs\<rparr>"
    "remaining (levels hb) \<lparr>it_granularity = granularity hb, it_pos = group_of hb first div 64, it_cur = cs\<rparr> =
      {k \<in> bits (levels hb). group_of hb first \<le> k}" using iter_start_spec [OF t p, of "granularity hb"] by blast
  have "hbitmap_iter_init hb first = Some \<lparr>it_granularity = granularity hb, it_pos = group_of hb first div 64, it_cur = cs\<rparr>"
    using cs(1) assms(2) unfolding hbitmap_iter_init_def group_of_def [symmetric] by simp
  then show ?thesis using visit_spec [OF t small cs(2)] cs(3) by simp
qed

theorem hbitmap_iter_visits_witness:
  "\<exists>hb hb' hbi. hbitmap_alloc 16 1 = Some hb \<and> hbitmap_set hb 0 9 = Some hb' \<and> hbitmap_iter_init hb' 4 = Some hbi \<and>
     visit hb' hbi = Some [4, 6, 8]"
proof -
  obtain hb where hb: "hbitmap_alloc 16 1 = Some hb" "hb_wf hb" "hb_size hb = 8" "granularity hb = 1" "bits (levels hb) = {}"
    by (rule alloc_example)
  have "in_range hb 0 9" using hb by (simp add: in_range_def group_of_def)
  from hbitmap_set_spec [OF hb(2) this] obtain hb' where s: "hbitmap_set hb 0 9 = Some hb'" "hb_wf hb'" "hb_size hb' = 8"
    "granularity hb' = 1" "bits (levels hb') = {0..4}" using hb by (auto simp: touched_def group_of_def)
  have "{k \<in> bits (levels hb'). group_of hb' 4 \<le> k} = {2, 3, 4}" unfolding s(5) using s(4) by (auto simp: group_of_def)
  moreover have "sorted_list_of_set {2, 3, 4 :: nat} = [2, 3, 4]" by (rule sorted_distinct_set_unique) simp_all
  moreover have "group_of hb' 4 < hb_size hb'" "hb_size hb' * 2 ^ granularity hb' \<le> 2 ^ 63" using s by (simp_all add: group_of_def)
  ultimately show ?thesis using hbitmap_iter_visits [OF s(2), of 4] hb(1) s(1,4) by auto
qed

text \<open>
  A range of no items is not always empty: setting zero items at a position inside a group sets
  the group.\<close>

lemma hbitmap_set_nothing_sets_group:
  assumes "hb_wf hb" "group_of hb start < hb_size hb" "unat start mod 2 ^ granularity hb \<noteq> 0"
  shows "\<exists>hb'. hbitmap_set hb start 0 = Some hb' \<and> bits (levels hb') = insert (group_of hb start) (bits (levels hb))"
proof -
  have "start \<noteq> 0" using assms(3) by auto
  then have u: "unat (start + 0 - 1) = unat start - 1" "0 < unat start" by (simp_all add: unat_minus_one unat_pos_iff)
  have "(n - 1) div m = n div m" if r: "n mod m \<noteq> 0" for n m :: nat
  proof (cases "m = 0")
    case False
    have "n - 1 = (n mod m - 1) + n div m * m" using div_mult_mod_eq [of n m] r by linarith
    moreover have "n mod m - 1 < m" using False mod_less_divisor [of m n] by linarith
    ultimately show ?thesis using False by simp
  qed simp
  then have g: "group_of hb (start + 0 - 1) = group_of hb start" using u assms(3) unfolding group_of_def by simp
  then have "in_range hb start 0" using assms(2) by (simp add: in_range_def)
  from hbitmap_set_spec [OF assms(1) this] show ?thesis using g by (auto simp: touched_def)
qed

end
