(* ===== verification/I8259.thy ===== *)
theory I8259
  imports Temu_Prelude
begin

text \<open>
  \<open>hw/intc/i8259.c\<close> and the shared part in \<open>hw/intc/i8259_common.c\<close>: the two cascaded
  interrupt controllers of the PC. The state is the pair of chips with the level of the output of the
  first, which goes to the processor; the output of the second is wired to input 2 of the first, so
  updating it runs the input handler of the first. The interrupt numbers are natural numbers where
  the code has shown them to be between 0 and 7, integers where \<open>-1\<close> means none.
\<close>

subsection \<open>State\<close>

record PICCommonState =
  last_irr :: byte
  irr :: byte
  imr :: byte
  isr :: byte
  priority_add :: byte
  irq_base :: byte
  read_reg_select :: byte
  poll :: byte
  special_mask :: byte
  init_state :: byte
  auto_eoi :: byte
  rotate_on_auto_eoi :: byte
  special_fully_nested_mode :: byte
  init4 :: byte
  single_mode :: byte
  elcr :: byte
  elcr_mask :: byte
  master :: bool

datatype chip = Isa_pic | Slave_pic

record pics =
  isa_pic :: PICCommonState
  slave_pic :: PICCommonState
  parent_irq :: bool

primrec chip_of :: "chip \<Rightarrow> pics \<Rightarrow> PICCommonState" where
  "chip_of Isa_pic p = isa_pic p"
| "chip_of Slave_pic p = slave_pic p"

primrec chip_upd :: "chip \<Rightarrow> (PICCommonState \<Rightarrow> PICCommonState) \<Rightarrow> pics \<Rightarrow> pics" where
  "chip_upd Isa_pic f p = p\<lparr>isa_pic := f (isa_pic p)\<rparr>"
| "chip_upd Slave_pic f p = p\<lparr>slave_pic := f (slave_pic p)\<rparr>"

subsection \<open>Priorities\<close>

text \<open>The input that has priority \<open>k\<close> after rotation by \<open>a\<close>.\<close>

definition line :: "byte \<Rightarrow> nat \<Rightarrow> nat" where
  "line a k = (k + unat a) mod 8"

text \<open>The loop of \<open>get_priority\<close>. It stops because the inputs come round every eight steps; a
  mask without a bit below 8 is caught before the loop.\<close>

lemma line_hits:
  assumes "bit (msk :: byte) i"
  shows "\<exists>k' \<ge> k. bit msk (line a k')"
proof -
  have i: "i < 8" using bit_imp_le_length [OF assms] by simp
  have "8 * k + 8 * unat a + i - unat a + unat a = i + 8 * (k + unat a)" by simp
  then have "line a (8 * k + 8 * unat a + i - unat a) = i" using i unfolding line_def by (simp only: mod_mult_self2) simp
  moreover have "k \<le> 8 * k + 8 * unat a + i - unat a" by simp
  ultimately show ?thesis using assms by (intro exI [of _ "8 * k + 8 * unat a + i - unat a"]) simp
qed

function priority_loop :: "byte \<Rightarrow> byte \<Rightarrow> nat \<Rightarrow> nat" where
  "priority_loop a msk priority =
     (if msk = 0 \<or> bit msk (line a priority) then priority else priority_loop a msk (Suc priority))"
  by pat_completeness auto
termination
proof (relation "measure (\<lambda>(a, msk, k). (LEAST k'. k \<le> k' \<and> bit msk (line a k')) - k)")
  fix a msk :: byte and priority :: nat
  assume h: "\<not> (msk = 0 \<or> bit msk (line a priority))"
  then obtain i where "bit msk i" by (auto simp: bit_eq_iff)
  from line_hits [OF this] obtain k where k: "priority \<le> k \<and> bit msk (line a k)" by blast
  have same: "(priority \<le> k' \<and> bit msk (line a k')) = (Suc priority \<le> k' \<and> bit msk (line a k'))" for k'
    using h by (cases "k' = priority") auto
  have "Suc priority \<le> (LEAST k'. Suc priority \<le> k' \<and> bit msk (line a k'))"
    using LeastI [of "\<lambda>k'. Suc priority \<le> k' \<and> bit msk (line a k')" k] k same by auto
  then show "((a, msk, Suc priority), a, msk, priority) \<in> measure (\<lambda>(a, msk, k). (LEAST k'. k \<le> k' \<and> bit msk (line a k')) - k)"
    by (simp add: same)
qed simp

declare priority_loop.simps [simp del]

definition get_priority :: "PICCommonState \<Rightarrow> byte \<Rightarrow> nat" where
  "get_priority s msk = (if msk = 0 then 8 else priority_loop (priority_add s) msk 0)"

definition pic_get_irq :: "PICCommonState \<Rightarrow> int" where
  "pic_get_irq s =
     (let priority = get_priority s (irr s AND NOT (imr s))
      in if priority = 8 then -1
         else let msk = isr s;
                  msk = (if special_mask s \<noteq> 0 then msk AND NOT (imr s) else msk);
                  msk = (if special_fully_nested_mode s \<noteq> 0 \<and> master s then msk AND NOT (push_bit 2 1) else msk);
                  cur_priority = get_priority s msk
              in if priority < cur_priority then int (line (priority_add s) priority) else -1)"

subsection \<open>Inputs and output\<close>

text \<open>What \<open>pic_set_irq\<close> does to the registers of its chip.\<close>

definition latch_irq :: "nat \<Rightarrow> bool \<Rightarrow> PICCommonState \<Rightarrow> PICCommonState" where
  "latch_irq irq level s =
     (let msk = push_bit irq 1
      in if elcr s AND msk \<noteq> 0
         then if level then s\<lparr>irr := irr s OR msk, last_irr := last_irr s OR msk\<rparr>
              else s\<lparr>irr := irr s AND NOT msk, last_irr := last_irr s AND NOT msk\<rparr>
         else if level
              then s\<lparr>irr := (if last_irr s AND msk = 0 then irr s OR msk else irr s), last_irr := last_irr s OR msk\<rparr>
              else s\<lparr>last_irr := last_irr s AND NOT msk\<rparr>)"

text \<open>Driving the output. The output of the second chip is input 2 of the first, whose handler
  drives its own output in turn.\<close>

definition drive_parent :: "pics \<Rightarrow> pics" where
  "drive_parent p = p\<lparr>parent_irq := 0 \<le> pic_get_irq (isa_pic p)\<rparr>"

primrec pic_update_irq :: "chip \<Rightarrow> pics \<Rightarrow> pics" where
  "pic_update_irq Isa_pic p = drive_parent p"
| "pic_update_irq Slave_pic p = drive_parent (chip_upd Isa_pic (latch_irq 2 (0 \<le> pic_get_irq (slave_pic p))) p)"

definition pic_set_irq :: "chip \<Rightarrow> nat \<Rightarrow> bool \<Rightarrow> pics \<Rightarrow> pics" where
  "pic_set_irq c irq level p = pic_update_irq c (chip_upd c (latch_irq irq level) p)"

definition ack_regs :: "nat \<Rightarrow> PICCommonState \<Rightarrow> PICCommonState" where
  "ack_regs irq s0 =
     (let s = (if auto_eoi s0 \<noteq> 0
               then if rotate_on_auto_eoi s0 \<noteq> 0 then s0\<lparr>priority_add := of_nat (irq + 1) AND 7\<rparr> else s0
               else s0\<lparr>isr := isr s0 OR push_bit irq 1\<rparr>)
      in if elcr s AND push_bit irq 1 = 0 then s\<lparr>irr := irr s AND NOT (push_bit irq 1)\<rparr> else s)"

definition pic_intack :: "chip \<Rightarrow> nat \<Rightarrow> pics \<Rightarrow> pics" where
  "pic_intack c irq p = pic_update_irq c (chip_upd c (ack_regs irq) p)"

definition pic_read_irq :: "pics \<Rightarrow> int \<times> pics" where
  "pic_read_irq p =
     (let irq = pic_get_irq (isa_pic p)
      in if 0 \<le> irq
         then if irq = 2
              then let irq2 = pic_get_irq (slave_pic p);
                       (irq2, p) = (if 0 \<le> irq2 then (irq2, pic_intack Slave_pic (nat irq2) p) else (7, p));
                       intno = uint (irq_base (slave_pic p)) + irq2
                   in (intno, pic_intack Isa_pic (nat irq) p)
              else (uint (irq_base (isa_pic p)) + irq, pic_intack Isa_pic (nat irq) p)
         else (uint (irq_base (isa_pic p)) + 7, p))"

definition pic_get_output :: "pics \<Rightarrow> bool" where
  "pic_get_output p = (0 \<le> pic_get_irq (isa_pic p))"

subsection \<open>Reset and ports\<close>

definition pic_reset_common :: "PICCommonState \<Rightarrow> PICCommonState" where
  "pic_reset_common s = s\<lparr>last_irr := 0, irr := irr s AND elcr s, imr := 0, isr := 0, priority_add := 0, irq_base := 0,
     read_reg_select := 0, poll := 0, special_mask := 0, init_state := 0, auto_eoi := 0, rotate_on_auto_eoi := 0,
     special_fully_nested_mode := 0, init4 := 0, single_mode := 0\<rparr>"

definition pic_init_reset :: "chip \<Rightarrow> pics \<Rightarrow> pics" where
  "pic_init_reset c p = pic_update_irq c (chip_upd c pic_reset_common p)"

definition pic_reset :: "chip \<Rightarrow> pics \<Rightarrow> pics" where
  "pic_reset c p = pic_init_reset c (chip_upd c (\<lambda>s. s\<lparr>elcr := 0\<rparr>) p)"

text \<open>The end-of-interrupt and priority commands, \<open>val >> 5\<close> on the command port.\<close>

definition clear_isr :: "nat \<Rightarrow> PICCommonState \<Rightarrow> PICCommonState" where
  "clear_isr irq s = s\<lparr>isr := isr s AND NOT (push_bit irq 1)\<rparr>"

definition pic_command :: "chip \<Rightarrow> u32 \<Rightarrow> pics \<Rightarrow> pics" where
  "pic_command c val p =
     (let cmd = drop_bit 5 val; s = chip_of c p
      in if cmd = 0 \<or> cmd = 4 then chip_upd c (\<lambda>s. s\<lparr>rotate_on_auto_eoi := ucast (drop_bit 2 cmd)\<rparr>) p
         else if cmd = 1 \<or> cmd = 5
         then let priority = get_priority s (isr s)
              in if priority \<noteq> 8
                 then let irq = line (priority_add s) priority
                      in pic_update_irq c (chip_upd c (\<lambda>s.
                           if cmd = 5 then (clear_isr irq s)\<lparr>priority_add := of_nat (irq + 1) AND 7\<rparr> else clear_isr irq s) p)
                 else p
         else if cmd = 3 then pic_update_irq c (chip_upd c (clear_isr (unat (val AND 7))) p)
         else if cmd = 6 then pic_update_irq c (chip_upd c (\<lambda>s. s\<lparr>priority_add := ucast ((val + 1) AND 7)\<rparr>) p)
         else if cmd = 7
         then pic_update_irq c (chip_upd c (\<lambda>s. (clear_isr (unat (val AND 7)) s)\<lparr>priority_add := ucast ((val AND 7) + 1) AND 7\<rparr>) p)
         else p)"

definition ocw3 :: "u32 \<Rightarrow> PICCommonState \<Rightarrow> PICCommonState" where
  "ocw3 val s0 =
     (let s = (if val AND 0x04 \<noteq> 0 then s0\<lparr>poll := 1\<rparr> else s0);
          s = (if val AND 0x02 \<noteq> 0 then s\<lparr>read_reg_select := ucast (val AND 1)\<rparr> else s)
      in if val AND 0x40 \<noteq> 0 then s\<lparr>special_mask := ucast (drop_bit 5 val AND 1)\<rparr> else s)"

definition pic_ioport_write :: "chip \<Rightarrow> u32 \<Rightarrow> u32 \<Rightarrow> pics \<Rightarrow> pics" where
  "pic_ioport_write c addr val p =
     (if addr = 0
      then if val AND 0x10 \<noteq> 0
           then chip_upd c (\<lambda>s. s\<lparr>init_state := 1, init4 := ucast (val AND 1), single_mode := ucast (val AND 2)\<rparr>)
                  (pic_init_reset c p)
           else if val AND 0x08 \<noteq> 0 then chip_upd c (ocw3 val) p
           else pic_command c val p
      else let s = chip_of c p; i = init_state s
           in if i = 0 then pic_update_irq c (chip_upd c (\<lambda>s. s\<lparr>imr := ucast val\<rparr>) p)
              else if i = 1
              then chip_upd c (\<lambda>s. s\<lparr>irq_base := ucast (val AND 0xf8),
                     init_state := (if single_mode s \<noteq> 0 then if init4 s \<noteq> 0 then 3 else 0 else 2)\<rparr>) p
              else if i = 2 then chip_upd c (\<lambda>s. s\<lparr>init_state := (if init4 s \<noteq> 0 then 3 else 0)\<rparr>) p
              else if i = 3
              then chip_upd c (\<lambda>s. s\<lparr>special_fully_nested_mode := ucast (drop_bit 4 val AND 1),
                     auto_eoi := ucast (drop_bit 1 val AND 1), init_state := 0\<rparr>) p
              else p)"

definition pic_ioport_read :: "chip \<Rightarrow> u64 \<Rightarrow> pics \<Rightarrow> int \<times> pics" where
  "pic_ioport_read c addr p =
     (let s = chip_of c p
      in if poll s \<noteq> 0
         then let ret = pic_get_irq s;
                  (ret, p) = (if 0 \<le> ret then (ret OR 0x80, pic_intack c (nat ret) p) else (0, p))
              in (ret, chip_upd c (\<lambda>s. s\<lparr>poll := 0\<rparr>) p)
         else (if addr = 0 then if read_reg_select s \<noteq> 0 then uint (isr s) else uint (irr s) else uint (imr s), p))"

definition elcr_ioport_write :: "chip \<Rightarrow> u64 \<Rightarrow> pics \<Rightarrow> pics" where
  "elcr_ioport_write c val p = chip_upd c (\<lambda>s. s\<lparr>elcr := ucast (val AND ucast (elcr_mask s))\<rparr>) p"

definition elcr_ioport_read :: "chip \<Rightarrow> pics \<Rightarrow> byte" where
  "elcr_ioport_read c p = elcr (chip_of c p)"

text \<open>The properties the two chips are created with, and the state of the pair after creation and
  reset. The objects are zeroed when created.\<close>

definition i8259_init_chip :: "bool \<Rightarrow> PICCommonState" where
  "i8259_init_chip m = \<lparr>last_irr = 0, irr = 0, imr = 0, isr = 0, priority_add = 0, irq_base = 0, read_reg_select = 0,
     poll = 0, special_mask = 0, init_state = 0, auto_eoi = 0, rotate_on_auto_eoi = 0, special_fully_nested_mode = 0,
     init4 = 0, single_mode = 0, elcr = 0, elcr_mask = (if m then 0xf8 else 0xde), master = m\<rparr>"

definition i8259_init :: pics where
  "i8259_init = \<lparr>isa_pic = i8259_init_chip True, slave_pic = i8259_init_chip False, parent_irq = False\<rparr>"

subsection \<open>Selection\<close>

text \<open>The rank of an input: its distance from the one with the highest priority.\<close>

definition rank :: "byte \<Rightarrow> nat \<Rightarrow> nat" where
  "rank a i = (i + (8 - unat a mod 8)) mod 8"

lemma rank_less [simp]: "rank a i < 8"
  by (simp add: rank_def)

lemma line_less [simp]: "line a k < 8"
  by (simp add: line_def)

lemma add_complement: "x + (8 - n mod 8) + n = x + 8 * (1 + n div 8)" for n x :: nat
proof -
  define q r where "q = n div 8" and "r = n mod 8"
  have "r \<le> 8" "n = 8 * q + r" by (simp_all add: q_def r_def less_imp_le)
  then show ?thesis unfolding q_def [symmetric] r_def [symmetric] by simp
qed

lemma line_rank [simp]: "i < 8 \<Longrightarrow> line a (rank a i) = i"
  unfolding line_def rank_def mod_add_left_eq add_complement by (simp only: mod_mult_self2) simp

lemma rank_line [simp]: "k < 8 \<Longrightarrow> rank a (line a k) = k"
proof -
  assume k: "k < 8"
  have "k + unat a + (8 - unat a mod 8) = k + 8 * (1 + unat a div 8)" using add_complement [of k "unat a"] by simp
  then show ?thesis using k unfolding line_def rank_def mod_add_left_eq by (simp only: mod_mult_self2) simp
qed

lemma priority_loop_first:
  "msk \<noteq> 0 \<Longrightarrow> k \<le> priority_loop a msk k \<and> bit msk (line a (priority_loop a msk k)) \<and>
    (\<forall>k'. k \<le> k' \<and> k' < priority_loop a msk k \<longrightarrow> \<not> bit msk (line a k'))"
proof (induction a msk k rule: priority_loop.induct)
  case (1 a msk k)
  show ?case
  proof (cases "bit msk (line a k)")
    case True
    then have "priority_loop a msk k = k" by (subst priority_loop.simps) simp
    then show ?thesis using True by auto
  next
    case False
    then have e: "priority_loop a msk k = priority_loop a msk (Suc k)" using 1(2) by (subst priority_loop.simps) simp
    have "\<not> bit msk (line a k')" if "k \<le> k'" "k' < priority_loop a msk (Suc k)" for k'
      using 1 False that by (cases "k' = k") auto
    then show ?thesis using 1 False unfolding e by auto
  qed
qed

lemma get_priority_none [simp]: "get_priority s 0 = 8"
  by (simp add: get_priority_def)

lemma get_priority_first:
  assumes "msk \<noteq> 0"
  shows "get_priority s msk < 8" "bit msk (line (priority_add s) (get_priority s msk))"
    "bit msk j \<Longrightarrow> get_priority s msk \<le> rank (priority_add s) j"
proof -
  let ?a = "priority_add s"
  note f = priority_loop_first [OF assms, of 0 ?a]
  have g: "get_priority s msk = priority_loop ?a msk 0" using assms by (simp add: get_priority_def)
  show "bit msk (line ?a (get_priority s msk))" using f g by simp
  show le: "get_priority s msk \<le> rank ?a j" if "bit msk j" for j
  proof (rule ccontr)
    have "j < 8" using bit_imp_le_length [OF that] by simp
    moreover assume "\<not> get_priority s msk \<le> rank ?a j"
    ultimately show False using f g that by (metis le0 line_rank not_le)
  qed
  obtain i where "bit msk i" using assms by (auto simp: bit_eq_iff)
  from le [OF this] show "get_priority s msk < 8" using rank_less le_less_trans by blast
qed

lemma get_priority_eq:
  assumes "bit msk i" "\<And>j. bit msk j \<Longrightarrow> rank (priority_add s) i \<le> rank (priority_add s) j"
  shows "get_priority s msk = rank (priority_add s) i"
proof -
  have "msk \<noteq> 0" using assms(1) by auto
  note g = get_priority_first [OF this, where s = s]
  show ?thesis using g(3) [OF assms(1)] assms(2) [OF g(2)] g(1) by simp
qed

text \<open>What the controller should choose: a request that is not masked, ahead of every other one and of
  every interrupt in service that counts.\<close>

definition wanted :: "PICCommonState \<Rightarrow> nat \<Rightarrow> bool" where
  "wanted s i \<longleftrightarrow> bit (irr s) i \<and> \<not> bit (imr s) i"

definition serving :: "PICCommonState \<Rightarrow> nat \<Rightarrow> bool" where
  "serving s i \<longleftrightarrow> bit (isr s) i \<and> (special_mask s \<noteq> 0 \<longrightarrow> \<not> bit (imr s) i) \<and>
     (special_fully_nested_mode s \<noteq> 0 \<and> master s \<longrightarrow> i \<noteq> 2)"

definition selected :: "PICCommonState \<Rightarrow> nat \<Rightarrow> bool" where
  "selected s i \<longleftrightarrow> wanted s i \<and> (\<forall>j. wanted s j \<longrightarrow> rank (priority_add s) i \<le> rank (priority_add s) j) \<and>
     (\<forall>j. serving s j \<longrightarrow> rank (priority_add s) i < rank (priority_add s) j)"

definition service_mask :: "PICCommonState \<Rightarrow> byte" where
  "service_mask s =
     (let m = (if special_mask s \<noteq> 0 then isr s AND NOT (imr s) else isr s)
      in if special_fully_nested_mode s \<noteq> 0 \<and> master s then m AND NOT (push_bit 2 1) else m)"

lemma bit_4_iff: "bit (4 :: int) i \<longleftrightarrow> i = 2"
proof -
  have "bit (2 ^ 2 :: int) i \<longleftrightarrow> i = 2" by (simp only: bit_exp_iff) auto
  then show ?thesis by simp
qed

lemma bit_service_mask: "bit (service_mask s) i \<longleftrightarrow> serving s i"
  by (auto simp: service_mask_def serving_def Let_def bit_simps bit_4_iff dest: bit_imp_le_length)

lemma bit_wanted: "bit (irr s AND NOT (imr s)) i \<longleftrightarrow> wanted s i"
  by (auto simp: wanted_def bit_simps dest: bit_imp_le_length)

lemma wanted_less: "wanted s i \<Longrightarrow> i < 8"
  using bit_imp_le_length by (fastforce simp: wanted_def)

lemma pic_get_irq_alt:
  "pic_get_irq s = (let k = get_priority s (irr s AND NOT (imr s))
     in if k \<noteq> 8 \<and> k < get_priority s (service_mask s) then int (line (priority_add s) k) else -1)"
  unfolding pic_get_irq_def service_mask_def Let_def by simp

lemma rank_inj: "i < 8 \<Longrightarrow> j < 8 \<Longrightarrow> rank a i = rank a j \<Longrightarrow> i = j"
  by (metis line_rank)

lemma pic_get_irq_selected: "selected s i \<Longrightarrow> pic_get_irq s = int i"
proof -
  assume sel: "selected s i"
  let ?a = "priority_add s"
  have i: "i < 8" using sel by (auto simp: selected_def dest: wanted_less)
  have k: "get_priority s (irr s AND NOT (imr s)) = rank ?a i"
    using sel by (intro get_priority_eq) (simp_all add: bit_wanted selected_def)
  have "rank ?a i < get_priority s (service_mask s)"
  proof (cases "service_mask s = 0")
    case False
    note g = get_priority_first [OF False, where s = s]
    then have "serving s (line ?a (get_priority s (service_mask s)))" by (simp add: bit_service_mask)
    then show ?thesis using sel g(1) by (metis selected_def rank_line)
  qed simp
  then show ?thesis using k i rank_less [of ?a i] by (simp add: pic_get_irq_alt Let_def del: rank_less)
qed

lemma selected_pic_get_irq: "pic_get_irq s \<noteq> -1 \<Longrightarrow> \<exists>i. selected s i"
proof -
  assume n: "pic_get_irq s \<noteq> -1"
  let ?m = "irr s AND NOT (imr s)" and ?a = "priority_add s"
  let ?k = "get_priority s ?m"
  have k: "?k \<noteq> 8" "?k < get_priority s (service_mask s)" using n by (auto simp: pic_get_irq_alt Let_def split: if_splits)
  then have "?m \<noteq> 0" by auto
  note g = get_priority_first [OF this, where s = s]
  have "\<forall>j. serving s j \<longrightarrow> ?k < rank ?a j"
  proof (intro allI impI)
    fix j assume "serving s j"
    then have b: "bit (service_mask s) j" by (simp add: bit_service_mask)
    then have "service_mask s \<noteq> 0" by auto
    from get_priority_first(3) [OF this b] k(2) show "?k < rank ?a j" by (rule less_le_trans [rotated])
  qed
  then have "selected s (line ?a ?k)" using g by (simp add: selected_def bit_wanted)
  then show ?thesis ..
qed

lemma pic_get_irq_range: "-1 \<le> pic_get_irq s" "pic_get_irq s < 8"
  using line_less by (simp_all add: pic_get_irq_alt Let_def)

text \<open>
  C24: The interrupt controller selects the request that should be served: an unmasked one ahead, in
  the rotated order, of all other unmasked requests and of every interrupt in service that counts in
  the current mode; and it selects nothing exactly when there is no such request.\<close>

theorem pic_get_irq_highest:
  "(\<forall>i. pic_get_irq s = int i \<longleftrightarrow> selected s i) \<and> (pic_get_irq s = -1 \<longleftrightarrow> (\<nexists>i. selected s i))"
proof -
  have 1: "pic_get_irq s = int i \<longleftrightarrow> selected s i" for i
  proof
    assume e: "pic_get_irq s = int i"
    then obtain j where j: "selected s j" using selected_pic_get_irq by force
    then show "selected s i" using pic_get_irq_selected [OF j] e by simp
  qed (rule pic_get_irq_selected)
  have "pic_get_irq s = -1 \<longleftrightarrow> (\<nexists>i. selected s i)" using selected_pic_get_irq [of s] pic_get_irq_selected [of s] by force
  with 1 show ?thesis by blast
qed

subsection \<open>Acknowledging and ending an interrupt\<close>

lemma chip_of_upd [simp]: "chip_of c (chip_upd c f p) = f (chip_of c p)"
  by (cases c) simp_all

lemma chip_of_update [simp]: "chip_of c (pic_update_irq c p) = chip_of c p"
  by (cases c) (simp_all add: drive_parent_def)

text \<open>
  C26: In the normal modes an acknowledged interrupt is undone by the end-of-interrupt command: the
  command finds the interrupt acknowledged last, and the interrupts in service are again those from
  before.\<close>

theorem intack_then_eoi:
  assumes "pic_get_irq (chip_of c p) = int i" "auto_eoi (chip_of c p) = 0" "special_mask (chip_of c p) = 0"
    "special_fully_nested_mode (chip_of c p) = 0"
  shows "isr (chip_of c (pic_intack c i p)) = isr (chip_of c p) OR push_bit i 1 \<and>
    isr (chip_of c (pic_ioport_write c 0 0x20 (pic_intack c i p))) = isr (chip_of c p)"
proof -
  let ?s = "chip_of c p" and ?a = "priority_add (chip_of c p)"
  let ?t = "ack_regs i ?s"
  obtain j where "selected ?s j" using selected_pic_get_irq [of ?s] assms(1) by force
  then have sel: "selected ?s i" using pic_get_irq_selected assms(1) by fastforce
  have i: "i < 8" using sel by (auto simp: selected_def dest: wanted_less)
  have t: "isr ?t = isr ?s OR push_bit i 1" "priority_add ?t = ?a" using assms(2) by (simp_all add: ack_regs_def Let_def)
  have less: "rank ?a i < rank ?a j" if "bit (isr ?s) j" for j
    using sel that assms(3,4) by (simp add: selected_def serving_def)
  have "get_priority ?t (isr ?t) = rank ?a i"
    unfolding t(2) [symmetric] using i less
    by (intro get_priority_eq) (auto simp: t bit_simps less_imp_le)
  moreover have "rank ?a i \<noteq> 8" using rank_less [of ?a i] by (simp del: rank_less)
  ultimately have "isr (chip_of c (pic_ioport_write c 0 0x20 (pic_intack c i p))) = isr ?t AND NOT (push_bit i 1)"
    using i by (simp add: pic_ioport_write_def pic_command_def pic_intack_def Let_def t clear_isr_def)
  moreover have "(isr ?s OR push_bit i 1) AND NOT (push_bit i 1) = isr ?s"
    by (rule bit_word_eqI) (use less [of i] in \<open>auto simp: bit_simps\<close>)
  ultimately show ?thesis using t by (simp add: pic_intack_def)
qed

theorem intack_then_eoi_witness:
  "isr (chip_of Isa_pic (pic_ioport_write Isa_pic 0 0x20 (pic_intack Isa_pic 3 (pic_set_irq Isa_pic 3 True i8259_init)))) = 0"
proof -
  let ?p = "pic_set_irq Isa_pic 3 True i8259_init"
  have "pic_get_irq (chip_of Isa_pic ?p) = int 3" by code_simp
  moreover have "auto_eoi (chip_of Isa_pic ?p) = 0" "special_mask (chip_of Isa_pic ?p) = 0"
    "special_fully_nested_mode (chip_of Isa_pic ?p) = 0" by code_simp+
  ultimately have "isr (chip_of Isa_pic (pic_ioport_write Isa_pic 0 0x20 (pic_intack Isa_pic 3 ?p))) = isr (chip_of Isa_pic ?p)"
    using intack_then_eoi [of Isa_pic ?p 3] by blast
  moreover have "isr (chip_of Isa_pic ?p) = 0" by code_simp
  ultimately show ?thesis by simp
qed

subsection \<open>The output line\<close>

text \<open>The registers the selection depends on.\<close>

definition same_choice :: "PICCommonState \<Rightarrow> PICCommonState \<Rightarrow> bool" where
  "same_choice s t \<longleftrightarrow> irr t = irr s \<and> imr t = imr s \<and> isr t = isr s \<and> priority_add t = priority_add s \<and>
     special_mask t = special_mask s \<and> special_fully_nested_mode t = special_fully_nested_mode s \<and> master t = master s \<and>
     last_irr t = last_irr s"

lemma same_choice_get_irq: "same_choice s t \<Longrightarrow> pic_get_irq t = pic_get_irq s"
  by (simp add: same_choice_def pic_get_irq_def get_priority_def Let_def)

definition outputs_ok :: "pics \<Rightarrow> bool" where
  "outputs_ok p \<longleftrightarrow> (parent_irq p \<longleftrightarrow> pic_get_output p) \<and> (bit (last_irr (isa_pic p)) 2 \<longrightarrow> 0 \<le> pic_get_irq (slave_pic p))"

text \<open>Changes that leave the choice alone, and changes followed by an update.\<close>

lemma outputs_ok_quiet: "outputs_ok p \<Longrightarrow> same_choice (chip_of c p) (f (chip_of c p)) \<Longrightarrow> outputs_ok (chip_upd c f p)"
  by (cases c) (simp_all add: outputs_ok_def pic_get_output_def same_choice_get_irq, simp_all add: same_choice_def)

definition keeps_input2 :: "PICCommonState \<Rightarrow> PICCommonState \<Rightarrow> bool" where
  "keeps_input2 s t \<longleftrightarrow> (bit (last_irr t) 2 \<longrightarrow> bit (last_irr s) 2)"

lemma latch_irq_last: "bit (last_irr (latch_irq irq level s)) i \<longleftrightarrow> (if i = irq \<and> i < 8 then level else bit (last_irr s) i)"
  by (auto simp: latch_irq_def Let_def bit_simps dest: bit_imp_le_length)

lemma outputs_ok_update:
  assumes "outputs_ok p" "c = Isa_pic \<Longrightarrow> keeps_input2 (isa_pic p) (f (isa_pic p))"
  shows "outputs_ok (pic_update_irq c (chip_upd c f p))"
proof (cases c)
  case Isa_pic
  then show ?thesis using assms by (simp add: outputs_ok_def drive_parent_def pic_get_output_def keeps_input2_def)
next
  case Slave_pic
  then show ?thesis by (simp add: outputs_ok_def drive_parent_def pic_get_output_def latch_irq_last)
qed

lemma outputs_ok_command: "outputs_ok p \<Longrightarrow> outputs_ok (pic_command c val p)"
  unfolding pic_command_def Let_def
  by (auto intro!: outputs_ok_update outputs_ok_quiet simp: keeps_input2_def clear_isr_def same_choice_def)

lemma outputs_ok_intack: "outputs_ok p \<Longrightarrow> outputs_ok (pic_intack c i p)"
  unfolding pic_intack_def by (rule outputs_ok_update) (simp_all add: keeps_input2_def ack_regs_def Let_def)

lemma outputs_ok_init_reset: "outputs_ok p \<Longrightarrow> outputs_ok (pic_init_reset c p)"
  unfolding pic_init_reset_def by (rule outputs_ok_update) (simp_all add: keeps_input2_def pic_reset_common_def)

text \<open>The two writes after which the code does not update the output: the special mask mode and the
  last initialisation word.\<close>

definition mode_write :: "chip \<Rightarrow> u32 \<Rightarrow> u32 \<Rightarrow> pics \<Rightarrow> bool" where
  "mode_write c addr val p \<longleftrightarrow>
     (if addr = 0 then val AND 0x10 = 0 \<and> val AND 0x08 \<noteq> 0 \<and> val AND 0x40 \<noteq> 0 else init_state (chip_of c p) = 3)"

lemma outputs_ok_write: "outputs_ok p \<Longrightarrow> \<not> mode_write c addr val p \<Longrightarrow> outputs_ok (pic_ioport_write c addr val p)"
  unfolding pic_ioport_write_def mode_write_def Let_def
  by (auto intro!: outputs_ok_update outputs_ok_quiet outputs_ok_command outputs_ok_init_reset
      simp: keeps_input2_def same_choice_def ocw3_def Let_def)

lemma outputs_ok_read: "outputs_ok p \<Longrightarrow> outputs_ok (snd (pic_ioport_read c addr p))"
  by (auto simp: pic_ioport_read_def Let_def same_choice_def intro!: outputs_ok_quiet outputs_ok_intack)

lemma outputs_ok_read_irq: "outputs_ok p \<Longrightarrow> outputs_ok (snd (pic_read_irq p))"
  by (auto simp: pic_read_irq_def Let_def intro!: outputs_ok_intack)

inductive pic_step :: "pics \<Rightarrow> pics \<Rightarrow> bool" where
  line: "irq < 8 \<Longrightarrow> c = Isa_pic \<longrightarrow> irq \<noteq> 2 \<Longrightarrow> pic_step p (pic_set_irq c irq level p)"
| acknowledge: "pic_step p (snd (pic_read_irq p))"
| reset: "pic_step p (pic_reset c p)"
| port_write: "\<not> mode_write c addr val p \<Longrightarrow> pic_step p (pic_ioport_write c addr val p)"
| port_read: "pic_step p (snd (pic_ioport_read c addr64 p))"
| trigger: "pic_step p (elcr_ioport_write c val64 p)"

lemma pic_step_ok: "pic_step p p' \<Longrightarrow> outputs_ok p \<Longrightarrow> outputs_ok p'"
proof (induction rule: pic_step.induct)
  case (line irq c p level)
  then show ?case unfolding pic_set_irq_def by (intro outputs_ok_update) (auto simp: keeps_input2_def latch_irq_last)
next
  case (reset p c)
  then show ?case unfolding pic_reset_def
    by (intro outputs_ok_init_reset outputs_ok_quiet) (simp_all add: same_choice_def)
next
  case (trigger p c val64)
  then show ?case unfolding elcr_ioport_write_def by (intro outputs_ok_quiet) (simp_all add: same_choice_def)
qed (simp_all add: outputs_ok_read_irq outputs_ok_write outputs_ok_read)

text \<open>
  C25: In every state the controllers reach by input lines, acknowledgements, resets and port accesses
  other than mode writes, the line to the processor is high exactly when an interrupt is selected,
  and the cascade input is latched high only while the second controller has one.\<close>

theorem pic_output_follows_registers:
  assumes "pic_step\<^sup>*\<^sup>* i8259_init p"
  shows "(parent_irq p \<longleftrightarrow> (\<exists>i. selected (isa_pic p) i)) \<and>
    (bit (last_irr (isa_pic p)) 2 \<longrightarrow> (\<exists>i. selected (slave_pic p) i))"
proof -
  have sel: "0 \<le> pic_get_irq s \<longleftrightarrow> (\<exists>i. selected s i)" for s
    using selected_pic_get_irq [of s] pic_get_irq_selected [of s] pic_get_irq_range(1) [of s] by force
  have "pic_get_irq (isa_pic i8259_init) = -1"
    by (simp add: i8259_init_def i8259_init_chip_def pic_get_irq_def)
  then have "outputs_ok i8259_init" by (simp add: outputs_ok_def pic_get_output_def i8259_init_def i8259_init_chip_def)
  with assms have "outputs_ok p" by (induction rule: rtranclp_induct) (auto intro: pic_step_ok)
  then show ?thesis by (simp add: outputs_ok_def pic_get_output_def sel)
qed

theorem pic_output_follows_registers_witness:
  "parent_irq (pic_set_irq Slave_pic 4 True i8259_init) \<and> (\<exists>i. selected (isa_pic (pic_set_irq Slave_pic 4 True i8259_init)) i)"
proof -
  have "pic_step i8259_init (pic_set_irq Slave_pic 4 True i8259_init)" by (rule pic_step.line) simp_all
  then have "pic_step\<^sup>*\<^sup>* i8259_init (pic_set_irq Slave_pic 4 True i8259_init)" by (rule r_into_rtranclp)
  note pic_output_follows_registers [OF this]
  moreover have "parent_irq (pic_set_irq Slave_pic 4 True i8259_init)" by code_simp
  ultimately show ?thesis by blast
qed


end
