(* ===== verification/Net_Queue.thy ===== *)
theory Net_Queue
  imports Iov
begin

text \<open>
  \<open>net/queue.c\<close> and the delivery functions of \<open>net/net.c\<close>: the queue of packets in front of
  every network client. Clients and sent callbacks are numbers, standing for their addresses; the
  queue of a client is named by the client. The functions behind the pointers of
  \<open>NetClientInfo\<close> and behind \<open>NetPacketSent\<close> are parameters. They may change the whole
  state, so a receiver may queue packets while one is delivered to it. A packet carries the address it was
  allocated at, which is never used again; reading a packet that is no longer queued is
  \<open>None\<close>. \<open>hub_ports\<close> gives for a port of a hub the ports of that hub, in the order of its
  list (\<open>net/hub.c\<close>), and nothing for other clients; \<open>notify_events\<close> counts the calls of
  \<open>qemu_notify_event\<close>. Sizes are 64-bit words where they are \<open>size_t\<close> and 32-bit words where they are
  \<open>int\<close>; a receiver that is told a size beyond its buffer reads outside it, which is \<open>None\<close>.
\<close>

subsection \<open>State\<close>

type_synonym client = nat

record NetPacket =
  entry :: nat
  sender :: client
  pkt_flags :: u32
  pkt_size :: c_int
  sent_cb :: "nat option"
  pkt_data :: buffer

record NetQueue =
  opaque :: client
  nq_maxlen :: u32
  nq_count :: u32
  packets :: "NetPacket list"
  delivering :: bool

record NetClientState =
  nc_link_down :: bool
  peer :: "client option"
  incoming_queue :: NetQueue
  receive_disabled :: bool

record 'd net =
  clients :: "client \<Rightarrow> NetClientState"
  next_packet :: nat
  vm_running :: bool
  net_mem :: host_mem
  hub_ports :: "client \<Rightarrow> client list option"
  notify_events :: nat
  device :: 'd

record 'd NetClientInfo =
  receive :: "client \<Rightarrow> buffer \<Rightarrow> 'd net \<Rightarrow> (u64 \<times> 'd net) option"
  receive_raw :: "(client \<Rightarrow> buffer \<Rightarrow> 'd net \<Rightarrow> (u64 \<times> 'd net) option) option"
  receive_iov :: "(client \<Rightarrow> iovec list \<Rightarrow> 'd net \<Rightarrow> (u64 \<times> 'd net) option) option"
  can_receive :: "(client \<Rightarrow> 'd net \<Rightarrow> (bool \<times> 'd net) option) option"

record 'd net_code =
  info :: "client \<Rightarrow> 'd NetClientInfo"
  sent_fn :: "nat \<Rightarrow> client \<Rightarrow> u64 \<Rightarrow> 'd net \<Rightarrow> 'd net option"

definition upd_client :: "client \<Rightarrow> (NetClientState \<Rightarrow> NetClientState) \<Rightarrow> 'd net \<Rightarrow> 'd net" where
  "upd_client c f s = s\<lparr>clients := (clients s)(c := f (clients s c))\<rparr>"

definition queue_of :: "'d net \<Rightarrow> client \<Rightarrow> NetQueue" where
  "queue_of s q = incoming_queue (clients s q)"

definition upd_queue :: "client \<Rightarrow> (NetQueue \<Rightarrow> NetQueue) \<Rightarrow> 'd net \<Rightarrow> 'd net" where
  "upd_queue q f = upd_client q (incoming_queue_update f)"

subsection \<open>Delivery to a client\<close>

definition qemu_can_send_packet :: "'d net_code \<Rightarrow> client \<Rightarrow> 'd net \<Rightarrow> (bool \<times> 'd net) option" where
  "qemu_can_send_packet C from s =
     (if \<not> vm_running s then Some (False, s)
      else case peer (clients s from) of
             None \<Rightarrow> Some (True, s)
           | Some p \<Rightarrow>
               if receive_disabled (clients s p) then Some (False, s)
               else case can_receive (info C p) of
                      None \<Rightarrow> Some (True, s)
                    | Some f \<Rightarrow> f p s)"

definition qemu_deliver_packet ::
  "'d net_code \<Rightarrow> client \<Rightarrow> u32 \<Rightarrow> buffer \<Rightarrow> u64 \<Rightarrow> client \<Rightarrow> 'd net \<Rightarrow> (u64 \<times> 'd net) option" where
  "qemu_deliver_packet C from flags data sz nc s =
     (if nc_link_down (clients s nc) then Some (sz, s)
      else if receive_disabled (clients s nc) then Some (0, s)
      else if length data < unat sz then None
      else do {
        (ret, s) \<leftarrow> (case receive_raw (info C nc) of
                       Some raw \<Rightarrow> if flags AND 1 \<noteq> 0 then raw else receive (info C nc)
                     | None \<Rightarrow> receive (info C nc)) nc (take (unat sz) data) s;
        Some (ret, if ret = 0 then upd_client nc (receive_disabled_update (\<lambda>_. True)) s else s)
      })"

text \<open>\<open>NET_BUFSIZE\<close> bytes of the vector at most reach a receiver without \<open>receive_iov\<close>.\<close>

definition nc_sendv_compat :: "'d net_code \<Rightarrow> client \<Rightarrow> iovec list \<Rightarrow> 'd net \<Rightarrow> (u64 \<times> 'd net) option" where
  "nc_sendv_compat C nc vs s =
     do {
       (offset, buf) \<leftarrow> iov_to_buf vs 0 (4096 + 65536) (net_mem s);
       receive (info C nc) nc (take offset buf) s
     }"

text \<open>The result passes through a variable of type \<open>int\<close>.\<close>

definition qemu_deliver_packet_iov ::
  "'d net_code \<Rightarrow> client \<Rightarrow> u32 \<Rightarrow> iovec list \<Rightarrow> client \<Rightarrow> 'd net \<Rightarrow> (u64 \<times> 'd net) option" where
  "qemu_deliver_packet_iov C from flags vs nc s =
     (if nc_link_down (clients s nc) then Some (word_of_nat (iov_size vs), s)
      else if receive_disabled (clients s nc) then Some (0, s)
      else do {
        (ret, s) \<leftarrow> (case receive_iov (info C nc) of
                       Some f \<Rightarrow> f nc vs s
                     | None \<Rightarrow> nc_sendv_compat C nc vs s);
        let ret = (ucast ret :: c_int);
        Some (scast ret, if ret = 0 then upd_client nc (receive_disabled_update (\<lambda>_. True)) s else s)
      })"

subsection \<open>The queue\<close>

definition qemu_new_net_queue :: "client \<Rightarrow> NetQueue" where
  "qemu_new_net_queue opq =
     \<lparr>opaque = opq, nq_maxlen = 10000, nq_count = 0, packets = [], delivering = False\<rparr>"

text \<open>The allocation of a packet and \<open>QTAILQ_INSERT_TAIL\<close>.\<close>

definition insert_packet ::
  "client \<Rightarrow> client \<Rightarrow> u32 \<Rightarrow> c_int \<Rightarrow> nat option \<Rightarrow> buffer \<Rightarrow> 'd net \<Rightarrow> 'd net" where
  "insert_packet q from flags sz cb data s =
     (let packet = \<lparr>entry = next_packet s, sender = from, pkt_flags = flags, pkt_size = sz,
                    sent_cb = cb, pkt_data = data\<rparr>
      in upd_queue q (\<lambda>Q. Q\<lparr>nq_count := nq_count Q + 1, packets := packets Q @ [packet]\<rparr>)
           (s\<lparr>next_packet := next_packet s + 1\<rparr>))"

definition qemu_net_queue_append ::
  "client \<Rightarrow> client \<Rightarrow> u32 \<Rightarrow> buffer \<Rightarrow> u64 \<Rightarrow> nat option \<Rightarrow> 'd net \<Rightarrow> 'd net option" where
  "qemu_net_queue_append q from flags buf sz cb s =
     (if nq_maxlen (queue_of s q) \<le> nq_count (queue_of s q) \<and> cb = None then Some s
      else if length buf < unat sz then None
      else Some (insert_packet q from flags (ucast sz) cb (take (unat sz) buf) s))"

text \<open>The second loop of \<open>qemu_net_queue_append_iov\<close>: the offset of each copy is the \<open>int\<close>
  \<open>packet->size\<close>, which must still be the number of bytes copied.\<close>

primrec append_iov_loop :: "host_mem \<Rightarrow> iovec list \<Rightarrow> c_int \<Rightarrow> buffer \<Rightarrow> (c_int \<times> buffer) option" where
  "append_iov_loop m [] sz data = Some (sz, data)"
| "append_iov_loop m (v # vs) sz data =
     (if unat (scast sz :: u64) \<noteq> length data then None
      else append_iov_loop m vs (sz + word_of_nat (iov_len v)) (data @ mem_read m (iov_base v) (iov_len v)))"

definition qemu_net_queue_append_iov ::
  "client \<Rightarrow> client \<Rightarrow> u32 \<Rightarrow> iovec list \<Rightarrow> nat option \<Rightarrow> 'd net \<Rightarrow> 'd net option" where
  "qemu_net_queue_append_iov q from flags vs cb s =
     (if nq_maxlen (queue_of s q) \<le> nq_count (queue_of s q) \<and> cb = None then Some s
      else do {
        (sz, data) \<leftarrow> append_iov_loop (net_mem s) vs 0 [];
        Some (insert_packet q from flags sz cb data s)
      })"

definition qemu_net_queue_deliver ::
  "'d net_code \<Rightarrow> client \<Rightarrow> client \<Rightarrow> u32 \<Rightarrow> buffer \<Rightarrow> u64 \<Rightarrow> 'd net \<Rightarrow> (u64 \<times> 'd net) option" where
  "qemu_net_queue_deliver C q from flags data sz s =
     do {
       let s = upd_queue q (delivering_update (\<lambda>_. True)) s;
       (ret, s) \<leftarrow> qemu_deliver_packet C from flags data sz (opaque (queue_of s q)) s;
       Some (ret, upd_queue q (delivering_update (\<lambda>_. False)) s)
     }"

definition qemu_net_queue_deliver_iov ::
  "'d net_code \<Rightarrow> client \<Rightarrow> client \<Rightarrow> u32 \<Rightarrow> iovec list \<Rightarrow> 'd net \<Rightarrow> (u64 \<times> 'd net) option" where
  "qemu_net_queue_deliver_iov C q from flags vs s =
     do {
       let s = upd_queue q (delivering_update (\<lambda>_. True)) s;
       (ret, s) \<leftarrow> qemu_deliver_packet_iov C from flags vs (opaque (queue_of s q)) s;
       Some (ret, upd_queue q (delivering_update (\<lambda>_. False)) s)
     }"

text \<open>\<open>QTAILQ_REMOVE\<close> of a queued packet, with the count.\<close>

definition remove_packet :: "client \<Rightarrow> NetPacket \<Rightarrow> 'd net \<Rightarrow> 'd net" where
  "remove_packet q packet =
     upd_queue q (\<lambda>Q. Q\<lparr>packets := filter (\<lambda>p. entry p \<noteq> entry packet) (packets Q),
                         nq_count := nq_count Q - 1\<rparr>)"

definition call_sent_cb :: "'d net_code \<Rightarrow> NetPacket \<Rightarrow> u64 \<Rightarrow> 'd net \<Rightarrow> 'd net option" where
  "call_sent_cb C packet ret s =
     (case sent_cb packet of None \<Rightarrow> Some s | Some f \<Rightarrow> sent_fn C f (sender packet) ret s)"

partial_function (option) qemu_net_queue_flush ::
  "'d net_code \<Rightarrow> client \<Rightarrow> 'd net \<Rightarrow> (bool \<times> 'd net) option" where
  "qemu_net_queue_flush C q s =
     (case packets (queue_of s q) of
        [] \<Rightarrow> Some (True, s)
      | packet # _ \<Rightarrow>
          do {
            (ret64, s) \<leftarrow> qemu_net_queue_deliver C q (sender packet) (pkt_flags packet) (pkt_data packet)
                            (scast (pkt_size packet)) (remove_packet q packet s);
            let ret = (ucast ret64 :: c_int);
            if ret = 0
            then Some (False, upd_queue q (\<lambda>Q. Q\<lparr>nq_count := nq_count Q + 1,
                                                 packets := packet # packets Q\<rparr>) s)
            else do {
              s \<leftarrow> call_sent_cb C packet (scast ret) s;
              qemu_net_queue_flush C q s
            }
          })"

definition qemu_net_queue_send ::
  "'d net_code \<Rightarrow> client \<Rightarrow> client \<Rightarrow> u32 \<Rightarrow> buffer \<Rightarrow> u64 \<Rightarrow> nat option \<Rightarrow> 'd net \<Rightarrow> (u64 \<times> 'd net) option" where
  "qemu_net_queue_send C q from flags data sz cb s =
     do {
       (can, s) \<leftarrow> if delivering (queue_of s q) then Some (False, s) else qemu_can_send_packet C from s;
       if \<not> can
       then do { s \<leftarrow> qemu_net_queue_append q from flags data sz cb s; Some (0, s) }
       else do {
         (ret, s) \<leftarrow> qemu_net_queue_deliver C q from flags data sz s;
         if ret = 0
         then do { s \<leftarrow> qemu_net_queue_append q from flags data sz cb s; Some (0, s) }
         else do { (_, s) \<leftarrow> qemu_net_queue_flush C q s; Some (ret, s) }
       }
     }"

definition qemu_net_queue_send_iov ::
  "'d net_code \<Rightarrow> client \<Rightarrow> client \<Rightarrow> u32 \<Rightarrow> iovec list \<Rightarrow> nat option \<Rightarrow> 'd net \<Rightarrow> (u64 \<times> 'd net) option" where
  "qemu_net_queue_send_iov C q from flags vs cb s =
     do {
       (can, s) \<leftarrow> if delivering (queue_of s q) then Some (False, s) else qemu_can_send_packet C from s;
       if \<not> can
       then do { s \<leftarrow> qemu_net_queue_append_iov q from flags vs cb s; Some (0, s) }
       else do {
         (ret, s) \<leftarrow> qemu_net_queue_deliver_iov C q from flags vs s;
         if ret = 0
         then do { s \<leftarrow> qemu_net_queue_append_iov q from flags vs cb s; Some (0, s) }
         else do { (_, s) \<leftarrow> qemu_net_queue_flush C q s; Some (ret, s) }
       }
     }"

text \<open>\<open>QTAILQ_FOREACH_SAFE\<close>: the successor is read before the body, which may call back.\<close>

definition head_entry :: "NetPacket list \<Rightarrow> nat option" where
  "head_entry ps = (case ps of [] \<Rightarrow> None | p # _ \<Rightarrow> Some (entry p))"

partial_function (option) purge_loop ::
  "'d net_code \<Rightarrow> client \<Rightarrow> client \<Rightarrow> nat option \<Rightarrow> 'd net \<Rightarrow> 'd net option" where
  "purge_loop C q from var s =
     (case var of
        None \<Rightarrow> Some s
      | Some a \<Rightarrow>
          (case dropWhile (\<lambda>p. entry p \<noteq> a) (packets (queue_of s q)) of
             [] \<Rightarrow> None
           | packet # rest \<Rightarrow>
               do {
                 s \<leftarrow> if sender packet = from then call_sent_cb C packet 0 (remove_packet q packet s) else Some s;
                 purge_loop C q from (head_entry rest) s
               }))"

definition qemu_net_queue_purge :: "'d net_code \<Rightarrow> client \<Rightarrow> client \<Rightarrow> 'd net \<Rightarrow> 'd net option" where
  "qemu_net_queue_purge C q from s = purge_loop C q from (head_entry (packets (queue_of s q))) s"

subsection \<open>Sending from a client\<close>

definition qemu_purge_queued_packets :: "'d net_code \<Rightarrow> client \<Rightarrow> 'd net \<Rightarrow> 'd net option" where
  "qemu_purge_queued_packets C nc s =
     (case peer (clients s nc) of None \<Rightarrow> Some s | Some p \<Rightarrow> qemu_net_queue_purge C p nc s)"

definition qemu_send_packet_async_with_flags ::
  "'d net_code \<Rightarrow> client \<Rightarrow> u32 \<Rightarrow> buffer \<Rightarrow> c_int \<Rightarrow> nat option \<Rightarrow> 'd net \<Rightarrow> (u64 \<times> 'd net) option" where
  "qemu_send_packet_async_with_flags C from flags buf sz cb s =
     (case (nc_link_down (clients s from), peer (clients s from)) of
        (False, Some p) \<Rightarrow> qemu_net_queue_send C p from flags buf (scast sz) cb s
      | _ \<Rightarrow> Some (scast sz, s))"

definition qemu_send_packet_async ::
  "'d net_code \<Rightarrow> client \<Rightarrow> buffer \<Rightarrow> c_int \<Rightarrow> nat option \<Rightarrow> 'd net \<Rightarrow> (u64 \<times> 'd net) option" where
  "qemu_send_packet_async C from buf sz cb s = qemu_send_packet_async_with_flags C from 0 buf sz cb s"

definition qemu_send_packet :: "'d net_code \<Rightarrow> client \<Rightarrow> buffer \<Rightarrow> c_int \<Rightarrow> 'd net \<Rightarrow> 'd net option" where
  "qemu_send_packet C nc buf sz s = do { (_, s) \<leftarrow> qemu_send_packet_async C nc buf sz None s; Some s }"

definition qemu_send_packet_raw ::
  "'d net_code \<Rightarrow> client \<Rightarrow> buffer \<Rightarrow> c_int \<Rightarrow> 'd net \<Rightarrow> (u64 \<times> 'd net) option" where
  "qemu_send_packet_raw C nc buf sz s = qemu_send_packet_async_with_flags C nc 1 buf sz None s"

definition qemu_sendv_packet_async ::
  "'d net_code \<Rightarrow> client \<Rightarrow> iovec list \<Rightarrow> nat option \<Rightarrow> 'd net \<Rightarrow> (u64 \<times> 'd net) option" where
  "qemu_sendv_packet_async C from vs cb s =
     (case (nc_link_down (clients s from), peer (clients s from)) of
        (False, Some p) \<Rightarrow> qemu_net_queue_send_iov C p from 0 vs cb s
      | _ \<Rightarrow> Some (word_of_nat (iov_size vs), s))"

definition qemu_sendv_packet :: "'d net_code \<Rightarrow> client \<Rightarrow> iovec list \<Rightarrow> 'd net \<Rightarrow> (u64 \<times> 'd net) option" where
  "qemu_sendv_packet C nc vs s = qemu_sendv_packet_async C nc vs None s"

subsection \<open>Hubs, and flushing on behalf of a client\<close>

primrec hub_flush_loop :: "'d net_code \<Rightarrow> client \<Rightarrow> client list \<Rightarrow> c_int \<Rightarrow> 'd net \<Rightarrow> (c_int \<times> 'd net) option" where
  "hub_flush_loop C source_port [] ret s = Some (ret, s)"
| "hub_flush_loop C source_port (port # ports) ret s =
     (if port \<noteq> source_port
      then do {
        (b, s) \<leftarrow> qemu_net_queue_flush C port s;
        hub_flush_loop C source_port ports (ret + (if b then 1 else 0)) s
      }
      else hub_flush_loop C source_port ports ret s)"

definition net_hub_flush :: "'d net_code \<Rightarrow> client \<Rightarrow> 'd net \<Rightarrow> (bool \<times> 'd net) option" where
  "net_hub_flush C nc s =
     do {
       ports \<leftarrow> hub_ports s nc;
       (ret, s) \<leftarrow> hub_flush_loop C nc ports 0 s;
       Some (ret \<noteq> 0, s)
     }"

primrec hub_send_loop :: "'d net_code \<Rightarrow> client \<Rightarrow> buffer \<Rightarrow> c_int \<Rightarrow> client list \<Rightarrow> 'd net \<Rightarrow> 'd net option" where
  "hub_send_loop C source_port buf len [] s = Some s"
| "hub_send_loop C source_port buf len (port # ports) s =
     (if port = source_port then hub_send_loop C source_port buf len ports s
      else do { s \<leftarrow> qemu_send_packet C port buf len s; hub_send_loop C source_port buf len ports s })"

definition net_hub_port_receive :: "'d net_code \<Rightarrow> client \<Rightarrow> buffer \<Rightarrow> u64 \<Rightarrow> 'd net \<Rightarrow> (u64 \<times> 'd net) option" where
  "net_hub_port_receive C nc buf len s =
     do {
       ports \<leftarrow> hub_ports s nc;
       s \<leftarrow> hub_send_loop C nc buf (ucast len) ports s;
       Some (len, s)
     }"

primrec hub_sendv_loop :: "'d net_code \<Rightarrow> client \<Rightarrow> iovec list \<Rightarrow> client list \<Rightarrow> 'd net \<Rightarrow> 'd net option" where
  "hub_sendv_loop C source_port vs [] s = Some s"
| "hub_sendv_loop C source_port vs (port # ports) s =
     (if port = source_port then hub_sendv_loop C source_port vs ports s
      else do { (_, s) \<leftarrow> qemu_sendv_packet C port vs s; hub_sendv_loop C source_port vs ports s })"

definition net_hub_port_receive_iov :: "'d net_code \<Rightarrow> client \<Rightarrow> iovec list \<Rightarrow> 'd net \<Rightarrow> (u64 \<times> 'd net) option" where
  "net_hub_port_receive_iov C nc vs s =
     do {
       ports \<leftarrow> hub_ports s nc;
       s \<leftarrow> hub_sendv_loop C nc vs ports s;
       Some (word_of_nat (iov_size vs), s)
     }"

primrec hub_can_loop :: "'d net_code \<Rightarrow> client \<Rightarrow> client list \<Rightarrow> 'd net \<Rightarrow> (bool \<times> 'd net) option" where
  "hub_can_loop C src_port [] s = Some (False, s)"
| "hub_can_loop C src_port (port # ports) s =
     (if port = src_port then hub_can_loop C src_port ports s
      else do {
        (can, s) \<leftarrow> qemu_can_send_packet C port s;
        if can then Some (True, s) else hub_can_loop C src_port ports s
      })"

definition net_hub_port_can_receive :: "'d net_code \<Rightarrow> client \<Rightarrow> 'd net \<Rightarrow> (bool \<times> 'd net) option" where
  "net_hub_port_can_receive C nc s =
     do { ports \<leftarrow> hub_ports s nc; hub_can_loop C nc ports s }"

definition qemu_notify_event :: "'d net \<Rightarrow> 'd net" where
  "qemu_notify_event s = s\<lparr>notify_events := notify_events s + 1\<rparr>"

definition qemu_flush_or_purge_queued_packets :: "'d net_code \<Rightarrow> client \<Rightarrow> bool \<Rightarrow> 'd net \<Rightarrow> 'd net option" where
  "qemu_flush_or_purge_queued_packets C nc purge s0 =
     do {
       let s = upd_client nc (receive_disabled_update (\<lambda>_. False)) s0;
       s \<leftarrow> (case peer (clients s nc) of
               Some p \<Rightarrow> if hub_ports s p \<noteq> None
                         then do { (b, s) \<leftarrow> net_hub_flush C p s; Some (if b then qemu_notify_event s else s) }
                         else Some s
             | None \<Rightarrow> Some s);
       (emptied, s) \<leftarrow> qemu_net_queue_flush C nc s;
       if emptied then Some (qemu_notify_event s)
       else if purge then qemu_net_queue_purge C nc nc s
       else Some s
     }"

definition qemu_flush_queued_packets :: "'d net_code \<Rightarrow> client \<Rightarrow> 'd net \<Rightarrow> 'd net option" where
  "qemu_flush_queued_packets C nc s = qemu_flush_or_purge_queued_packets C nc False s"

subsection \<open>Fields the operations leave alone\<close>

lemma queue_of_upd [simp]:
  "queue_of (upd_queue q f s) q' = (if q' = q then f (queue_of s q) else queue_of s q')"
  "queue_of (upd_client c (receive_disabled_update g) s) q' = queue_of s q'"
  "queue_of (s\<lparr>device := d\<rparr>) q' = queue_of s q'"
  "queue_of (s\<lparr>next_packet := n\<rparr>) q' = queue_of s q'"
  by (simp_all add: queue_of_def upd_queue_def upd_client_def)

lemma upd_frame [simp]:
  "device (upd_client c h s) = device s" "next_packet (upd_client c h s) = next_packet s"
  "device (upd_queue q f s) = device s" "next_packet (upd_queue q f s) = next_packet s"
  "nc_link_down (clients (upd_queue q f s) c) = nc_link_down (clients s c)"
  "receive_disabled (clients (upd_queue q f s) c) = receive_disabled (clients s c)"
  "nc_link_down (clients (upd_client c' (receive_disabled_update g) s) c) = nc_link_down (clients s c)"
  "receive_disabled (clients (upd_client c (receive_disabled_update g) s) c) = g (receive_disabled (clients s c))"
  by (simp_all add: upd_queue_def upd_client_def)


subsection \<open>Well-formed queues\<close>

definition packet_ok :: "NetPacket \<Rightarrow> bool" where
  "packet_ok p \<longleftrightarrow> length (pkt_data p) = unat (scast (pkt_size p) :: u64)"

definition queue_ok :: "'d net \<Rightarrow> client \<Rightarrow> bool" where
  "queue_ok s q \<longleftrightarrow>
     opaque (queue_of s q) = q
     \<and> nq_count (queue_of s q) = word_of_nat (length (packets (queue_of s q)))
     \<and> distinct (map entry (packets (queue_of s q)))
     \<and> list_all (\<lambda>p. entry p < next_packet s \<and> packet_ok p) (packets (queue_of s q))"

definition pending :: "'d net \<Rightarrow> client \<Rightarrow> buffer list" where
  "pending s q = map pkt_data (packets (queue_of s q))"

text \<open>What a callback may do to the queue of \<open>q\<close>: add packets behind the others, at most as many
  as its credit says, which it uses up.\<close>

definition extends :: "('d \<Rightarrow> nat) \<Rightarrow> client \<Rightarrow> 'd net \<Rightarrow> 'd net \<Rightarrow> bool" where
  "extends credit q s s' \<longleftrightarrow>
     nc_link_down (clients s' q) = nc_link_down (clients s q) \<and> queue_ok s' q
     \<and> nq_maxlen (queue_of s' q) = nq_maxlen (queue_of s q) \<and> next_packet s \<le> next_packet s'
     \<and> (\<exists>new. packets (queue_of s' q) = packets (queue_of s q) @ new
          \<and> list_all (\<lambda>p. next_packet s \<le> entry p) new
          \<and> credit (device s') + length new \<le> credit (device s))"

text \<open>The contract of the functions behind the pointers: they return; a receiver takes the packet,
  and then records it in its log, or refuses it by the result \<open>0\<close>; sent callbacks leave the log alone.\<close>

definition receiver_ok ::
  "('d \<Rightarrow> buffer list) \<Rightarrow> ('d \<Rightarrow> nat) \<Rightarrow> client
   \<Rightarrow> (client \<Rightarrow> buffer \<Rightarrow> 'd net \<Rightarrow> (u64 \<times> 'd net) option) \<Rightarrow> bool" where
  "receiver_ok log credit q f \<longleftrightarrow>
     (\<forall>data s. queue_ok s q \<and> delivering (queue_of s q) \<longrightarrow>
        (\<exists>r s'. f q data s = Some (r, s') \<and> extends credit q s s' \<and> (ucast r = (0 :: c_int) \<longleftrightarrow> r = 0)
           \<and> log (device s') = log (device s) @ (if r = 0 then [] else [data])))"

definition sent_ok ::
  "('d \<Rightarrow> buffer list) \<Rightarrow> ('d \<Rightarrow> nat) \<Rightarrow> client \<Rightarrow> (nat \<Rightarrow> client \<Rightarrow> u64 \<Rightarrow> 'd net \<Rightarrow> 'd net option) \<Rightarrow> bool" where
  "sent_ok log credit q g \<longleftrightarrow>
     (\<forall>f c r s. queue_ok s q \<longrightarrow>
        (\<exists>s'. g f c r s = Some s' \<and> extends credit q s s' \<and> log (device s') = log (device s)))"

definition code_ok :: "('d \<Rightarrow> buffer list) \<Rightarrow> ('d \<Rightarrow> nat) \<Rightarrow> client \<Rightarrow> 'd net_code \<Rightarrow> bool" where
  "code_ok log credit q C \<longleftrightarrow>
     receiver_ok log credit q (receive (info C q))
     \<and> pred_option (receiver_ok log credit q) (receive_raw (info C q))
     \<and> sent_ok log credit q (sent_fn C)"

lemma queue_ok_delivering [simp]:
  "queue_ok (upd_queue q (delivering_update g) s) q = queue_ok s q"
  "queue_ok (upd_client c (receive_disabled_update h) s) q = queue_ok s q"
  by (simp_all add: queue_ok_def)

lemma extends_delivering [simp]:
  "extends credit q (upd_queue q (delivering_update g) s) s' = extends credit q s s'"
  "extends credit q s (upd_queue q (delivering_update g) s') = extends credit q s s'"
  "extends credit q s (upd_client c (receive_disabled_update h) s') = extends credit q s s'"
  by (simp_all add: extends_def)

lemma extends_refl [simp]: "extends credit q s s = queue_ok s q"
  by (simp add: extends_def)

lemma extends_trans: "extends credit q s s' \<Longrightarrow> extends credit q s' s'' \<Longrightarrow> extends credit q s s''"
  unfolding extends_def list_all_iff by (elim conjE exE) (fastforce intro: order_trans)

lemma extends_queue_ok: "extends credit q s s' \<Longrightarrow> queue_ok s' q"
  by (simp add: extends_def)

lemma extends_link: "extends credit q s s' \<Longrightarrow> nc_link_down (clients s' q) = nc_link_down (clients s q)"
  by (simp add: extends_def)

lemma receiver_okE:
  assumes "receiver_ok log credit q f" "queue_ok s q" "delivering (queue_of s q)"
  obtains r s' where "f q data s = Some (r, s')" "extends credit q s s'"
    "ucast r = (0 :: c_int) \<longleftrightarrow> r = 0" "log (device s') = log (device s) @ (if r = 0 then [] else [data])"
  using assms unfolding receiver_ok_def by blast

lemma deliver_spec:
  assumes code: "code_ok log credit q C" and ok: "queue_ok s q" and up: "\<not> nc_link_down (clients s q)"
    and len: "length data = unat sz"
  obtains r s' where "qemu_net_queue_deliver C q from flags data sz s = Some (r, s')"
    "extends credit q s s'" "ucast r = (0 :: c_int) \<longleftrightarrow> r = 0"
    "log (device s') = log (device s) @ (if r = 0 then [] else [data])"
    "r = 0 \<longrightarrow> receive_disabled (clients s' q)"
proof (cases "receive_disabled (clients s q)")
  case True
  have "qemu_net_queue_deliver C q from flags data sz s =
      Some (0, upd_queue q (delivering_update (\<lambda>_. False)) (upd_queue q (delivering_update (\<lambda>_. True)) s))"
    using True up ok by (simp add: qemu_net_queue_deliver_def qemu_deliver_packet_def queue_ok_def)
  then show thesis by (rule that) (simp_all add: True ok)
next
  case False
  define s1 where "s1 = upd_queue q (delivering_update (\<lambda>_. True)) s"
  define f where "f = (case receive_raw (info C q) of
      Some raw \<Rightarrow> if flags AND 1 \<noteq> 0 then raw else receive (info C q) | None \<Rightarrow> receive (info C q))"
  have f: "receiver_ok log credit q f"
    using code by (auto simp: code_ok_def f_def split: option.split)
  obtain r s' where r: "f q data s1 = Some (r, s')" "extends credit q s1 s'"
      "ucast r = (0 :: c_int) \<longleftrightarrow> r = 0" "log (device s') = log (device s1) @ (if r = 0 then [] else [data])"
    using f ok by (elim receiver_okE [where s = s1 and data = data]) (simp_all add: s1_def)
  define s2 where "s2 = upd_queue q (delivering_update (\<lambda>_. False))
      (if r = 0 then upd_client q (receive_disabled_update (\<lambda>_. True)) s' else s')"
  have "\<not> nc_link_down (clients s1 q)" "\<not> receive_disabled (clients s1 q)" "opaque (queue_of s1 q) = q"
    using False up ok by (simp_all add: s1_def queue_ok_def)
  then have "qemu_net_queue_deliver C q from flags data sz s = Some (r, s2)"
    using len r(1) unfolding qemu_net_queue_deliver_def Let_def s1_def [symmetric]
    by (simp add: qemu_deliver_packet_def f_def [symmetric] s2_def)
  moreover have "extends credit q s s2" using r(2) by (simp add: s1_def s2_def)
  ultimately show thesis using r(3,4) by (intro that [of r s2]) (simp_all add: s1_def s2_def)
qed

subsection \<open>Flushing\<close>

definition requeue :: "client \<Rightarrow> NetPacket \<Rightarrow> 'd net \<Rightarrow> 'd net" where
  "requeue q packet = upd_queue q (\<lambda>Q. Q\<lparr>nq_count := nq_count Q + 1, packets := packet # packets Q\<rparr>)"

lemma remove_first:
  assumes ok: "queue_ok s q" and p: "packets (queue_of s q) = p # ps"
  shows "packets (queue_of (remove_packet q p s) q) = ps" "queue_ok (remove_packet q p s) q" "packet_ok p"
    "entry p < next_packet s" "entry p \<notin> entry ` set ps"
proof -
  have d: "entry p \<notin> entry ` set ps" using ok p by (simp add: queue_ok_def)
  have f: "filter (\<lambda>x. entry x \<noteq> entry p) ps = ps" using d by (intro filter_True) (metis imageI)
  show q: "packets (queue_of (remove_packet q p s) q) = ps" by (simp add: remove_packet_def p f)
  show "queue_ok (remove_packet q p s) q" "packet_ok p" "entry p < next_packet s" "entry p \<notin> entry ` set ps"
    using ok d p by (simp_all add: queue_ok_def remove_packet_def f)
qed

lemma remove_packet_frame [simp]:
  "device (remove_packet q p s) = device s" "next_packet (remove_packet q p s) = next_packet s"
  "nc_link_down (clients (remove_packet q p s) c) = nc_link_down (clients s c)"
  "nq_maxlen (queue_of (remove_packet q p s) q) = nq_maxlen (queue_of s q)"
  by (simp_all add: remove_packet_def)

lemma requeue_ok:
  assumes ok: "queue_ok s q" and p: "packets (queue_of s q) = p # ps"
    and ext: "extends credit q (remove_packet q p s) s'"
  shows "queue_ok (requeue q p s') q"
proof -
  note rm = remove_first [OF ok p]
  obtain new where new: "packets (queue_of s' q) = ps @ new" "\<forall>x\<in>set new. next_packet s \<le> entry x"
    using ext rm(1) by (auto simp: extends_def list_all_iff)
  moreover have "queue_ok s' q" "next_packet s \<le> next_packet s'" using ext by (auto simp: extends_def)
  moreover have "entry p \<notin> entry ` set new" using new(2) rm(4) by fastforce
  ultimately show ?thesis using rm(3,4,5) by (auto simp: queue_ok_def requeue_def)
qed

lemma flush_step:
  assumes "packets (queue_of s q) = p # ps"
    and "qemu_net_queue_deliver C q (sender p) (pkt_flags p) (pkt_data p) (scast (pkt_size p)) (remove_packet q p s) = Some (r, s')"
  shows "ucast r = (0 :: c_int) \<Longrightarrow> qemu_net_queue_flush C q s = Some (False, requeue q p s')"
    and "ucast r \<noteq> (0 :: c_int) \<Longrightarrow> call_sent_cb C p (scast (ucast r :: c_int)) s' = Some s'' \<Longrightarrow>
           qemu_net_queue_flush C q s = qemu_net_queue_flush C q s''"
  by (subst qemu_net_queue_flush.simps; simp add: assms requeue_def)+

lemma flush_False_queued:
  assumes "qemu_net_queue_flush C q s = Some (False, s')"
  shows "packets (queue_of s' q) \<noteq> []"
proof -
  have "\<not> fst (False, s') \<longrightarrow> packets (queue_of (snd (False, s')) q) \<noteq> []"
    using assms
  proof (rule qemu_net_queue_flush.raw_induct
      [where P = "\<lambda>C q s y. \<not> fst y \<longrightarrow> packets (queue_of (snd y) q) \<noteq> []", rotated], goal_cases)
    case (1 flush C q s y)
    then show ?case by (cases y) (auto simp: Let_def bind_eq_Some_conv split: list.splits if_splits)
  qed
  then show ?thesis by simp
qed

lemma sent_cb_spec:
  assumes "code_ok log credit q C" "queue_ok s q"
  obtains s' where "call_sent_cb C p r s = Some s'" "extends credit q s s'" "log (device s') = log (device s)"
proof (cases "sent_cb p")
  case None
  then show thesis using assms by (intro that [of s]) (simp_all add: call_sent_cb_def)
next
  case (Some f)
  have "\<exists>s'. sent_fn C f (sender p) r s = Some s' \<and> extends credit q s s' \<and> log (device s') = log (device s)"
    using assms unfolding code_ok_def sent_ok_def by blast
  then show thesis using Some that by (auto simp: call_sent_cb_def)
qed

text \<open>What a flush leaves behind.\<close>

definition flushed ::
  "('d \<Rightarrow> buffer list) \<Rightarrow> client \<Rightarrow> 'd net \<Rightarrow> bool \<Rightarrow> 'd net \<Rightarrow> bool" where
  "flushed log q s b s' \<longleftrightarrow>
     queue_ok s' q \<and> nc_link_down (clients s' q) = nc_link_down (clients s q)
     \<and> nq_maxlen (queue_of s' q) = nq_maxlen (queue_of s q)
     \<and> (\<exists>done new. log (device s') = log (device s) @ done \<and> done @ pending s' q = pending s q @ new)
     \<and> (if b then pending s' q = [] else receive_disabled (clients s' q))"

lemma pending_remove:
  "queue_ok s q \<Longrightarrow> packets (queue_of s q) = p # ps \<Longrightarrow> pending s q = pkt_data p # pending (remove_packet q p s) q"
  by (simp add: pending_def remove_first)

lemma pending_extends:
  assumes "extends credit q s s'"
  obtains new where "pending s' q = pending s q @ map pkt_data new"
    "packets (queue_of s' q) = packets (queue_of s q) @ new" "credit (device s') + length new \<le> credit (device s)"
  using assms by (auto simp: extends_def pending_def)

text \<open>One round of the loop: the first packet is refused, or it is gone and at most credit-many are
  new.\<close>

lemma flush_round:
  assumes code: "code_ok log credit q C" and ok: "queue_ok s q" and up: "\<not> nc_link_down (clients s q)"
    and Cons: "packets (queue_of s q) = p # ps"
  obtains (refused) s' where "qemu_net_queue_flush C q s = Some (False, s')" "flushed log q s False s'"
  | (taken) s' new where "qemu_net_queue_flush C q s = qemu_net_queue_flush C q s'"
      "extends credit q (remove_packet q p s) s'" "log (device s') = log (device s) @ [pkt_data p]"
      "packets (queue_of s' q) = ps @ new" "credit (device s') + length new \<le> credit (device s)"
proof -
  let ?s = "remove_packet q p s"
  note rm = remove_first [OF ok Cons]
  obtain r s1 where r: "qemu_net_queue_deliver C q (sender p) (pkt_flags p) (pkt_data p) (scast (pkt_size p)) ?s = Some (r, s1)"
    and ext: "extends credit q ?s s1" and r0: "ucast r = (0 :: c_int) \<longleftrightarrow> r = 0"
    and lg: "log (device s1) = log (device ?s) @ (if r = 0 then [] else [pkt_data p])"
    and dis: "r = 0 \<longrightarrow> receive_disabled (clients s1 q)"
    using rm(3) up unfolding packet_ok_def
    by (elim deliver_spec [OF code rm(2), rotated]) simp_all
  obtain n1 where n1: "pending s1 q = pending ?s q @ map pkt_data n1" "packets (queue_of s1 q) = ps @ n1"
    "credit (device s1) + length n1 \<le> credit (device s)"
    using pending_extends [OF ext] rm(1) by auto
  show thesis
  proof (cases "r = 0")
    case True
    have "pending (requeue q p s1) q = pkt_data p # pending s1 q" by (simp add: pending_def requeue_def)
    then have "pending (requeue q p s1) q = pending s q @ map pkt_data n1"
      using n1(1) pending_remove [OF ok Cons] by simp
    then have "flushed log q s False (requeue q p s1)"
      using requeue_ok [OF ok Cons ext] ext lg dis True
      by (simp add: flushed_def) (simp add: requeue_def extends_def)
    then show thesis using flush_step(1) [OF Cons r] r0 True by (intro refused) simp_all
  next
    case False
    obtain s2 where cb: "call_sent_cb C p (scast (ucast r :: c_int)) s1 = Some s2"
      and ext2: "extends credit q s1 s2" and lg2: "log (device s2) = log (device s1)"
      by (rule sent_cb_spec [OF code extends_queue_ok [OF ext]])
    obtain n2 where n2: "packets (queue_of s2 q) = ps @ n1 @ n2" "credit (device s2) + length n2 \<le> credit (device s1)"
      using pending_extends [OF ext2] n1(2) by auto
    have "credit (device s2) + length (n1 @ n2) \<le> credit (device s)" using n1(3) n2(2) by simp
    then show thesis
      using flush_step(2) [OF Cons r _ cb] r0 False extends_trans [OF ext ext2] lg lg2 n2(1)
      by (intro taken [of s2 "n1 @ n2"]) simp_all
  qed
qed

lemma flush_spec:
  assumes code: "code_ok log credit q C"
  shows "queue_ok s q \<Longrightarrow> \<not> nc_link_down (clients s q) \<Longrightarrow>
    \<exists>b s'. qemu_net_queue_flush C q s = Some (b, s') \<and> flushed log q s b s'"
proof (induction "length (packets (queue_of s q)) + credit (device s)" arbitrary: s rule: less_induct)
  case less
  show ?case
  proof (cases "packets (queue_of s q)")
    case Nil
    then have "qemu_net_queue_flush C q s = Some (True, s)" by (simp add: qemu_net_queue_flush.simps)
    moreover have "flushed log q s True s" using less.prems Nil by (simp add: flushed_def pending_def)
    ultimately show ?thesis by blast
  next
    case (Cons p ps)
    show ?thesis
      using code less.prems Cons
    proof (cases rule: flush_round)
      case (refused s')
      then show ?thesis by blast
    next
      case (taken s2 n)
      have small: "length (packets (queue_of s2 q)) + credit (device s2) < length (packets (queue_of s q)) + credit (device s)"
        using taken(4,5) Cons by simp
      have up: "\<not> nc_link_down (clients s2 q)" using extends_link [OF taken(2)] less.prems(2) by simp
      obtain b s3 where f: "qemu_net_queue_flush C q s2 = Some (b, s3)" "flushed log q s2 b s3"
        using less.hyps [OF small extends_queue_ok [OF taken(2)] up] by blast
      obtain dn new where d: "log (device s3) = log (device s2) @ dn" "dn @ pending s3 q = pending s2 q @ new"
        using f(2) by (auto simp: flushed_def)
      have "(pkt_data p # dn) @ pending s3 q = pending s q @ map pkt_data n @ new"
        using d(2) taken(4) Cons by (simp add: pending_def)
      moreover have "log (device s3) = log (device s) @ pkt_data p # dn" using d(1) taken(3) by simp
      ultimately have "\<exists>dn new. log (device s3) = log (device s) @ dn \<and> dn @ pending s3 q = pending s q @ new"
        by blast
      then have "flushed log q s b s3" using f(2) taken(2) by (simp add: flushed_def extends_def)
      then show ?thesis using taken(1) f(1) by auto
    qed
  qed
qed

subsection \<open>Sending\<close>

lemma insert_packet_spec:
  assumes "queue_ok s q" "length data = unat (scast sz :: u64)"
  shows "queue_ok (insert_packet q from flags sz cb data s) q"
    "pending (insert_packet q from flags sz cb data s) q = pending s q @ [data]"
    "device (insert_packet q from flags sz cb data s) = device s"
  using assms by (auto simp: insert_packet_def queue_ok_def pending_def packet_ok_def Let_def list_all_iff)







subsection \<open>Purging\<close>










lemma purge_loop_foreign:
  "packets (queue_of s q) = pre @ ps \<Longrightarrow> distinct (map entry (pre @ ps)) \<Longrightarrow>
     list_all (\<lambda>p. sender p \<noteq> from) ps \<Longrightarrow> purge_loop C q from (head_entry ps) s = Some s"
proof (induction ps arbitrary: pre)
  case Nil
  then show ?case by (simp add: purge_loop.simps head_entry_def)
next
  case (Cons p ps)
  have "\<forall>x\<in>set pre. entry x \<noteq> entry p" using Cons.prems(2) by simp (metis imageI)
  then have "dropWhile (\<lambda>x. entry x \<noteq> entry p) (packets (queue_of s q)) = p # ps"
    by (simp add: Cons.prems(1) dropWhile_append)
  then show ?case
    using Cons.IH [of "pre @ [p]"] Cons.prems by (subst purge_loop.simps) (simp add: head_entry_def [of "p # ps"])
qed

subsection \<open>A network on which the contract holds\<close>

text \<open>A receiver that refuses packets of more than one byte, and answers each packet it takes with a
  packet of its own as long as it has credit.\<close>

definition echo_receive ::
  "client \<Rightarrow> buffer \<Rightarrow> (buffer list \<times> nat) net \<Rightarrow> (u64 \<times> (buffer list \<times> nat) net) option" where
  "echo_receive c data s =
     (if 1 < length data then Some (0, s)
      else let s1 = s\<lparr>device := (fst (device s) @ [data], snd (device s) - 1)\<rparr>
           in Some (1, if 0 < snd (device s) then insert_packet c 5 0 1 None [1] s1 else s1))"

definition echo_code :: "(buffer list \<times> nat) net_code" where
  "echo_code =
     \<lparr>info = (\<lambda>_. \<lparr>receive = echo_receive, receive_raw = None, receive_iov = None,
                    can_receive = Some (\<lambda>_ s. Some (True, s))\<rparr>),
      sent_fn = (\<lambda>f c r s. Some s)\<rparr>"


definition three_packets :: "(buffer list \<times> nat) net" where
  "three_packets =
     \<lparr>clients = (\<lambda>_. \<lparr>nc_link_down = False, peer = Some 0,
        incoming_queue = (qemu_new_net_queue 0)\<lparr>nq_count := 3, packets :=
          [\<lparr>entry = 0, sender = 1, pkt_flags = 0, pkt_size = 1, sent_cb = None, pkt_data = [7]\<rparr>,
           \<lparr>entry = 1, sender = 2, pkt_flags = 0, pkt_size = 1, sent_cb = Some 4, pkt_data = [8]\<rparr>,
           \<lparr>entry = 2, sender = 1, pkt_flags = 0, pkt_size = 2, sent_cb = None, pkt_data = [2, 2]\<rparr>]\<rparr>,
        receive_disabled = False\<rparr>),
      next_packet = 3, vm_running = True, net_mem = (\<lambda>_. 0),
      hub_ports = (\<lambda>_. None), notify_events = 0, device = ([], 1)\<rparr>"

definition long_packet :: "(buffer list \<times> nat) net" where
  "long_packet = upd_queue 0 (\<lambda>Q. Q\<lparr>nq_count := 1, packets :=
     [\<lparr>entry = 2, sender = 1, pkt_flags = 0, pkt_size = 2, sent_cb = None, pkt_data = [2, 2]\<rparr>]\<rparr>) three_packets"

lemma extends_device: "queue_ok s q \<Longrightarrow> credit d \<le> credit (device s) \<Longrightarrow> extends credit q s (s\<lparr>device := d\<rparr>)"
  by (simp add: extends_def queue_ok_def)

lemma extends_insert:
  assumes "queue_ok s q" "length data = unat (scast sz :: u64)" "credit d + 1 \<le> credit (device s)"
  shows "extends credit q s (insert_packet q from flags sz cb data (s\<lparr>device := d\<rparr>))"
proof -
  have "queue_ok (s\<lparr>device := d\<rparr>) q" using assms(1) by (simp add: queue_ok_def)
  then have "queue_ok (insert_packet q from flags sz cb data (s\<lparr>device := d\<rparr>)) q"
    using assms(2) by (rule insert_packet_spec)
  then show ?thesis using assms(3) by (simp add: extends_def) (simp add: insert_packet_def Let_def)
qed

lemma echo_ok: "code_ok fst snd q echo_code"
proof -
  have "receiver_ok fst snd q echo_receive"
    unfolding receiver_ok_def echo_receive_def
    by (auto simp: Let_def insert_packet_spec queue_ok_def intro!: extends_insert extends_device)
  then show ?thesis by (simp add: code_ok_def echo_code_def sent_ok_def)
qed

lemma three_packets_queue:
  "packets (queue_of three_packets 0) =
     [\<lparr>entry = 0, sender = 1, pkt_flags = 0, pkt_size = 1, sent_cb = None, pkt_data = [7]\<rparr>,
      \<lparr>entry = 1, sender = 2, pkt_flags = 0, pkt_size = 1, sent_cb = Some 4, pkt_data = [8]\<rparr>,
      \<lparr>entry = 2, sender = 1, pkt_flags = 0, pkt_size = 2, sent_cb = None, pkt_data = [2, 2]\<rparr>]"
  "device three_packets = ([], 1)" "\<not> nc_link_down (clients three_packets 0)"
  "pending three_packets 0 = [[7], [8], [2, 2]]"
  by (simp_all add: three_packets_def queue_of_def pending_def)

lemma three_packets_ok: "queue_ok three_packets 0"
  by (simp add: queue_ok_def three_packets_def queue_of_def packet_ok_def qemu_new_net_queue_def unat_scast_small)

subsection \<open>Properties\<close>

text \<open>
  C28: flushing the queue of a client whose link is up returns, for receivers and callbacks that return and
  queue only finitely many packets of their own; what was taken followed by what is still queued is the
  queue before, in order, followed by the packets queued meanwhile. So no packet is lost, repeated or
  overtaken. The result says whether the queue is empty; if it is not, the receiver is marked as
  disabled. The queue stays well formed, its count included.\<close>

theorem net_queue_flush_fifo:
  assumes "code_ok log credit q C" "queue_ok s q" "\<not> nc_link_down (clients s q)"
  shows "\<exists>b s' taken new.
    qemu_net_queue_flush C q s = Some (b, s') \<and> queue_ok s' q
    \<and> log (device s') = log (device s) @ taken \<and> taken @ pending s' q = pending s q @ new
    \<and> (if b then pending s' q = [] else receive_disabled (clients s' q))"
proof -
  obtain b s' where "qemu_net_queue_flush C q s = Some (b, s')" "flushed log q s b s'"
    using flush_spec [OF assms] by blast
  then show ?thesis unfolding flushed_def by blast
qed

theorem net_queue_flush_fifo_witness:
  "code_ok fst snd 0 echo_code \<and> queue_ok three_packets 0 \<and>
   (\<exists>b s' taken new. qemu_net_queue_flush echo_code 0 three_packets = Some (b, s') \<and> queue_ok s' 0
      \<and> fst (device s') = taken \<and> taken @ pending s' 0 = [[7], [8], [2, 2]] @ new
      \<and> (if b then pending s' 0 = [] else receive_disabled (clients s' 0)))"
  using net_queue_flush_fifo [OF echo_ok three_packets_ok three_packets_queue(3)] echo_ok three_packets_ok
  by (simp add: three_packets_queue)





text \<open>
  C31: Flushing with the purge of what cannot be delivered purges nothing. When the receiver of a client
  that is not connected to a hub refuses a packet, and no queued packet was sent by the client to itself,
  the refused packet and all others are still queued when the operation returns, the queue is not empty,
  and purging did no more than flushing alone: the purge looks for packets whose sender is the client that owns the queue, where
  the senders are its peers.\<close>

theorem flush_or_purge_keeps_packets:
  assumes "\<forall>p. peer (clients s nc) = Some p \<longrightarrow> hub_ports s p = None"
    and "qemu_net_queue_flush C nc (upd_client nc (receive_disabled_update (\<lambda>_. False)) s) = Some (False, s')"
    and "queue_ok s' nc" "list_all (\<lambda>p. sender p \<noteq> nc) (packets (queue_of s' nc))"
  shows "qemu_flush_or_purge_queued_packets C nc True s = Some s' \<and> packets (queue_of s' nc) \<noteq> []
    \<and> qemu_flush_or_purge_queued_packets C nc True s = qemu_flush_or_purge_queued_packets C nc False s"
proof -
  let ?s = "upd_client nc (receive_disabled_update (\<lambda>_. False)) s"
  have "peer (clients ?s nc) = peer (clients s nc)" "hub_ports ?s = hub_ports s"
    by (simp_all add: upd_client_def)
  then have fl: "qemu_flush_or_purge_queued_packets C nc b s =
      (if b then qemu_net_queue_purge C nc nc s' else Some s')" for b
    using assms(1,2) by (auto simp: qemu_flush_or_purge_queued_packets_def Let_def split: option.split)
  have "qemu_net_queue_purge C nc nc s' = Some s'"
    using purge_loop_foreign [of s' nc "[]" "packets (queue_of s' nc)"] assms(3,4)
    by (simp add: qemu_net_queue_purge_def queue_ok_def)
  then show ?thesis using flush_False_queued [OF assms(2)] by (simp add: fl)
qed

theorem flush_or_purge_keeps_packets_witness:
  "\<exists>s'. qemu_flush_or_purge_queued_packets echo_code 0 True long_packet = Some s'
     \<and> pending s' 0 = [[2, 2]]"
proof -
  let ?p = "\<lparr>entry = 2, sender = 1, pkt_flags = 0, pkt_size = 2, sent_cb = None, pkt_data = [2, 2]\<rparr> :: NetPacket"
  let ?s = "upd_client 0 (receive_disabled_update (\<lambda>_. False)) long_packet"
  have q: "packets (queue_of ?s 0) = [?p]" by (simp add: long_packet_def)
  have sz: "unat (scast (2 :: c_int) :: u64) = 2" by (simp add: unat_scast_small)
  obtain s1 where d: "qemu_net_queue_deliver echo_code 0 1 0 [2, 2] (scast (2 :: c_int)) (remove_packet 0 ?p ?s) = Some (0, s1)"
    "packets (queue_of s1 0) = []" "nq_count (queue_of s1 0) = 0" "opaque (queue_of s1 0) = 0" "next_packet s1 = 3"
    by (simp add: qemu_net_queue_deliver_def qemu_deliver_packet_def sz echo_code_def echo_receive_def
        remove_packet_def long_packet_def three_packets_def queue_of_def upd_queue_def upd_client_def
        qemu_new_net_queue_def)
  have fl: "qemu_net_queue_flush echo_code 0 ?s = Some (False, requeue 0 ?p s1)"
    using flush_step(1) [OF q, of echo_code 0 s1] d(1) by simp
  have ok: "queue_ok (requeue 0 ?p s1) 0" using d sz by (simp add: queue_ok_def requeue_def packet_ok_def)
  have "qemu_flush_or_purge_queued_packets echo_code 0 True long_packet = Some (requeue 0 ?p s1)"
    using flush_or_purge_keeps_packets [OF _ fl ok] d(2)
    by (simp add: long_packet_def three_packets_def upd_queue_def upd_client_def requeue_def queue_of_def)
  then show ?thesis using d(2) by (auto simp: pending_def requeue_def)
qed

end
