(* ===== verification/Spec2Isabelle.thy ===== *)
theory Spec2Isabelle
  imports Plugin_Properties Monitor_Introspect Iov_Properties Dma_Transfer E1000_Eeprom
    E1000_Properties Xbzrle Page_Cache Hbitmap_Properties I8259 Net_Queue
begin

text \<open>
  A verification library for TEMU 3.1, an instrumented build of the QEMU 2.3.0 machine emulator.

  \<^bold>\<open>The program.\<close> The emulator runs a guest; its devices move bytes between
  guest memory, the disk image and the network. TEMU adds a loadable analysis plugin.
  \<open>plugin.c\<close> opens it with the dynamic linker; the monitor configures it
  (\<open>hmp_plugin_set\<close> and its siblings in \<open>monitor.c\<close>); the network card
  \<open>hw/net/e1000.c\<close> calls it for every frame sent or received and
  \<open>dma-helpers.c\<close> for every block request. The plugin \<open>plugins/main.c\<close>
  filters packets by address, port and protocol, writes them to a capture file and a readable log,
  and logs block accesses to traced files. The monitor commands \<open>pslist\<close>,
  \<open>getcr3\<close> and \<open>pool_files\<close> walk the data structures of a Windows guest
  through \<open>cpu_memory_rw_debug\<close>.

  \<^bold>\<open>Conventions.\<close> Integers keep their C width as words, and wrap. Undefined
  behaviour, a failed assertion and not returning are \<open>None\<close>; a loop that may run for
  ever is a partial function of the option monad, so that a theorem that it returns is a statement
  of its own. Host memory is a function from natural-number addresses to bytes; what the code calls
  but the repository does not define (the page walk, \<open>dma_memory_map\<close>,
  \<open>qsort\<close>, \<open>address_space_rw\<close>, the dynamic linker, the sector lookup
  program) is a parameter, with its contract as a named hypothesis. What leaves a component is
  recorded in a trace field of its state.

  \<^bold>\<open>The theories.\<close>
  \<^item> \<open>Temu_Prelude\<close>, \<open>C_Library\<close>, \<open>Host_Memory\<close>: C types, memory reads that can fail,
    number formatting and parsing, byte encodings, memory blocks; facts on words and lists.
  \<^item> \<open>Plugin_State\<close>, \<open>Plugin_Files\<close>, \<open>Plugin_Packets\<close>, \<open>Plugin_Config\<close>: the
    state and operations of \<open>plugins/main.c\<close>: the linked list of traced files in an explicit
    heap, packet filters and logs, \<open>set_plugin\<close>, \<open>reset_plugin\<close>, \<open>toggle_plugin\<close>.
  \<^item> \<open>Plugin_Interface\<close>, \<open>Plugin_Loader\<close>: \<open>plugin_interface_t\<close> with the calls the
    emulator makes, the locale \<open>plugin_contract\<close> with its interpretation on the plugin, and the
    loader state machine of \<open>plugin.c\<close>. \<open>Plugin_Properties\<close> holds the properties.
  \<^item> \<open>Guest_Memory\<close>, \<open>Monitor_Introspect\<close>: debug reads page by page, and the guest
    introspection commands of \<open>monitor.c\<close>.
  \<^item> \<open>Cutils\<close>: string, calendar, number and zero-test helpers of \<open>util/cutils.c\<close>.
  \<^item> \<open>Iov\<close>, \<open>Iov_Properties\<close>: the scatter/gather vectors of \<open>util/iov.c\<close>, with the
    locale \<open>scatter_list\<close>; every operation is related to the list of addresses a vector describes.
  \<^item> \<open>Dma\<close>, \<open>Dma_Transfer\<close>: \<open>dma-helpers.c\<close> as a step relation over its callbacks.
  \<^item> \<open>Net_Checksum\<close>: \<open>net/checksum.c\<close>.
  \<^item> \<open>E1000\<close>, \<open>E1000_Rings\<close>: the network card: registers, interrupts, PHY, EEPROM; rings,
    segmentation, filters, register interface, plugin hooks. \<open>E1000_Frame\<close> says what the data
    paths leave alone, \<open>E1000_Transmit\<close> when transmission returns, \<open>E1000_Eeprom\<close> and
    \<open>E1000_Properties\<close> what holds of the card.
  \<^item> \<open>Net_Queue\<close>: the packet queues of \<open>net/queue.c\<close> and delivery to the clients and hubs of
    \<open>net/net.c\<close> and \<open>net/hub.c\<close>, with the functions behind the callback pointers as parameters.
  \<^item> \<open>Xbzrle\<close>, \<open>Page_Cache\<close>: the delta encoding of pages of \<open>migration/xbzrle.c\<close> and
    the cache of old pages of \<open>page_cache.c\<close>, with the allocator as a parameter.
  \<^item> \<open>Hbitmap\<close>: the stacked bitmap of \<open>util/hbitmap.c\<close> that tracks dirty blocks.
    \<open>Hbitmap_Levels\<close> has the invariant of the levels, \<open>Hbitmap_Iter\<close> and \<open>Hbitmap_Visit\<close>
    what an iterator has left, \<open>Hbitmap_Properties\<close> the locale \<open>range_set\<close> with its
    interpretation on the bitmap, and the properties.
  \<^item> \<open>I8259\<close>: the cascaded interrupt controllers of \<open>hw/intc/i8259.c\<close>.

  \<^bold>\<open>What is shown.\<close> Plugin: configured filters select exactly the intended
  packets; a logged packet is one record of the capture file, which always parses; tracing a file
  refines inserting into a list; every run of hook calls keeps the invariant and, once a file is
  traced, returns. Introspection: page-wise reads equal byte-wise reads; the commands print the
  guest's process list. Vectors and DMA: writing and reading back, the agreement of the window
  operations, comparison and cloning; block requests cover the scatter/gather list once, in order,
  on consecutive sectors, and every callback returns. Network card: the frames on the wire are those
  the plugin sees; interrupt bookkeeping is consistent in every reachable state; transmission
  returns for rings with the head inside; the EEPROM protocol reads the EEPROM; the inserted
  checksums verify. Packet queues: flushing returns and keeps the order, also when receivers queue
  packets of their own; every packet sent is taken, queued or dropped as the result says; purging
  removes one sender's packets. Helpers: the optimised zero tests, bounded strings, powers of two,
  calendar time and number parsing meet their plain definitions, and decoding an encoded page gives
  the page back. The page cache stays a well-formed table, returns what was inserted and invents
  nothing when resized. The hierarchical bitmap is the set of groups its operations build, and
  iteration visits it in order. Interrupt controllers: the selected interrupt is the one the
  priority rules name, the output line follows it, and ending an interrupt undoes its
  acknowledgement. Negative results are theorems too: the block hook before a file is traced, a
  failed reload, a cyclic process list, a sector split by a failed mapping, rings with head and tail
  outside, a bitmap range of no items, a mode write of the interrupt controller, the purge after a
  refused flush.

  \<^bold>\<open>Bounds.\<close> No theorem uses fuel. The measures are: bytes or sectors left for
  the copy loops, list length for the walks over vectors and nodes, slots of the ring for
  transmission, and for a segmented packet the bytes left plus the one empty round at a segment
  boundary, the distance to the next set input for the priority search, the bits left for an
  iteration over a bitmap, and for a packet queue its length plus the packets the receiver may still
  add.

  \<^bold>\<open>Not modelled.\<close> The other devices, the CPU and its translator, the block layer behind a
  request, the user interfaces and the build: the analysis code does not depend on them beyond the
  parameters above. Socket transfers and hex dumps of vectors, floating-point size parsing, PCI
  registration, the migration tables of the card and of the interrupt controllers, the printing of
  their state, and the creation and deletion of network clients and hubs are left out,
  as is \<open>f2p_mapping\<close>, which nothing calls.
\<close>

end
